(* ===== verification/Prelude.thy ===== *)
theory Prelude
  imports Main "HOL-Library.Word" "HOL-Library.Multiset"
begin

text \<open>
  What every component shares: the names of the machine types, the error numbers of the
  system calls the sources test, and the list operations that stand for the C++ containers
  (\<open>std::vector::resize\<close>, \<open>std::copy\<close>, sub-ranges) with the lemmas the component
  proofs rely on. Collections of rewrite rules: \<open>range_simps\<close> for sub-ranges of byte vectors.
\<close>

unbundle bit_operations_syntax

section \<open>Machine types\<close>

type_synonym byte = "8 word"
type_synonym u16 = "16 word"
type_synonym u32 = "32 word"
type_synonym u64 = "64 word"

text \<open>File descriptors are \<open>int32_t\<close>, with \<open>-1\<close> for \<open>no descriptor\<close>.\<close>

type_synonym fd = int

text \<open>The values of \<open>errno\<close> the sources compare with, and every other one as \<open>EOTHER\<close>.\<close>

datatype errno =
    EAGAIN | EPIPE | ECONNRESET | ENOENT | EEXIST | EINTR | EACCES | EINPROGRESS
  | ECONNREFUSED | ETIMEDOUT | ENETUNREACH | EHOSTUNREACH | EADDRNOTAVAIL | ECONNABORTED
  | EOTHER nat

text \<open>A system call returns \<open>Inl e\<close> when it returns -1 with \<open>errno = e\<close>.\<close>

type_synonym 'a sysret = "errno + 'a"

section \<open>Vectors\<close>

named_theorems range_simps \<open>rules for sub-ranges of vectors\<close>

text \<open>The elements of \<open>[v.begin() + i, v.begin() + j)\<close>.\<close>

definition range_of :: "nat \<Rightarrow> nat \<Rightarrow> 'a list \<Rightarrow> 'a list" where
  "range_of i j v = take (j - i) (drop i v)"

text \<open>\<open>v.resize(n)\<close>: new elements are value-initialised to \<open>d\<close>.\<close>

definition vresize :: "nat \<Rightarrow> 'a \<Rightarrow> 'a list \<Rightarrow> 'a list" where
  "vresize n d v = take n v @ replicate (n - length v) d"

text \<open>\<open>std::copy\<close> of another range onto \<open>v.begin() + i\<close>.\<close>

definition overwrite :: "'a list \<Rightarrow> nat \<Rightarrow> 'a list \<Rightarrow> 'a list" where
  "overwrite v i ys = take i v @ ys @ drop (i + length ys) v"

text \<open>
  \<open>std::copy(v.begin() + src, v.begin() + src + n, v.begin() + dst)\<close> inside one vector:
  element by element from the front, so an element may be overwritten before it is read when
  the destination lies above the source.
\<close>

fun std_copy :: "'a list \<Rightarrow> nat \<Rightarrow> nat \<Rightarrow> nat \<Rightarrow> 'a list" where
  "std_copy v src 0 dst = v"
| "std_copy v src (Suc n) dst = std_copy (v[dst := v ! src]) (Suc src) n (Suc dst)"

lemma length_range_of [simp, range_simps]:
  "length (range_of i j v) = min (j - i) (length v - i)"
  by (simp add: range_of_def)

lemma range_of_empty [simp, range_simps]: "j \<le> i \<Longrightarrow> range_of i j v = []"
  by (simp add: range_of_def)

lemma range_of_0 [range_simps]: "range_of 0 j v = take j v"
  by (simp add: range_of_def)

lemma length_vresize [simp, range_simps]: "length (vresize n d v) = n"
  by (simp add: vresize_def)

lemma length_overwrite [simp, range_simps]:
  "i + length ys \<le> length v \<Longrightarrow> length (overwrite v i ys) = length v"
  by (simp add: overwrite_def)

lemma drop_range_of [range_simps]: "drop n (range_of i j v) = range_of (i + n) j v"
  by (simp add: range_of_def drop_take add.commute)

lemma take_range_of [range_simps]:
  "n \<le> j - i \<Longrightarrow> take n (range_of i j v) = range_of i (i + n) v"
  by (simp add: range_of_def)

lemma range_of_append [range_simps]:
  "i \<le> j \<Longrightarrow> j \<le> k \<Longrightarrow> range_of i j v @ range_of j k v = range_of i k v"
  using take_add [of "j - i" "k - j" "drop i v"] by (simp add: range_of_def)

lemma range_of_vresize:
  "j \<le> length v \<Longrightarrow> j \<le> n \<Longrightarrow> range_of i j (vresize n d v) = range_of i j v"
  by (cases "i \<le> j") (auto simp: range_of_def vresize_def take_drop min_def)

lemma range_of_overwrite_before:
  "j \<le> i' \<Longrightarrow> i' \<le> length v \<Longrightarrow> range_of i j (overwrite v i' ys) = range_of i j v"
  by (cases "i \<le> j") (auto simp: range_of_def overwrite_def take_drop min_def)

lemma range_of_overwrite_same:
  "i + length ys \<le> length v \<Longrightarrow> range_of i (i + length ys) (overwrite v i ys) = ys"
  by (simp add: range_of_def overwrite_def)

lemma range_of_overwrite_prefix:
  assumes "i + length ys \<le> length v" and "n \<le> length ys"
  shows "range_of i (i + n) (overwrite v i ys) = take n ys"
  using assms by (simp add: range_of_def overwrite_def)

lemma overwrite_nth:
  assumes "i + length ys \<le> length v" and "k < length v"
  shows "overwrite v i ys ! k = (if i \<le> k \<and> k < i + length ys then ys ! (k - i) else v ! k)"
  using assms by (auto simp: overwrite_def nth_append min_def)

lemma length_std_copy [simp]: "length (std_copy v src n dst) = length v"
  by (induction v src n dst rule: std_copy.induct) auto

text \<open>The element-wise copy, read position by position, when the destination is not above the source.\<close>

lemma std_copy_nth:
  assumes "dst \<le> src" and "src + n \<le> length v" and "k < length v"
  shows "std_copy v src n dst ! k =
    (if dst \<le> k \<and> k < dst + n then v ! (src + (k - dst)) else v ! k)"
  using assms
proof (induction v src n dst rule: std_copy.induct)
  case (1 v src dst)
  then show ?case by auto
next
  case (2 v src n dst)
  from 2 have "std_copy (v[dst := v ! src]) (Suc src) n (Suc dst) ! k =
    (if Suc dst \<le> k \<and> k < Suc dst + n then v[dst := v ! src] ! (Suc src + (k - Suc dst))
     else v[dst := v ! src] ! k)"
    by (intro 2(1)) auto
  with 2 show ?case
    by (cases "k = dst") (auto simp: nth_list_update Suc_diff_Suc)
qed

text \<open>So the loop is the block move it is meant to be.\<close>

lemma std_copy_down:
  assumes "dst \<le> src" and "src + n \<le> length v"
  shows "std_copy v src n dst = overwrite v dst (range_of src (src + n) v)"
proof (rule nth_equalityI)
  show "length (std_copy v src n dst) = length (overwrite v dst (range_of src (src + n) v))"
    using assms by simp
next
  fix k
  assume "k < length (std_copy v src n dst)"
  then have k: "k < length v" by simp
  have len: "length (range_of src (src + n) v) = n"
    using assms by simp
  show "std_copy v src n dst ! k = overwrite v dst (range_of src (src + n) v) ! k"
    using assms k len by (auto simp: std_copy_nth overwrite_nth range_of_def)
qed

section \<open>Words\<close>

lemma unat_of_nat_u64: "i < 2 ^ 64 \<Longrightarrow> unat (of_nat i :: u64) = i"
  by (rule of_nat_inverse [OF refl]) simp

lemma of_nat_u64_eq: "i < 2 ^ 64 \<Longrightarrow> j < 2 ^ 64 \<Longrightarrow> (of_nat i :: u64) = of_nat j \<longleftrightarrow> i = j"
  by (metis unat_of_nat_u64)

lemma sint_u64_small: "uint (w :: u64) < 2 ^ 63 \<Longrightarrow> sint w = uint w"
  unfolding sint_uint by (rule signed_take_bit_int_eq_self) (simp_all add: order_trans [OF _ uint_ge_0])

lemma int_less_pow: "a * b < 2 ^ n \<Longrightarrow> int a * int b < 2 ^ n"
  by (metis of_nat_less_iff of_nat_mult of_nat_numeral of_nat_power)

end
