(* ===== verification/Interfaces.thy ===== *)
theory Interfaces
  imports Prelude
begin

text \<open>
  The contracts between the components, as locales: what a provider promises of its
  operations, and what a client may conclude from the promise alone. Each locale is
  interpreted in the theory of the component that provides it.
\<close>

section \<open>Byte queues\<close>

datatype 'b fifo_op = Ins "'b list" | Del nat

fun fifo_run :: "('b list \<Rightarrow> 's \<Rightarrow> 's) \<Rightarrow> (nat \<Rightarrow> 's \<Rightarrow> 's) \<Rightarrow> 'b fifo_op list \<Rightarrow> 's \<Rightarrow> 's" where
  "fifo_run ins del [] s = s"
| "fifo_run ins del (Ins xs # ops) s = fifo_run ins del ops (ins xs s)"
| "fifo_run ins del (Del n # ops) s = fifo_run ins del ops (del n s)"

text \<open>Everything inserted, and everything taken from the front, by a sequence of operations.\<close>

fun fifo_in :: "'b fifo_op list \<Rightarrow> 'b list" where
  "fifo_in [] = []"
| "fifo_in (Ins xs # ops) = xs @ fifo_in ops"
| "fifo_in (Del n # ops) = fifo_in ops"

fun fifo_out :: "('s \<Rightarrow> 'b list) \<Rightarrow> ('b list \<Rightarrow> 's \<Rightarrow> 's) \<Rightarrow> (nat \<Rightarrow> 's \<Rightarrow> 's) \<Rightarrow>
    'b fifo_op list \<Rightarrow> 's \<Rightarrow> 'b list" where
  "fifo_out cont ins del [] s = []"
| "fifo_out cont ins del (Ins xs # ops) s = fifo_out cont ins del ops (ins xs s)"
| "fifo_out cont ins del (Del n # ops) s = take n (cont s) @ fifo_out cont ins del ops (del n s)"

locale byte_fifo =
  fixes inv :: "'s \<Rightarrow> bool"
    and cont :: "'s \<Rightarrow> 'b list"
    and ins :: "'b list \<Rightarrow> 's \<Rightarrow> 's"
    and del :: "nat \<Rightarrow> 's \<Rightarrow> 's"
    and clr :: "'s \<Rightarrow> 's"
  assumes inv_ins: "inv s \<Longrightarrow> inv (ins xs s)"
    and cont_ins: "inv s \<Longrightarrow> cont (ins xs s) = cont s @ xs"
    and inv_del: "inv s \<Longrightarrow> inv (del n s)"
    and cont_del: "inv s \<Longrightarrow> cont (del n s) = drop n (cont s)"
    and inv_clr: "inv s \<Longrightarrow> inv (clr s)"
    and cont_clr: "inv s \<Longrightarrow> cont (clr s) = []"
begin

lemma inv_run: "inv s \<Longrightarrow> inv (fifo_run ins del ops s)"
proof (induction ops arbitrary: s)
  case (Cons op ops)
  then show ?case by (cases op) (simp_all add: inv_ins inv_del)
qed simp

text \<open>
  Nothing is lost, duplicated or reordered: what was there and what came in is what went
  out and what is there, in that order.
\<close>

lemma history:
  "inv s \<Longrightarrow> cont s @ fifo_in ops = fifo_out cont ins del ops s @ cont (fifo_run ins del ops s)"
proof (induction ops arbitrary: s)
  case (Cons op ops)
  show ?case
  proof (cases op)
    case (Ins xs)
    then show ?thesis using Cons.IH [OF inv_ins [OF Cons.prems]] Cons.prems
      by (simp add: cont_ins)
  next
    case (Del n)
    have "drop n (cont s) @ fifo_in ops =
        fifo_out cont ins del ops (del n s) @ cont (fifo_run ins del ops (del n s))"
      using Cons.IH [OF inv_del [OF Cons.prems]] Cons.prems by (simp add: cont_del)
    moreover have "cont s @ fifo_in ops = take n (cont s) @ drop n (cont s) @ fifo_in ops"
      by (simp flip: append.assoc)
    ultimately show ?thesis using Del by simp
  qed
qed simp

end

section \<open>Double-buffered task queues\<close>

text \<open>
  A queue that is filled through a buffer, swapped as a whole into a batch, and run one
  closure at a time; \<open>finished\<close> and \<open>posted\<close> record what was run and what was posted.
\<close>

locale task_queue =
  fixes waiting :: "'s \<Rightarrow> 'x list"
    and current :: "'s \<Rightarrow> 'x list"
    and finished :: "'s \<Rightarrow> 'x list"
    and posted :: "'s \<Rightarrow> 'x list"
    and post :: "'x \<Rightarrow> 's \<Rightarrow> 's"
    and swap :: "'s \<Rightarrow> 's"
    and run_next :: "'s \<Rightarrow> 's"
  assumes post_waiting: "waiting (post x s) = waiting s @ [x]"
    and post_posted: "posted (post x s) = posted s @ [x]"
    and post_frame: "current (post x s) = current s" "finished (post x s) = finished s"
    and swap_current: "current (swap s) = waiting s"
    and swap_waiting: "waiting (swap s) = current s"
    and swap_frame: "finished (swap s) = finished s" "posted (swap s) = posted s"
    and next_current: "current s \<noteq> [] \<Longrightarrow> current (run_next s) = tl (current s)"
    and next_finished: "current s \<noteq> [] \<Longrightarrow> finished (run_next s) = finished s @ [hd (current s)]"
    and next_frame: "waiting (run_next s) = waiting s" "posted (run_next s) = posted s"
begin

text \<open>Every closure posted is run, being run, or waiting, once and in the order of posting.\<close>

lemma post_balanced:
  "finished s @ current s @ waiting s = posted s \<Longrightarrow>
   finished (post x s) @ current (post x s) @ waiting (post x s) = posted (post x s)"
  by (simp add: post_waiting post_posted post_frame)

lemma swap_balanced:
  "finished s @ current s @ waiting s = posted s \<Longrightarrow> current s = [] \<Longrightarrow>
   finished (swap s) @ current (swap s) @ waiting (swap s) = posted (swap s)"
  by (simp add: swap_current swap_waiting swap_frame)

lemma next_balanced:
  "finished s @ current s @ waiting s = posted s \<Longrightarrow> current s \<noteq> [] \<Longrightarrow>
   finished (run_next s) @ current (run_next s) @ waiting (run_next s) = posted (run_next s)"
  by (cases "current s") (simp_all add: next_current next_finished next_frame)

end

section \<open>Priority queues\<close>

text \<open>A queue of a preordered type that gives back a least element first.\<close>

locale min_queue =
  fixes inv :: "'q \<Rightarrow> bool"
    and elems :: "'q \<Rightarrow> ('a::preorder) multiset"
    and push :: "'a \<Rightarrow> 'q \<Rightarrow> 'q"
    and top :: "'q \<Rightarrow> 'a"
    and pop :: "'q \<Rightarrow> 'q"
  assumes push_inv: "inv q \<Longrightarrow> inv (push x q)"
    and push_elems: "inv q \<Longrightarrow> elems (push x q) = add_mset x (elems q)"
    and top_in: "inv q \<Longrightarrow> elems q \<noteq> {#} \<Longrightarrow> top q \<in># elems q"
    and top_le: "inv q \<Longrightarrow> x \<in># elems q \<Longrightarrow> top q \<le> x"
    and pop_inv: "inv q \<Longrightarrow> elems q \<noteq> {#} \<Longrightarrow> inv (pop q)"
    and pop_elems: "inv q \<Longrightarrow> elems q \<noteq> {#} \<Longrightarrow> elems (pop q) = elems q - {#top q#}"
begin

lemma elems_split: "inv q \<Longrightarrow> elems q \<noteq> {#} \<Longrightarrow> elems q = add_mset (top q) (elems (pop q))"
  by (simp add: pop_elems top_in)

lemma pop_above: "inv q \<Longrightarrow> x \<in># elems (pop q) \<Longrightarrow> elems q \<noteq> {#} \<Longrightarrow> top q \<le> x"
  using elems_split top_le by (metis union_single_eq_member insert_iff set_mset_add_mset_insert)

text \<open>A pushed element is at the top or above it.\<close>

lemma push_top: "inv q \<Longrightarrow> top (push x q) \<le> x"
  using push_inv top_le by (simp add: push_elems)

lemma push_top_old: "inv q \<Longrightarrow> elems q \<noteq> {#} \<Longrightarrow> top (push x q) \<le> top q"
  using push_inv top_le top_in by (simp add: push_elems)

lemma push_top_cases: "inv q \<Longrightarrow> top (push x q) = x \<or> top (push x q) \<in># elems q"
  using top_in [OF push_inv, of q x] by (auto simp: push_elems)

end

section \<open>Keys of hash tables\<close>

text \<open>What \<open>std::unordered_map\<close> requires of its key: an equivalence that the hash respects.\<close>

locale hashed_key =
  fixes ok :: "'a \<Rightarrow> bool"
    and eq :: "'a \<Rightarrow> 'a \<Rightarrow> bool"
    and hash :: "'a \<Rightarrow> u64"
  assumes eq_refl: "ok a \<Longrightarrow> eq a a"
    and eq_sym: "ok a \<Longrightarrow> ok b \<Longrightarrow> eq a b \<Longrightarrow> eq b a"
    and eq_trans: "ok a \<Longrightarrow> ok b \<Longrightarrow> ok c \<Longrightarrow> eq a b \<Longrightarrow> eq b c \<Longrightarrow> eq a c"
    and hash_eq: "ok a \<Longrightarrow> ok b \<Longrightarrow> eq a b \<Longrightarrow> hash a = hash b"
begin

text \<open>
  A table of buckets: a lookup scans the bucket of its key only. It finds the first entry with
  an equal key, as a scan of all entries would.
\<close>

lemma bucket_find:
  assumes "ok k" and "list_all (\<lambda>(a, v). ok a) entries"
  shows "find (\<lambda>(a, v). eq k a) (filter (\<lambda>(a, v). unat (hash a) mod n = unat (hash k) mod n) entries) =
    find (\<lambda>(a, v). eq k a) entries"
  using assms(2) by (induction entries) (auto dest: hash_eq [OF assms(1)])

text \<open>Keys that are equal find the same entry.\<close>

lemma find_respects_eq:
  assumes "ok k" and "ok k'" and "eq k k'" and "list_all (\<lambda>(a, v). ok a) entries"
  shows "find (\<lambda>(a, v). eq k a) entries = find (\<lambda>(a, v). eq k' a) entries"
proof -
  have "ok a \<Longrightarrow> eq k a = eq k' a" for a
    using assms(1-3) eq_sym eq_trans by blast
  then show ?thesis using assms(4) by (induction entries) auto
qed

end

end
