(* ===== verification/Stream_Buffer.thy ===== *)
theory Stream_Buffer
  imports Interfaces
begin

text \<open>
  \<open>StreamBuffer\<close> (\<open>include/kzevent/stream_buffer.hpp\<close>, \<open>src/stream_buffer.cpp\<close>): the growable byte
  buffer under every stream socket. \<open>ssize_t\<close> is \<open>int\<close> and \<open>size_t\<close> is \<open>nat\<close> (sizes stay far
  below \<open>2 ^ 63\<close>); the shrink counter keeps its width of eight bits. A pointer into the buffer
  is its offset.
\<close>

section \<open>State and operations\<close>

record StreamBuffer =
  sb_buffer :: "byte list"
  sb_reader :: int
  sb_writer :: int
  sb_shrink_count :: "8 word"
  sb_initial_size :: nat

definition kShrinkThreshold :: "8 word" where
  "kShrinkThreshold = 10"

definition kShrinkDivisor :: nat where
  "kShrinkDivisor = 2"

definition make_StreamBuffer :: "nat \<Rightarrow> StreamBuffer" where
  "make_StreamBuffer initial_size = \<lparr>sb_buffer = replicate initial_size 0, sb_reader = 0,
     sb_writer = 0, sb_shrink_count = 0, sb_initial_size = initial_size\<rparr>"

text \<open>\<open>data()\<close> and \<open>begin()\<close> are the same pointer.\<close>

definition sb_begin :: "StreamBuffer \<Rightarrow> int" where
  "sb_begin sb = sb_reader sb"

definition sb_end :: "StreamBuffer \<Rightarrow> int" where
  "sb_end sb = sb_writer sb"

definition sb_size :: "StreamBuffer \<Rightarrow> int" where
  "sb_size sb = sb_writer sb - sb_reader sb"

definition sb_space :: "StreamBuffer \<Rightarrow> int" where
  "sb_space sb = int (length (sb_buffer sb)) - sb_writer sb"

definition sb_empty :: "StreamBuffer \<Rightarrow> bool" where
  "sb_empty sb \<longleftrightarrow> sb_reader sb = sb_writer sb"

definition sb_clear :: "StreamBuffer \<Rightarrow> StreamBuffer" where
  "sb_clear sb = sb\<lparr>sb_reader := 0, sb_writer := 0\<rparr>"

definition sb_push :: "int \<Rightarrow> StreamBuffer \<Rightarrow> StreamBuffer" where
  "sb_push len sb = sb\<lparr>sb_writer := sb_writer sb + len\<rparr>"

definition sb_insert :: "byte list \<Rightarrow> StreamBuffer \<Rightarrow> StreamBuffer" where
  "sb_insert bytes sb =
     (let data_len = int (length bytes);
          buf = (if data_len > int (length (sb_buffer sb)) - sb_writer sb
                 then vresize (nat (sb_writer sb + data_len)) 0 (sb_buffer sb)
                 else sb_buffer sb)
      in sb\<lparr>sb_buffer := overwrite buf (nat (sb_writer sb)) bytes,
            sb_writer := sb_writer sb + data_len\<rparr>)"

definition sb_compact :: "StreamBuffer \<Rightarrow> StreamBuffer" where
  "sb_compact sb =
     (let data_len = sb_writer sb - sb_reader sb
      in sb\<lparr>sb_buffer := std_copy (sb_buffer sb) (nat (sb_reader sb)) (nat data_len) 0,
            sb_reader := 0, sb_writer := data_len\<rparr>)"

definition sb_shrink :: "StreamBuffer \<Rightarrow> StreamBuffer" where
  "sb_shrink sb =
     (if length (sb_buffer sb) \<le> sb_initial_size sb then sb\<lparr>sb_shrink_count := 0\<rparr>
      else if sb_shrink_count sb < kShrinkThreshold
      then sb\<lparr>sb_shrink_count := sb_shrink_count sb + 1\<rparr>
      else let new_size = (if length (sb_buffer sb) div kShrinkDivisor < sb_initial_size sb
                           then sb_initial_size sb
                           else length (sb_buffer sb) div kShrinkDivisor)
           in sb\<lparr>sb_shrink_count := 0, sb_buffer := vresize new_size 0 (sb_buffer sb)\<rparr>)"

definition sb_pop :: "int \<Rightarrow> StreamBuffer \<Rightarrow> StreamBuffer" where
  "sb_pop len sb0 =
     (let sb = sb0\<lparr>sb_reader := sb_reader sb0 + len\<rparr>
      in if sb_reader sb \<ge> sb_writer sb
         then (sb_shrink sb)\<lparr>sb_reader := 0, sb_writer := 0\<rparr>
         else if sb_reader sb > int (length (sb_buffer sb)) div 2 then sb_compact sb
         else sb)"

section \<open>Invariant and abstraction\<close>

text \<open>
  The cursors stay ordered inside the vector, the vector never falls below its initial
  size, and the shrink counter never passes its threshold.
\<close>

definition sb_invar :: "StreamBuffer \<Rightarrow> bool" where
  "sb_invar sb \<longleftrightarrow> 0 \<le> sb_reader sb \<and> sb_reader sb \<le> sb_writer sb \<and>
     sb_writer sb \<le> int (length (sb_buffer sb)) \<and>
     sb_initial_size sb \<le> length (sb_buffer sb) \<and> sb_shrink_count sb \<le> kShrinkThreshold"

text \<open>The bytes between the cursors: the queue the buffer stands for.\<close>

definition sb_contents :: "StreamBuffer \<Rightarrow> byte list" where
  "sb_contents sb = range_of (nat (sb_reader sb)) (nat (sb_writer sb)) (sb_buffer sb)"

text \<open>What the kernel does when it fills the free tail of the buffer in place.\<close>

definition sb_fill :: "byte list \<Rightarrow> StreamBuffer \<Rightarrow> StreamBuffer" where
  "sb_fill bytes sb = sb\<lparr>sb_buffer := overwrite (sb_buffer sb) (nat (sb_writer sb)) bytes\<rparr>"

section \<open>Lemmas\<close>

named_theorems sb_defs \<open>definitions of the buffer operations\<close>

lemmas sb_unfold [sb_defs] =
  sb_begin_def sb_end_def sb_size_def sb_space_def sb_empty_def sb_clear_def sb_push_def

lemma sb_invar_make [simp]: "sb_invar (make_StreamBuffer n)"
  by (simp add: sb_invar_def make_StreamBuffer_def kShrinkThreshold_def)

lemma sb_contents_make [simp]: "sb_contents (make_StreamBuffer n) = []"
  by (simp add: sb_contents_def make_StreamBuffer_def)

lemma length_sb_contents: "sb_invar sb \<Longrightarrow> int (length (sb_contents sb)) = sb_size sb"
  by (auto simp: sb_invar_def sb_contents_def sb_size_def)

lemma sb_empty_iff: "sb_invar sb \<Longrightarrow> sb_empty sb \<longleftrightarrow> sb_contents sb = []"
  using length_sb_contents [of sb] by (auto simp: sb_empty_def sb_size_def)

lemma sb_clear_correct:
  "sb_invar sb \<Longrightarrow> sb_invar (sb_clear sb) \<and> sb_contents (sb_clear sb) = []"
  by (simp add: sb_invar_def sb_clear_def sb_contents_def)

text \<open>The vector after the capacity check of \<open>insert\<close>.\<close>

definition sb_grown :: "nat \<Rightarrow> StreamBuffer \<Rightarrow> byte list" where
  "sb_grown n sb = (if int n > sb_space sb
     then vresize (nat (sb_writer sb + int n)) 0 (sb_buffer sb) else sb_buffer sb)"

lemma sb_insert_alt:
  "sb_insert bytes sb = sb\<lparr>sb_buffer := overwrite (sb_grown (length bytes) sb) (nat (sb_writer sb)) bytes,
     sb_writer := sb_writer sb + int (length bytes)\<rparr>"
  by (simp add: sb_insert_def sb_grown_def sb_space_def Let_def)

lemma sb_grown_length:
  "sb_invar sb \<Longrightarrow> nat (sb_writer sb) + n \<le> length (sb_grown n sb) \<and>
     length (sb_buffer sb) \<le> length (sb_grown n sb)"
  by (auto simp: sb_grown_def sb_space_def sb_invar_def)

lemma sb_grown_range:
  "sb_invar sb \<Longrightarrow> range_of i (nat (sb_writer sb)) (sb_grown n sb) = range_of i (nat (sb_writer sb)) (sb_buffer sb)"
  by (auto simp: sb_grown_def sb_invar_def intro!: range_of_vresize)

lemma sb_insert_invar: "sb_invar sb \<Longrightarrow> sb_invar (sb_insert bytes sb)"
  using sb_grown_length [of sb "length bytes"]
  by (auto simp: sb_insert_alt sb_invar_def)

lemma sb_insert_contents:
  assumes inv: "sb_invar sb"
  shows "sb_contents (sb_insert bytes sb) = sb_contents sb @ bytes"
proof -
  let ?r = "nat (sb_reader sb)" and ?w = "nat (sb_writer sb)" and ?n = "length bytes"
  let ?g = "sb_grown ?n sb" and ?b = "overwrite (sb_grown ?n sb) ?w bytes"
  have fits: "?w + ?n \<le> length ?g" using sb_grown_length [OF inv] by blast
  have rw: "?r \<le> ?w" using inv by (auto simp: sb_invar_def)
  have "nat (sb_writer sb + int ?n) = ?w + ?n"
    using inv by (simp add: sb_invar_def nat_add_distrib)
  then have "sb_contents (sb_insert bytes sb) = range_of ?r (?w + ?n) ?b"
    by (simp add: sb_insert_alt sb_contents_def)
  also have "\<dots> = range_of ?r ?w ?b @ range_of ?w (?w + ?n) ?b"
    using rw by (simp add: range_of_append)
  also have "range_of ?w (?w + ?n) ?b = bytes"
    using fits by (rule range_of_overwrite_same)
  also have "range_of ?r ?w ?b = sb_contents sb"
    using fits inv by (simp add: range_of_overwrite_before sb_grown_range sb_contents_def)
  finally show ?thesis .
qed

lemma sb_compact_invar:
  assumes "sb_invar sb" shows "sb_invar (sb_compact sb)"
  using assms by (auto simp: sb_invar_def sb_compact_def Let_def)

lemma sb_compact_contents:
  assumes "sb_invar sb" shows "sb_contents (sb_compact sb) = sb_contents sb"
proof -
  let ?r = "nat (sb_reader sb)" and ?w = "nat (sb_writer sb)" and ?v = "sb_buffer sb"
  have le: "?r \<le> ?w" "?w \<le> length ?v" and n: "nat (sb_writer sb - sb_reader sb) = ?w - ?r"
    using assms by (auto simp: sb_invar_def)
  have "sb_buffer (sb_compact sb) = overwrite ?v 0 (range_of ?r ?w ?v)"
    using le by (simp add: sb_compact_def Let_def n std_copy_down)
  moreover have "range_of 0 (?w - ?r) (overwrite ?v 0 (range_of ?r ?w ?v)) = range_of ?r ?w ?v"
    using range_of_overwrite_same [of 0 "range_of ?r ?w ?v" ?v] le
    by (simp add: min_absorb1 diff_le_mono)
  ultimately show ?thesis
    by (simp add: sb_contents_def n) (simp add: sb_compact_def Let_def n)
qed

lemma sb_shrink_fields:
  "sb_reader (sb_shrink sb) = sb_reader sb \<and> sb_writer (sb_shrink sb) = sb_writer sb \<and>
   sb_initial_size (sb_shrink sb) = sb_initial_size sb"
  by (simp add: sb_shrink_def Let_def)

lemma sb_shrink_bounds:
  assumes "sb_initial_size sb \<le> length (sb_buffer sb)" and "sb_shrink_count sb \<le> kShrinkThreshold"
  shows "sb_initial_size sb \<le> length (sb_buffer (sb_shrink sb))"
    and "length (sb_buffer (sb_shrink sb)) \<le> length (sb_buffer sb)"
    and "sb_shrink_count (sb_shrink sb) \<le> kShrinkThreshold"
proof -
  have inc: "c < 10 \<Longrightarrow> c + 1 \<le> (10 :: 8 word)" for c
    by (rule inc_le)
  show "sb_initial_size sb \<le> length (sb_buffer (sb_shrink sb))"
    and "length (sb_buffer (sb_shrink sb)) \<le> length (sb_buffer sb)"
    and "sb_shrink_count (sb_shrink sb) \<le> kShrinkThreshold"
    using assms inc by (auto simp: sb_shrink_def Let_def kShrinkThreshold_def kShrinkDivisor_def)
qed

lemma sb_pop_cases:
  obtains (all) "sb_reader sb + len \<ge> sb_writer sb"
      "sb_pop len sb = (sb_shrink (sb\<lparr>sb_reader := sb_reader sb + len\<rparr>))\<lparr>sb_reader := 0, sb_writer := 0\<rparr>"
  | (compact) "sb_reader sb + len < sb_writer sb"
      "sb_reader sb + len > int (length (sb_buffer sb)) div 2"
      "sb_pop len sb = sb_compact (sb\<lparr>sb_reader := sb_reader sb + len\<rparr>)"
  | (keep) "sb_reader sb + len < sb_writer sb"
      "sb_reader sb + len \<le> int (length (sb_buffer sb)) div 2"
      "sb_pop len sb = sb\<lparr>sb_reader := sb_reader sb + len\<rparr>"
  by (simp add: sb_pop_def Let_def) (meson not_le)

lemma sb_pop_invar:
  assumes inv: "sb_invar sb" and len: "0 \<le> len"
  shows "sb_invar (sb_pop len sb)"
proof (cases rule: sb_pop_cases [where sb = sb and len = len])
  case all
  then show ?thesis
    using inv sb_shrink_bounds [of "sb\<lparr>sb_reader := sb_reader sb + len\<rparr>"]
    by (simp add: sb_invar_def sb_shrink_fields)
next
  case compact
  moreover have "sb_invar (sb\<lparr>sb_reader := sb_reader sb + len\<rparr>)"
    using inv len compact by (simp add: sb_invar_def)
  ultimately show ?thesis by (simp add: sb_compact_invar)
next
  case keep
  then show ?thesis using inv len by (simp add: sb_invar_def)
qed

lemma sb_pop_contents:
  assumes inv: "sb_invar sb" and len: "0 \<le> len"
  shows "sb_contents (sb_pop len sb) = drop (nat len) (sb_contents sb)"
proof -
  have moved: "sb_contents (sb\<lparr>sb_reader := sb_reader sb + len\<rparr>) = drop (nat len) (sb_contents sb)"
    using inv len by (simp add: sb_contents_def sb_invar_def nat_add_distrib drop_range_of)
  show ?thesis
  proof (cases rule: sb_pop_cases [where sb = sb and len = len])
    case all
    then have "drop (nat len) (sb_contents sb) = []"
      using inv len by (simp add: sb_contents_def sb_invar_def)
    with all show ?thesis by (simp add: sb_contents_def)
  next
    case compact
    moreover have "sb_invar (sb\<lparr>sb_reader := sb_reader sb + len\<rparr>)"
      using inv len compact by (simp add: sb_invar_def)
    ultimately show ?thesis by (simp add: sb_compact_contents moved)
  next
    case keep
    then show ?thesis by (simp add: moved)
  qed
qed

lemma sb_initial_size_pop [simp]: "sb_initial_size (sb_pop len sb) = sb_initial_size sb"
  by (simp add: sb_pop_def Let_def sb_shrink_fields sb_compact_def)

text \<open>Filling the free tail in place and then pushing the count appends the bytes.\<close>

lemma sb_fill_push:
  assumes inv: "sb_invar sb" and fits: "int (length bytes) \<le> sb_space sb"
  shows "sb_invar (sb_push (int (length bytes)) (sb_fill bytes sb))"
    and "sb_contents (sb_push (int (length bytes)) (sb_fill bytes sb)) = sb_contents sb @ bytes"
proof -
  have "sb_push (int (length bytes)) (sb_fill bytes sb) = sb_insert bytes sb"
    using fits by (simp add: sb_push_def sb_fill_def sb_insert_alt sb_grown_def)
  then show "sb_invar (sb_push (int (length bytes)) (sb_fill bytes sb))"
    and "sb_contents (sb_push (int (length bytes)) (sb_fill bytes sb)) = sb_contents sb @ bytes"
    using inv by (simp_all add: sb_insert_invar sb_insert_contents)
qed

interpretation sbq: byte_fifo sb_invar sb_contents sb_insert "\<lambda>n. sb_pop (int n)" sb_clear
  by unfold_locales
    (simp_all add: sb_insert_invar sb_insert_contents sb_pop_invar sb_pop_contents sb_clear_correct)

section \<open>Memory use\<close>

text \<open>
  The steady state of a socket: messages pass through the empty buffer one at a time, each
  inserted and then taken out whole.
\<close>

fun sb_cycles :: "byte list list \<Rightarrow> StreamBuffer \<Rightarrow> StreamBuffer" where
  "sb_cycles [] sb = sb"
| "sb_cycles (d # ds) sb = sb_cycles ds (sb_pop (sb_size (sb_insert d sb)) (sb_insert d sb))"

lemma sb_insert_fits:
  assumes "sb_invar sb" and "sb_empty sb" and "sb_reader sb = 0" and "length d \<le> sb_initial_size sb"
  shows "length (sb_buffer (sb_insert d sb)) = length (sb_buffer sb)"
    and "sb_shrink_count (sb_insert d sb) = sb_shrink_count sb"
    and "sb_initial_size (sb_insert d sb) = sb_initial_size sb"
  using assms by (auto simp: sb_insert_alt sb_grown_def sb_space_def sb_invar_def sb_empty_def)

lemma sb_pop_all:
  "sb_pop (sb_size sb) sb = (sb_shrink (sb\<lparr>sb_reader := sb_writer sb\<rparr>))\<lparr>sb_reader := 0, sb_writer := 0\<rparr>"
  by (simp add: sb_pop_def Let_def sb_size_def)

lemma sb_cycle_step:
  assumes "sb_invar sb" and "sb_empty sb" and "sb_reader sb = 0" and "length d \<le> sb_initial_size sb"
  defines "t \<equiv> sb_pop (sb_size (sb_insert d sb)) (sb_insert d sb)"
  shows "sb_invar t" and "sb_empty t" and "sb_reader t = 0"
    and "sb_initial_size t = sb_initial_size sb"
    and "length (sb_buffer sb) \<le> sb_initial_size sb \<Longrightarrow>
         length (sb_buffer t) = length (sb_buffer sb) \<and> sb_shrink_count t = 0"
    and "length (sb_buffer sb) > sb_initial_size sb \<Longrightarrow> sb_shrink_count sb < 10 \<Longrightarrow>
         length (sb_buffer t) = length (sb_buffer sb) \<and> sb_shrink_count t = sb_shrink_count sb + 1"
    and "length (sb_buffer sb) > sb_initial_size sb \<Longrightarrow> \<not> sb_shrink_count sb < 10 \<Longrightarrow>
         length (sb_buffer t) = max (sb_initial_size sb) (length (sb_buffer sb) div 2) \<and>
         sb_shrink_count t = 0"
proof -
  note fits = sb_insert_fits [OF assms(1-4)]
  have "0 \<le> sb_size (sb_insert d sb)"
    using sb_insert_invar [OF assms(1)] by (simp add: sb_invar_def sb_size_def)
  then show "sb_invar t"
    unfolding t_def by (intro sb_pop_invar sb_insert_invar assms(1))
qed (use sb_insert_fits [OF assms(1-4)] in
      \<open>simp_all add: t_def sb_pop_all sb_empty_def sb_shrink_def Let_def kShrinkThreshold_def kShrinkDivisor_def max_def\<close>)

lemma half_bound: "(l::nat) \<le> max a (m div 2 ^ k) \<Longrightarrow> m \<le> max a (n div 2) \<Longrightarrow> l \<le> max a (n div 2 ^ Suc k)"
proof -
  assume l: "l \<le> max a (m div 2 ^ k)" and m: "m \<le> max a (n div 2)"
  have "m div 2 ^ k \<le> max a (n div 2) div 2 ^ k" using m by (rule div_le_mono)
  also have "\<dots> \<le> max a (n div 2 div 2 ^ k)"
    by (cases "a \<le> n div 2") (auto simp: max_def intro: le_trans [OF div_le_dividend])
  finally show ?thesis using l by (simp add: div_mult2_eq)
qed

lemma sb_cycles_capacity_aux:
  "\<lbrakk>sb_invar sb; sb_empty sb; sb_reader sb = 0; list_all (\<lambda>d. length d \<le> sb_initial_size sb) ds\<rbrakk> \<Longrightarrow>
   length (sb_buffer (sb_cycles ds sb)) \<le>
     max (sb_initial_size sb)
       (length (sb_buffer sb) div 2 ^ ((length ds + unat (sb_shrink_count sb)) div 11))"
proof (induction ds arbitrary: sb)
  case Nil
  have "unat (sb_shrink_count sb) \<le> 10"
    using Nil(1) by (simp add: sb_invar_def kShrinkThreshold_def word_le_nat_alt)
  then show ?case by simp
next
  case (Cons d ds)
  define t where "t = sb_pop (sb_size (sb_insert d sb)) (sb_insert d sb)"
  have d: "length d \<le> sb_initial_size sb" using Cons.prems by simp
  note step = sb_cycle_step [OF Cons.prems(1-3) d, folded t_def]
  have IH: "length (sb_buffer (sb_cycles ds t)) \<le> max (sb_initial_size sb)
      (length (sb_buffer t) div 2 ^ ((length ds + unat (sb_shrink_count t)) div 11))"
    using Cons.IH [OF step(1-3)] Cons.prems(4) by (simp add: step(4) list_all_iff)
  have c10: "unat (sb_shrink_count sb) \<le> 10"
    using Cons.prems(1) by (simp add: sb_invar_def kShrinkThreshold_def word_le_nat_alt)
  consider "length (sb_buffer sb) \<le> sb_initial_size sb"
    | "length (sb_buffer sb) > sb_initial_size sb" "sb_shrink_count sb < 10"
    | "length (sb_buffer sb) > sb_initial_size sb" "\<not> sb_shrink_count sb < 10"
    by linarith
  then have "length (sb_buffer (sb_cycles ds t)) \<le> max (sb_initial_size sb)
      (length (sb_buffer sb) div 2 ^ ((Suc (length ds) + unat (sb_shrink_count sb)) div 11))"
  proof cases
    case 1
    have "length (sb_buffer t) div 2 ^ k \<le> sb_initial_size sb" for k
      using 1 step(5) [OF 1] by (simp add: le_trans [OF div_le_dividend])
    with IH show ?thesis by (simp add: le_max_iff_disj)
  next
    case 2
    have "unat (sb_shrink_count sb + 1) = Suc (unat (sb_shrink_count sb))"
      using 2(2) by (auto simp: unat_word_ariths word_less_nat_alt)
    with IH step(6) [OF 2] show ?thesis by simp
  next
    case 3
    then have "unat (sb_shrink_count sb) = 10"
      using c10 by (simp add: word_less_nat_alt)
    moreover have "(Suc (length ds) + 10) div 11 = Suc (length ds div 11)" by simp
    moreover have "length (sb_buffer (sb_cycles ds t)) \<le>
        max (sb_initial_size sb) (length (sb_buffer t) div 2 ^ (length ds div 11))"
      using IH step(7) [OF 3] by simp
    ultimately show ?thesis
      using half_bound step(7) [OF 3] by (metis order_refl)
  qed
  then show ?case by (simp add: t_def)
qed

section \<open>Properties\<close>

text \<open>
  The buffer is a byte queue: whatever sequence of inserts and pops a fresh buffer goes
  through, growing, compacting and shrinking on the way, the bytes inserted are exactly the
  bytes popped followed by the bytes still stored, in order, and the cursors stay well formed.
\<close>

theorem sb_fifo_history:
  "fifo_in ops = fifo_out sb_contents sb_insert (\<lambda>n. sb_pop (int n)) ops (make_StreamBuffer size0)
     @ sb_contents (fifo_run sb_insert (\<lambda>n. sb_pop (int n)) ops (make_StreamBuffer size0)) \<and>
   sb_invar (fifo_run sb_insert (\<lambda>n. sb_pop (int n)) ops (make_StreamBuffer size0))"
  using sbq.history [OF sb_invar_make, of size0 ops] sbq.inv_run [OF sb_invar_make] by simp

text \<open>
  C5. Functional refinement of every operation. A new buffer is empty and well formed. Under the invariant
  \<open>begin\<close> and \<open>end\<close> delimit the queue inside the vector and \<open>space\<close> is the free tail behind it;
  \<open>insert\<close> appends, as does \<open>push\<close> after the tail was written in place; \<open>pop\<close> drops from the
  front (a \<open>pop\<close> of more than is stored empties the buffer), \<open>clear\<close> empties, and \<open>size\<close> and \<open>empty\<close>
  report the queue; each keeps the invariant.
\<close>

theorem sb_refines_byte_queue:
  assumes "sb_invar sb" and "int (length ys) \<le> sb_space sb"
  shows "sb_contents (make_StreamBuffer size0) = [] \<and> sb_invar (make_StreamBuffer size0) \<and>
    sb_space (make_StreamBuffer size0) = int size0 \<and>
    0 \<le> sb_begin sb \<and> sb_begin sb \<le> sb_end sb \<and> 0 \<le> sb_space sb \<and>
    sb_end sb + sb_space sb = int (length (sb_buffer sb)) \<and>
    sb_contents sb = take (nat (sb_end sb - sb_begin sb)) (drop (nat (sb_begin sb)) (sb_buffer sb)) \<and>
    sb_contents (sb_insert xs sb) = sb_contents sb @ xs \<and> sb_invar (sb_insert xs sb) \<and>
    sb_contents (sb_push (int (length ys)) (sb_fill ys sb)) = sb_contents sb @ ys \<and>
    sb_invar (sb_push (int (length ys)) (sb_fill ys sb)) \<and>
    sb_contents (sb_pop (int n) sb) = drop n (sb_contents sb) \<and> sb_invar (sb_pop (int n) sb) \<and>
    sb_contents (sb_clear sb) = [] \<and> sb_invar (sb_clear sb) \<and>
    sb_size sb = int (length (sb_contents sb)) \<and> (sb_empty sb \<longleftrightarrow> sb_contents sb = [])"
proof -
  have "nat (sb_end sb - sb_begin sb) = nat (sb_end sb) - nat (sb_begin sb)"
    using assms(1) by (simp add: sb_invar_def sb_begin_def sb_end_def nat_diff_distrib)
  then have view: "sb_contents sb = take (nat (sb_end sb - sb_begin sb)) (drop (nat (sb_begin sb)) (sb_buffer sb))"
    by (simp add: sb_contents_def range_of_def sb_begin_def sb_end_def)
  have tail: "0 \<le> sb_begin sb" "sb_begin sb \<le> sb_end sb" "0 \<le> sb_space sb" "sb_end sb + sb_space sb = int (length (sb_buffer sb))"
    using assms(1) by (simp_all add: sb_invar_def sb_begin_def sb_end_def sb_space_def)
  have "sb_space (make_StreamBuffer size0) = int size0" by (simp add: sb_space_def make_StreamBuffer_def)
  moreover have "sb_size sb = int (length (sb_contents sb))" "sb_empty sb \<longleftrightarrow> sb_contents sb = []"
    using assms(1) by (simp_all add: sb_empty_iff length_sb_contents)
  ultimately show ?thesis
    by (intro conjI sb_contents_make sb_invar_make sb_fill_push [OF assms] view tail assms(1)
        sbq.cont_ins sbq.cont_del sbq.cont_clr sbq.inv_ins sbq.inv_del sbq.inv_clr)
qed

theorem sb_refines_byte_queue_witness:
  "sb_invar (sb_insert [1, 2, 3] (make_StreamBuffer 2)) \<and>
   sb_contents (sb_pop (int 2) (sb_insert [1, 2, 3] (make_StreamBuffer 2))) = [3] \<and>
   sb_contents (sb_push (int (length [7])) (sb_fill [7] (make_StreamBuffer 2))) = [7]"
proof -
  have inv: "sb_invar (sb_insert [1, 2, 3] (make_StreamBuffer 2))" and none: "sb_invar (make_StreamBuffer 2)"
    by (simp_all add: sb_insert_invar)
  have "sb_contents (sb_insert [1, 2, 3] (make_StreamBuffer 2)) = [1, 2, 3]"
    by (simp add: sb_insert_contents)
  moreover have "int (length []) \<le> sb_space (sb_insert [1, 2, 3] (make_StreamBuffer 2))"
    using inv by (simp add: sb_invar_def sb_space_def)
  moreover have "int (length [7 :: byte]) \<le> sb_space (make_StreamBuffer 2)" by (simp add: sb_space_def make_StreamBuffer_def)
  ultimately show ?thesis
    using sb_refines_byte_queue [OF inv, of "[]" 2 "[]" 2] sb_refines_byte_queue [OF none, of "[7]" 2 "[]" 2] inv
    by (simp add: sb_contents_make)
qed

text \<open>
  C25. A buffer that a burst has made grow gives the memory back: when messages of at most the
  initial size pass through it one at a time, every eleven of them halve the capacity, down to
  the initial size and never below it.
\<close>

theorem sb_capacity_converges:
  assumes "sb_invar sb" and "sb_empty sb" and "sb_reader sb = 0"
    and "list_all (\<lambda>d. length d \<le> sb_initial_size sb) ds"
  shows "length (sb_buffer (sb_cycles ds sb)) \<le>
     max (sb_initial_size sb) (length (sb_buffer sb) div 2 ^ (length ds div 11))"
proof -
  have "length (sb_buffer sb) div 2 ^ ((length ds + unat (sb_shrink_count sb)) div 11)
      \<le> length (sb_buffer sb) div 2 ^ (length ds div 11)"
    by (intro div_le_mono2 power_increasing div_le_mono) simp_all
  with sb_cycles_capacity_aux [OF assms] show ?thesis by linarith
qed

theorem sb_capacity_converges_witness:
  "length (sb_buffer (sb_pop 8 (sb_insert [1, 2, 3, 4, 5, 6, 7, 8] (make_StreamBuffer 1)))) = 8 \<and>
   length (sb_buffer (sb_cycles (replicate 33 [7])
     (sb_pop 8 (sb_insert [1, 2, 3, 4, 5, 6, 7, 8] (make_StreamBuffer 1))))) \<le> 1"
proof -
  define sb where "sb = sb_pop 8 (sb_insert [1, 2, 3, 4, 5, 6, 7, 8] (make_StreamBuffer 1))"
  have fields: "sb_empty sb" "sb_reader sb = 0" "length (sb_buffer sb) = 8" "sb_initial_size sb = 1"
    by (simp_all add: sb_def sb_insert_def make_StreamBuffer_def sb_pop_def sb_shrink_def sb_empty_def
        vresize_def overwrite_def kShrinkThreshold_def)
  have inv: "sb_invar sb"
    by (simp add: sb_def sb_pop_invar sb_insert_invar)
  have "length (sb_buffer (sb_cycles (replicate 33 [7]) sb)) \<le> max 1 (8 div 2 ^ (33 div 11))"
    using sb_capacity_converges [OF inv fields(1,2), of "replicate 33 [7]"] fields
    by (simp add: list_all_iff)
  with fields show ?thesis by (simp add: sb_def)
qed

end
