(* ===== verification/Event_Types.thy ===== *)
theory Event_Types
  imports Interfaces
begin

text \<open>
  Event masks (\<open>include/kzevent/core.hpp\<close>) and their translation to and from the bits of
  \<open>epoll\<close> (\<open>src/core.cpp\<close>). \<open>EventType\<close> and \<open>EventMode\<close> are \<open>enum class : uint32_t\<close> used as bit
  sets, so a value is any 32-bit word. The \<open>assert\<close> of a translation is the result \<open>None\<close>.
\<close>

section \<open>Masks\<close>

type_synonym EventType = u32
type_synonym EventMode = u32

definition kDefault :: u32 where "kDefault = 0"
definition kRead :: EventType where "kRead = push_bit 0 1"
definition kWrite :: EventType where "kWrite = push_bit 1 1"
definition kError :: EventType where "kError = push_bit 2 1"
definition kShutdown :: EventType where "kShutdown = push_bit 3 1"
definition kOneShot :: EventMode where "kOneShot = push_bit 0 1"

definition event_or :: "u32 \<Rightarrow> u32 \<Rightarrow> u32" where
  "event_or a b = a OR b"

definition event_and :: "u32 \<Rightarrow> u32 \<Rightarrow> u32" where
  "event_and a b = a AND b"

definition event_not :: "u32 \<Rightarrow> u32" where
  "event_not a = NOT a"

text \<open>The test the sources use for one kind of event: \<open>(event_types & k) == k\<close>.\<close>

definition has_event :: "EventType \<Rightarrow> EventType \<Rightarrow> bool" where
  "has_event types k \<longleftrightarrow> event_and types k = k"

section \<open>Translation\<close>

text \<open>The bits of \<open>epoll\<close>, as the Linux headers fix them.\<close>

definition EPOLLIN :: u32 where "EPOLLIN = 0x001"
definition EPOLLOUT :: u32 where "EPOLLOUT = 0x004"
definition EPOLLERR :: u32 where "EPOLLERR = 0x008"
definition EPOLLRDHUP :: u32 where "EPOLLRDHUP = 0x2000"
definition EPOLLONESHOT :: u32 where "EPOLLONESHOT = 0x40000000"
definition EPOLLET :: u32 where "EPOLLET = 0x80000000"

definition kEventTypeToEpoll :: "(EventType \<times> u32) list" where
  "kEventTypeToEpoll =
     [(kRead, EPOLLIN), (kWrite, EPOLLOUT), (kError, EPOLLERR), (kShutdown, EPOLLRDHUP)]"

definition kEventModeToEpoll :: "(EventMode \<times> u32) list" where
  "kEventModeToEpoll = [(kOneShot, EPOLLONESHOT)]"

text \<open>One pass over a table: \<open>sel\<close> is tested against \<open>x\<close>, \<open>add\<close> is joined to the result.\<close>

fun translate :: "(u32 \<times> u32) list \<Rightarrow> u32 \<Rightarrow> u32 \<Rightarrow> u32" where
  "translate [] x acc = acc"
| "translate ((sel, add) # tab) x acc =
     translate tab x (if event_and x sel \<noteq> 0 then event_or acc add else acc)"

definition kz_to_local :: "EventType \<Rightarrow> u32 option" where
  "kz_to_local events =
     (let local_events = translate kEventTypeToEpoll events 0
      in if local_events \<noteq> 0 then Some local_events else None)"

definition kz_to_local_mode :: "EventMode \<Rightarrow> u32 option" where
  "kz_to_local_mode modes =
     (let local_modes = translate kEventModeToEpoll modes EPOLLET
      in if event_and local_modes EPOLLET = EPOLLET then Some local_modes else None)"

definition local_to_kz :: "u32 \<Rightarrow> EventType" where
  "local_to_kz local_events =
     translate (map (\<lambda>(type, local_type). (local_type, type)) kEventTypeToEpoll) local_events kDefault"

section \<open>Lemmas\<close>

lemmas event_consts = kDefault_def kRead_def kWrite_def kError_def kShutdown_def kOneShot_def
  EPOLLIN_def EPOLLOUT_def EPOLLERR_def EPOLLRDHUP_def EPOLLONESHOT_def EPOLLET_def

lemmas event_tables = kEventTypeToEpoll_def kEventModeToEpoll_def event_and_def event_or_def event_not_def

lemma word_nonzero_iff: "(x :: 'a::len word) \<noteq> 0 \<longleftrightarrow> (\<exists>n. bit x n)"
  by (metis bit_0_eq bot_fun_def bot_bool_def bit_word_eqI)

lemma bit_single: "bit (push_bit n 1 :: 'a::len word) m \<longleftrightarrow> m = n \<and> n < LENGTH('a)"
  by (auto simp: bit_exp_iff)

text \<open>Joining a single bit under a condition.\<close>

lemma bit_join: "bit (if c then a OR push_bit n 1 else a :: u32) m \<longleftrightarrow> bit a m \<or> (c \<and> m = n \<and> n < 32)"
proof (cases c)
  case True
  then show ?thesis by (simp only: if_True bit_or_iff bit_single) simp
qed simp

text \<open>A word and-ed with a single bit is zero exactly when the bit is clear.\<close>

lemma and_push_bit_eq_0: "(x :: 'a::len word) AND push_bit n 1 = 0 \<longleftrightarrow> \<not> bit x n"
proof -
  have "bit (x AND push_bit n 1) m \<longleftrightarrow> bit x n \<and> m = n" for m
    unfolding bit_and_iff bit_single by (auto dest: bit_imp_le_length)
  then have "(\<exists>m. bit (x AND push_bit n 1) m) \<longleftrightarrow> bit x n" by simp
  then show ?thesis using word_nonzero_iff [of "x AND push_bit n 1"] by blast
qed

lemma and_push_bit_eq: "n < LENGTH('a) \<Longrightarrow> (x :: 'a::len word) AND push_bit n 1 = push_bit n 1 \<longleftrightarrow> bit x n"
proof
  assume n: "n < LENGTH('a)" and eq: "x AND push_bit n 1 = push_bit n 1"
  have "bit (push_bit n 1 :: 'a word) n" unfolding bit_single using n by simp
  then have "bit (x AND push_bit n 1) n" by (simp only: eq)
  then show "bit x n" by (simp add: bit_and_iff)
next
  assume "n < LENGTH('a)" and "bit x n"
  then show "x AND push_bit n 1 = push_bit n 1"
    by (intro bit_word_eqI) (simp only: bit_and_iff bit_single, blast)
qed

lemma epoll_bits:
  "EPOLLIN = push_bit 0 1" "EPOLLOUT = push_bit 2 1" "EPOLLERR = push_bit 3 1"
  "EPOLLRDHUP = push_bit 13 1" "EPOLLONESHOT = push_bit 30 1" "EPOLLET = push_bit 31 1"
  by (simp_all add: event_consts push_bit_eq_mult)

lemmas kz_bits = kRead_def kWrite_def kError_def kShutdown_def kOneShot_def kDefault_def

lemma has_event_bit:
  "has_event t kRead \<longleftrightarrow> bit t 0" "has_event t kWrite \<longleftrightarrow> bit t 1"
  "has_event t kError \<longleftrightarrow> bit t 2" "has_event t kShutdown \<longleftrightarrow> bit t 3"
  unfolding has_event_def event_and_def kz_bits by (rule and_push_bit_eq; simp)+

text \<open>Every translated bit, one by one.\<close>

lemma bit_translate_types:
  "bit (translate kEventTypeToEpoll t 0) n \<longleftrightarrow>
     (n = 0 \<and> bit t 0) \<or> (n = 2 \<and> bit t 1) \<or> (n = 3 \<and> bit t 2) \<or> (n = 13 \<and> bit t 3)"
  unfolding event_tables translate.simps epoll_bits kz_bits bit_join and_push_bit_eq_0
  by auto

lemma bit_local_to_kz:
  "bit (local_to_kz w) n \<longleftrightarrow>
     (n = 0 \<and> bit w 0) \<or> (n = 1 \<and> bit w 2) \<or> (n = 2 \<and> bit w 3) \<or> (n = 3 \<and> bit w 13)"
  unfolding local_to_kz_def event_tables list.map prod.case translate.simps epoll_bits kz_bits bit_join and_push_bit_eq_0
  by auto

lemma mask4_bits: "t AND mask 4 \<noteq> 0 \<longleftrightarrow> bit t 0 \<or> bit t 1 \<or> bit t 2 \<or> bit (t :: u32) 3"
proof -
  have less4: "n < 4 \<longleftrightarrow> n = 0 \<or> n = 1 \<or> n = 2 \<or> n = 3" for n :: nat by auto
  have "bit (t AND mask 4) n \<longleftrightarrow> n < 4 \<and> bit t n" for n
    by (auto simp: bit_and_iff bit_mask_iff dest: bit_imp_le_length)
  then have "t AND mask 4 \<noteq> 0 \<longleftrightarrow> (\<exists>n. n < 4 \<and> bit t n)" by (simp only: word_nonzero_iff)
  also have "\<dots> \<longleftrightarrow> bit t 0 \<or> bit t 1 \<or> bit t 2 \<or> bit t 3" unfolding less4 by blast
  finally show ?thesis .
qed

lemma kz_to_local_Some_iff: "kz_to_local t \<noteq> None \<longleftrightarrow> t AND mask 4 \<noteq> 0"
proof -
  have "(\<exists>n. bit (translate kEventTypeToEpoll t 0) n) \<longleftrightarrow> bit t 0 \<or> bit t 1 \<or> bit t 2 \<or> bit t 3"
    by (simp only: bit_translate_types) blast
  then show ?thesis
    using word_nonzero_iff [of "translate kEventTypeToEpoll t 0"] mask4_bits [of t]
    by (auto simp: kz_to_local_def Let_def)
qed

lemma kz_to_local_mode_eq:
  "kz_to_local_mode m = Some (if bit m 0 then EPOLLET OR EPOLLONESHOT else EPOLLET)"
  unfolding kz_to_local_mode_def event_tables translate.simps kz_bits and_push_bit_eq_0
  by (simp add: event_consts)

section \<open>Properties\<close>

text \<open>
  C26. The two tables agree: a mask that names at least one supported event translates to
  epoll bits without failing the assertion, and translating these back gives the mask again,
  whatever mode bits (edge-triggered, one-shot) epoll carries beside them.
\<close>

theorem event_mask_roundtrip:
  assumes "t AND mask 4 \<noteq> 0"
  shows "\<exists>l m. kz_to_local t = Some l \<and> kz_to_local_mode modes = Some m \<and>
    local_to_kz (l OR m) = t AND mask 4"
proof -
  obtain l where l: "kz_to_local t = Some l"
    using assms kz_to_local_Some_iff [of t] by blast
  then have bits: "bit l n \<longleftrightarrow> (n = 0 \<and> bit t 0) \<or> (n = 2 \<and> bit t 1) \<or> (n = 3 \<and> bit t 2) \<or> (n = 13 \<and> bit t 3)" for n
    by (auto simp: kz_to_local_def Let_def bit_translate_types split: if_splits)
  define m where "m = (if bit modes 0 then EPOLLET OR EPOLLONESHOT else EPOLLET)"
  have high: "bit m n \<longrightarrow> n = 30 \<or> n = 31" for n
    unfolding m_def epoll_bits by (simp only: bit_or_iff bit_single split: if_splits) blast
  have "local_to_kz (l OR m) = t AND mask 4"
  proof (rule bit_word_eqI)
    fix n :: nat
    have less4: "n < 4 \<longleftrightarrow> n = 0 \<or> n = 1 \<or> n = 2 \<or> n = 3" by auto
    have low: "\<not> bit m 0" "\<not> bit m 2" "\<not> bit m 3" "\<not> bit m 13"
      using high by fastforce+
    assume "n < LENGTH(32)"
    then show "bit (local_to_kz (l OR m)) n \<longleftrightarrow> bit (t AND mask 4) n"
      unfolding bit_local_to_kz bit_or_iff bits bit_and_iff bit_mask_iff less4 using low by auto
  qed
  with l show ?thesis by (auto simp: kz_to_local_mode_eq m_def)
qed

theorem event_mask_roundtrip_witness:
  "(kRead OR kError) AND mask 4 \<noteq> 0 \<and>
   (\<exists>l m. kz_to_local (kRead OR kError) = Some l \<and> kz_to_local_mode kOneShot = Some m \<and>
      local_to_kz (l OR m) = (kRead OR kError) AND mask 4)"
proof -
  have h: "(kRead OR kError) AND mask 4 \<noteq> 0"
    by (simp add: event_consts mask_eq_exp_minus_1)
  show ?thesis using h event_mask_roundtrip [OF h] by blast
qed

end
