(* ===== verification/Kernel.thy ===== *)
theory Kernel
  imports Prelude
begin

text \<open>
  The system calls. The kernel is not part of the sources: its state is a type variable
  \<open>'k\<close> and each call is a function the model is given, collected in the record \<open>os\<close>. What
  the code relies on is stated as predicates on that record, from the manual pages, and is a
  hypothesis of the theorems that need it. \<open>fault\<close> collects the ways a piece of code does not
  return: an index outside a vector, a failed \<open>assert\<close>, the exception of
  \<open>sys_error::fatal\<close>, a loop that does not end, a signed overflow, an exception, and the use of an object that was destroyed.
\<close>

section \<open>Faults\<close>

datatype fault = OutOfRange int | AssertFailed | SysFatal errno | Diverged | SignedOverflow | Thrown string | Dangling nat

fun and_then :: "'e + 'a \<Rightarrow> ('a \<Rightarrow> 'e + 'b) \<Rightarrow> 'e + 'b" where
  "and_then (Inl e) f = Inl e"
| "and_then (Inr x) f = f x"

lemma and_then_eq_Inr [simp]: "and_then r f = Inr y \<longleftrightarrow> (\<exists>x. r = Inr x \<and> f x = Inr y)"
  by (cases r) auto

lemma and_then_assoc: "and_then (and_then r f) g = and_then r (\<lambda>x. and_then (f x) g)"
  by (cases r) auto

lemma and_then_Inr [simp]: "and_then r Inr = r"
  by (cases r) auto

section \<open>System calls\<close>

text \<open>Socket addresses by family, with the fields of \<open>sockaddr_in\<close>, \<open>sockaddr_in6\<close> and \<open>sockaddr_un\<close>.\<close>

datatype sockaddr =
    SockUnspec u16
  | SockIn (sin_port: u16) (sin_addr: u32)
  | SockIn6 (sin6_port: u16) (sin6_flowinfo: u32) (sin6_addr: string) (sin6_scope_id: u32)
  | SockUn (sun_path: string)

definition AF_UNIX :: u16 where "AF_UNIX = 1"
definition AF_INET :: u16 where "AF_INET = 2"
definition AF_INET6 :: u16 where "AF_INET6 = 10"

fun sa_family :: "sockaddr \<Rightarrow> u16" where
  "sa_family (SockUnspec fam) = fam"
| "sa_family (SockIn _ _) = AF_INET"
| "sa_family (SockIn6 _ _ _ _) = AF_INET6"
| "sa_family (SockUn _) = AF_UNIX"

datatype sock_opt = IPV6_V6ONLY | SO_BROADCAST | SO_REUSEADDR

text \<open>The membership options, with the group address and the interface of \<open>ip_mreq\<close> or \<open>ipv6_mreq\<close>.\<close>

datatype mcast_opt =
    IP_ADD_MEMBERSHIP u32 u32
  | IP_DROP_MEMBERSHIP u32 u32
  | IPV6_JOIN_GROUP string u32
  | IPV6_LEAVE_GROUP string u32

datatype ctl_op = EPOLL_CTL_ADD | EPOLL_CTL_MOD | EPOLL_CTL_DEL

record 'k os =
  os_epoll_create1 :: "'k \<Rightarrow> fd sysret \<times> 'k"
  os_eventfd :: "'k \<Rightarrow> fd sysret \<times> 'k"
  os_epoll_ctl :: "ctl_op \<Rightarrow> fd \<Rightarrow> u32 \<Rightarrow> 'k \<Rightarrow> unit sysret \<times> 'k"
  os_close :: "fd \<Rightarrow> 'k \<Rightarrow> unit sysret \<times> 'k"
  os_counter_write :: "fd \<Rightarrow> u64 \<Rightarrow> 'k \<Rightarrow> unit sysret \<times> 'k"
  os_counter_read :: "fd \<Rightarrow> 'k \<Rightarrow> u64 sysret \<times> 'k"
  os_steady_now :: "'k \<Rightarrow> int \<times> 'k"
  os_timerfd_create :: "'k \<Rightarrow> fd sysret \<times> 'k"
  os_timerfd_settime :: "fd \<Rightarrow> int \<times> int \<Rightarrow> int \<times> int \<Rightarrow> 'k \<Rightarrow> unit sysret \<times> 'k"
  os_send :: "fd \<Rightarrow> byte list \<Rightarrow> 'k \<Rightarrow> nat sysret \<times> 'k"
  os_readv :: "fd \<Rightarrow> nat \<Rightarrow> 'k \<Rightarrow> byte list sysret \<times> 'k"
  os_so_error :: "fd \<Rightarrow> 'k \<Rightarrow> errno option \<times> 'k"
  os_socket :: "u16 \<Rightarrow> bool \<Rightarrow> 'k \<Rightarrow> fd sysret \<times> 'k"
  os_setsockopt :: "fd \<Rightarrow> sock_opt \<Rightarrow> 'k \<Rightarrow> unit sysret \<times> 'k"
  os_bind :: "fd \<Rightarrow> sockaddr \<Rightarrow> nat \<Rightarrow> 'k \<Rightarrow> unit sysret \<times> 'k"
  os_listen :: "fd \<Rightarrow> 'k \<Rightarrow> unit sysret \<times> 'k"
  os_accept4 :: "fd \<Rightarrow> 'k \<Rightarrow> fd sysret \<times> 'k"
  os_connect :: "fd \<Rightarrow> sockaddr \<Rightarrow> nat \<Rightarrow> 'k \<Rightarrow> unit sysret \<times> 'k"
  os_sendto :: "fd \<Rightarrow> byte list \<Rightarrow> sockaddr \<Rightarrow> nat \<Rightarrow> 'k \<Rightarrow> nat sysret \<times> 'k"
  os_recvfrom :: "fd \<Rightarrow> nat \<Rightarrow> 'k \<Rightarrow> (byte list \<times> sockaddr \<times> nat) sysret \<times> 'k"
  os_membership :: "fd \<Rightarrow> mcast_opt \<Rightarrow> 'k \<Rightarrow> unit sysret \<times> 'k"
  os_unlink :: "string \<Rightarrow> 'k \<Rightarrow> unit sysret \<times> 'k"

text \<open>
  \<open>while (read(fd, &val, sizeof(val)) > 0);\<close> on an event or timer descriptor: the loop ends with
  the error of the read that failed. \<open>None\<close> when no read ever fails.
\<close>

partial_function (option) drain_counter :: "'k os \<Rightarrow> fd \<Rightarrow> 'k \<Rightarrow> (errno \<times> 'k) option" where
  "drain_counter os fd k =
     (case os_counter_read os fd k of
        (Inl e, k') \<Rightarrow> Some (e, k')
      | (Inr v, k') \<Rightarrow> drain_counter os fd k')"

section \<open>Documented behaviour\<close>

text \<open>
  \<open>epoll_ctl(2)\<close> and \<open>close(2)\<close>, for the interest list \<open>il\<close> of the loop's epoll instance:
  a success has its effect on that entry only, and happens only where adding finds no entry and
  changing or deleting finds one; a failure has no effect, \<open>EEXIST\<close> means that the entry was there and
  \<open>ENOENT\<close> that it was not, and there are other errors. A close that succeeds removes the descriptor
  from the list; one that fails may have released the descriptor all the same.
\<close>

definition epoll_documented :: "'k os \<Rightarrow> ('k \<Rightarrow> fd \<rightharpoonup> u32) \<Rightarrow> bool" where
  "epoll_documented os il \<longleftrightarrow>
     (\<forall>op fd ev k r k'. os_epoll_ctl os op fd ev k = (r, k') \<longrightarrow>
        (case r of
           Inr _ \<Rightarrow> il k' = (il k)(fd := (if op = EPOLL_CTL_DEL then None else Some ev)) \<and>
             (op = EPOLL_CTL_ADD \<longleftrightarrow> il k fd = None)
         | Inl e \<Rightarrow> il k' = il k \<and>
             (e = EEXIST \<longrightarrow> op = EPOLL_CTL_ADD \<and> il k fd \<noteq> None) \<and>
             (e = ENOENT \<longrightarrow> op \<noteq> EPOLL_CTL_ADD \<and> il k fd = None))) \<and>
     (\<forall>fd k r k'. os_close os fd k = (r, k') \<longrightarrow>
        (case r of Inr _ \<Rightarrow> il k' = (il k)(fd := None) | Inl _ \<Rightarrow> il k' = il k \<or> il k' = (il k)(fd := None)))"

text \<open>
  \<open>eventfd(2)\<close> and \<open>timerfd_create(2)\<close>, non-blocking: a read returns the counter when it is not
  zero and resets it, and fails with \<open>EAGAIN\<close> when it is zero. The interest list is not touched.
\<close>

definition counter_documented :: "'k os \<Rightarrow> ('k \<Rightarrow> fd \<Rightarrow> u64) \<Rightarrow> bool" where
  "counter_documented os cnt \<longleftrightarrow>
     (\<forall>fd k r k'. os_counter_read os fd k = (r, k') \<longrightarrow>
        (if cnt k fd = 0 then r = Inl EAGAIN \<and> cnt k' = cnt k
         else r = Inr (cnt k fd) \<and> cnt k' = (cnt k)(fd := 0)))"

text \<open>
  \<open>std::chrono::steady_clock\<close>, in nanoseconds: a reading is never below an earlier one; \<open>clk\<close> is
  the last one.
\<close>

definition clock_documented :: "'k os \<Rightarrow> ('k \<Rightarrow> int) \<Rightarrow> bool" where
  "clock_documented os clk \<longleftrightarrow> (\<forall>k t k'. os_steady_now os k = (t, k') \<longrightarrow> clk k \<le> t \<and> clk k' = t)"

text \<open>The clock counts from the start of the machine, and has run for less than half of its range (146 years).\<close>

definition clock_in_range :: "'k os \<Rightarrow> bool" where
  "clock_in_range os \<longleftrightarrow> (\<forall>k. 0 \<le> fst (os_steady_now os k) \<and> fst (os_steady_now os k) < 2 ^ 62)"

lemma clock_in_rangeD: "clock_in_range os \<Longrightarrow> os_steady_now os k = (t, k') \<Longrightarrow> 0 \<le> t \<and> t < 2 ^ 62"
  unfolding clock_in_range_def by (metis fst_conv)

lemma clock_documentedD:
  assumes "clock_documented os clk" and "os_steady_now os k = (t, k')"
  shows "clk k \<le> t" and "clk k' = t"
  using assms unfolding clock_documented_def by blast+

text \<open>A descriptor that a call returns is not negative.\<close>

definition fds_nonneg :: "'k os \<Rightarrow> bool" where
  "fds_nonneg os \<longleftrightarrow> (\<forall>fam stream k fd. fst (os_socket os fam stream k) = Inr fd \<longrightarrow> 0 \<le> fd) \<and>
     (\<forall>k fd. fst (os_timerfd_create os k) = Inr fd \<longrightarrow> 0 \<le> fd) \<and>
     (\<forall>lfd k fd. fst (os_accept4 os lfd k) = Inr fd \<longrightarrow> 0 \<le> fd)"

text \<open>
  \<open>send(2)\<close> and \<open>readv(2)\<close> on a stream socket: a send that succeeds takes a prefix of the data,
  not empty unless the data is, and a read that succeeds gives the next bytes of what has
  arrived, no more than there is room for. A call that fails has no effect on either.
\<close>

definition stream_documented :: "'k os \<Rightarrow> ('k \<Rightarrow> fd \<Rightarrow> byte list) \<Rightarrow> ('k \<Rightarrow> fd \<Rightarrow> byte list) \<Rightarrow> bool" where
  "stream_documented os inbox sent \<longleftrightarrow>
     (\<forall>fd bytes k r k'. os_send os fd bytes k = (r, k') \<longrightarrow> inbox k' = inbox k \<and>
        (case r of
           Inl _ \<Rightarrow> sent k' = sent k
         | Inr n \<Rightarrow> n \<le> length bytes \<and> (bytes \<noteq> [] \<longrightarrow> 0 < n) \<and>
             sent k' = (sent k)(fd := sent k fd @ take n bytes))) \<and>
     (\<forall>fd cap k r k'. os_readv os fd cap k = (r, k') \<longrightarrow> sent k' = sent k \<and>
        (case r of
           Inl _ \<Rightarrow> inbox k' = inbox k
         | Inr bytes \<Rightarrow> length bytes \<le> cap \<and> inbox k fd = bytes @ inbox k' fd))"

text \<open>
  \<open>accept4(2)\<close>, for the number \<open>pending\<close> of connections that wait on a listening socket and the set
  \<open>opened\<close> of open descriptors: a success takes one connection and returns a descriptor that was not
  open, an aborted connection is taken too, and \<open>EAGAIN\<close> means that none waits.
\<close>

definition accept_documented :: "'k os \<Rightarrow> ('k \<Rightarrow> fd \<Rightarrow> nat) \<Rightarrow> ('k \<Rightarrow> fd set) \<Rightarrow> bool" where
  "accept_documented os pending opened \<longleftrightarrow>
     (\<forall>lfd k r k'. os_accept4 os lfd k = (r, k') \<longrightarrow>
        (case r of
           Inr fd \<Rightarrow> pending k' lfd < pending k lfd \<and> 0 \<le> fd \<and> fd < 2 ^ 31 \<and> fd \<notin> opened k \<and>
             opened k' = insert fd (opened k)
         | Inl e \<Rightarrow> opened k' = opened k \<and> (e = ECONNABORTED \<longrightarrow> pending k' lfd < pending k lfd) \<and>
             (e = EAGAIN \<longrightarrow> pending k' lfd = 0)))"

lemma accept_documentedD:
  assumes "accept_documented os pending opened" and "os_accept4 os lfd k = (r, k')"
  shows "r = Inr fd \<Longrightarrow> pending k' lfd < pending k lfd" and "r = Inr fd \<Longrightarrow> 0 \<le> fd \<and> fd < 2 ^ 31"
    and "r = Inr fd \<Longrightarrow> fd \<notin> opened k" and "r = Inr fd \<Longrightarrow> opened k' = insert fd (opened k)"
    and "r = Inl e \<Longrightarrow> opened k' = opened k" and "r = Inl ECONNABORTED \<Longrightarrow> pending k' lfd < pending k lfd"
    and "r = Inl EAGAIN \<Longrightarrow> pending k' lfd = 0"
  using assms unfolding accept_documented_def by (fastforce split: sum.splits)+

text \<open>
  \<open>sendto(2)\<close> and \<open>recvfrom(2)\<close> on a datagram socket: datagrams are taken one by one, whole or cut to
  the room there is, and sent whole. A call that fails takes and sends nothing; \<open>EAGAIN\<close> means that
  nothing was there, and other errors may come at any time.
\<close>

definition dgram_documented :: "'k os \<Rightarrow> ('k \<Rightarrow> fd \<Rightarrow> (byte list \<times> sockaddr \<times> nat) list) \<Rightarrow>
    ('k \<Rightarrow> fd \<Rightarrow> (byte list \<times> sockaddr) list) \<Rightarrow> bool" where
  "dgram_documented os arrived out \<longleftrightarrow>
     (\<forall>fd cap k r k'. os_recvfrom os fd cap k = (r, k') \<longrightarrow> out k' = out k \<and>
        (case r of
           Inl e \<Rightarrow> arrived k' = arrived k \<and> (e = EAGAIN \<longrightarrow> arrived k fd = [])
         | Inr (bytes, sa, len) \<Rightarrow> \<exists>whole. arrived k fd = (whole, sa, len) # arrived k' fd \<and> bytes = take cap whole)) \<and>
     (\<forall>fd bytes sa len k r k'. os_sendto os fd bytes sa len k = (r, k') \<longrightarrow> arrived k' = arrived k \<and>
        (case r of
           Inl _ \<Rightarrow> out k' = out k
         | Inr n \<Rightarrow> n = length bytes \<and> out k' = (out k)(fd := out k fd @ [(bytes, sa)])))"

lemma recvfrom_documentedD:
  assumes "dgram_documented os arrived out" and "os_recvfrom os fd cap k = (r, k')"
  shows "out k' = out k" and "r = Inl e \<Longrightarrow> arrived k' = arrived k" and "r = Inl EAGAIN \<Longrightarrow> arrived k fd = []"
    and "r = Inr (bytes, sa, len) \<Longrightarrow> \<exists>whole. arrived k fd = (whole, sa, len) # arrived k' fd \<and> bytes = take cap whole"
  using assms unfolding dgram_documented_def by (fastforce split: sum.splits)+

lemma sendto_documentedD:
  assumes "dgram_documented os arrived out" and "os_sendto os fd bytes sa len k = (r, k')"
  shows "arrived k' = arrived k" and "r = Inl e \<Longrightarrow> out k' = out k"
    and "r = Inr n \<Longrightarrow> out k' = (out k)(fd := out k fd @ [(bytes, sa)])"
  using assms unfolding dgram_documented_def by (fastforce split: sum.splits)+

lemma send_documentedD:
  assumes "stream_documented os inbox sent" and "os_send os fd bytes k = (r, k')"
  shows "inbox k' = inbox k" and "r = Inl e \<Longrightarrow> sent k' = sent k"
    and "r = Inr n \<Longrightarrow> n \<le> length bytes" and "r = Inr n \<Longrightarrow> bytes \<noteq> [] \<Longrightarrow> 0 < n"
    and "r = Inr n \<Longrightarrow> sent k' = (sent k)(fd := sent k fd @ take n bytes)"
  using assms unfolding stream_documented_def by (fastforce split: sum.splits)+

lemma readv_documentedD:
  assumes "stream_documented os inbox sent" and "os_readv os fd cap k = (r, k')"
  shows "sent k' = sent k" and "r = Inl e \<Longrightarrow> inbox k' = inbox k"
    and "r = Inr bytes \<Longrightarrow> length bytes \<le> cap" and "r = Inr bytes \<Longrightarrow> inbox k fd = bytes @ inbox k' fd"
  using assms unfolding stream_documented_def by (fastforce split: sum.splits)+

lemma epoll_documentedD:
  assumes "epoll_documented os il" and "os_epoll_ctl os op fd ev k = (r, k')"
  shows "r = Inr u \<Longrightarrow> il k' = (il k)(fd := (if op = EPOLL_CTL_DEL then None else Some ev))"
    and "r = Inr u \<Longrightarrow> op = EPOLL_CTL_ADD \<longleftrightarrow> il k fd = None"
    and "r = Inl e \<Longrightarrow> il k' = il k"
    and "r = Inl EEXIST \<Longrightarrow> op = EPOLL_CTL_ADD \<and> il k fd \<noteq> None"
    and "r = Inl ENOENT \<Longrightarrow> op \<noteq> EPOLL_CTL_ADD \<and> il k fd = None"
  using assms unfolding epoll_documented_def by (fastforce split: sum.splits)+

lemma close_documentedD:
  assumes "epoll_documented os il" and "os_close os fd k = (r, k')"
  shows "r = Inr u \<Longrightarrow> il k' = (il k)(fd := None)"
    and "r = Inl e \<Longrightarrow> il k' = il k \<or> il k' = (il k)(fd := None)"
  using assms unfolding epoll_documented_def by (fastforce split: sum.splits)+

text \<open>Draining an event descriptor ends, after at most two reads, with \<open>EAGAIN\<close> and the counter at zero.\<close>

lemma drain_counter_returns:
  assumes "counter_documented os cnt"
  shows "\<exists>k'. drain_counter os fd k = Some (EAGAIN, k') \<and> cnt k' = (cnt k)(fd := 0)"
proof -
  have zero: "cnt k fd = 0 \<Longrightarrow> \<exists>k'. drain_counter os fd k = Some (EAGAIN, k') \<and> cnt k' = cnt k" for k
    using assms unfolding counter_documented_def
    by (cases "os_counter_read os fd k") (subst drain_counter.simps, fastforce)
  show ?thesis
  proof (cases "cnt k fd = 0")
    case True
    then show ?thesis using zero [OF True] by (auto simp: fun_upd_idem)
  next
    case False
    obtain r k1 where read: "os_counter_read os fd k = (r, k1)" by fastforce
    with assms False have "r = Inr (cnt k fd)" and k1: "cnt k1 = (cnt k)(fd := 0)"
      unfolding counter_documented_def by metis+
    moreover from k1 zero [of k1] obtain k2 where
      "drain_counter os fd k1 = Some (EAGAIN, k2)" "cnt k2 = cnt k1" by auto
    ultimately show ?thesis using read by (subst drain_counter.simps) simp
  qed
qed

section \<open>A kernel that behaves as documented\<close>

text \<open>
  The hypotheses above can hold: a small kernel with an interest list, counters, and for every
  stream descriptor the bytes that have arrived, the room left in the send queue and the bytes
  sent. It serves the concrete instances of the theorems.
\<close>

record kstate =
  k_interest :: "fd \<Rightarrow> u32 option"
  k_count :: "fd \<Rightarrow> u64"
  k_next :: fd
  k_inbox :: "fd \<Rightarrow> byte list"
  k_room :: "fd \<Rightarrow> nat"
  k_sent :: "fd \<Rightarrow> byte list"
  k_timer :: "fd \<Rightarrow> (int \<times> int) \<times> (int \<times> int)"
  k_clock :: int
  k_open :: "fd list"
  k_pending :: "fd \<Rightarrow> nat"
  k_dgrams :: "fd \<Rightarrow> (byte list \<times> sockaddr \<times> nat) list"
  k_out :: "fd \<Rightarrow> (byte list \<times> sockaddr) list"
  k_files :: "string list"

definition k_init :: kstate where
  "k_init = \<lparr>k_interest = (\<lambda>_. None), k_count = (\<lambda>_. 0), k_next = 3, k_inbox = (\<lambda>_. []),
     k_room = (\<lambda>_. 0), k_sent = (\<lambda>_. []), k_timer = (\<lambda>_. ((0, 0), (0, 0))), k_clock = 0,
     k_open = [], k_pending = (\<lambda>_. 0), k_dgrams = (\<lambda>_. []), k_out = (\<lambda>_. []), k_files = []\<rparr>"

definition k_epoll_ctl :: "ctl_op \<Rightarrow> fd \<Rightarrow> u32 \<Rightarrow> kstate \<Rightarrow> unit sysret \<times> kstate" where
  "k_epoll_ctl op fd ev k =
     (case op of
        EPOLL_CTL_ADD \<Rightarrow> (if k_interest k fd \<noteq> None then (Inl EEXIST, k)
                          else (Inr (), k\<lparr>k_interest := (k_interest k)(fd \<mapsto> ev)\<rparr>))
      | EPOLL_CTL_MOD \<Rightarrow> (if k_interest k fd = None then (Inl ENOENT, k)
                          else (Inr (), k\<lparr>k_interest := (k_interest k)(fd \<mapsto> ev)\<rparr>))
      | EPOLL_CTL_DEL \<Rightarrow> (if k_interest k fd = None then (Inl ENOENT, k)
                          else (Inr (), k\<lparr>k_interest := (k_interest k)(fd := None)\<rparr>)))"

definition k_close :: "fd \<Rightarrow> kstate \<Rightarrow> unit sysret \<times> kstate" where
  "k_close fd k = (Inr (), k\<lparr>k_interest := (k_interest k)(fd := None), k_open := removeAll fd (k_open k)\<rparr>)"

definition k_counter_read :: "fd \<Rightarrow> kstate \<Rightarrow> u64 sysret \<times> kstate" where
  "k_counter_read fd k = (if k_count k fd = 0 then (Inl EAGAIN, k)
     else (Inr (k_count k fd), k\<lparr>k_count := (k_count k)(fd := 0)\<rparr>))"

definition k_send :: "fd \<Rightarrow> byte list \<Rightarrow> kstate \<Rightarrow> nat sysret \<times> kstate" where
  "k_send fd bytes k =
     (if bytes \<noteq> [] \<and> k_room k fd = 0 then (Inl EAGAIN, k)
      else let n = min (length bytes) (k_room k fd)
           in (Inr n, k\<lparr>k_room := (k_room k)(fd := k_room k fd - n),
                        k_sent := (k_sent k)(fd := k_sent k fd @ take n bytes)\<rparr>))"

definition k_readv :: "fd \<Rightarrow> nat \<Rightarrow> kstate \<Rightarrow> byte list sysret \<times> kstate" where
  "k_readv fd cap k =
     (if k_inbox k fd = [] then (Inl EAGAIN, k)
      else (Inr (take cap (k_inbox k fd)), k\<lparr>k_inbox := (k_inbox k)(fd := drop cap (k_inbox k fd))\<rparr>))"

text \<open>A descriptor above all open ones.\<close>

definition k_fresh :: "kstate \<Rightarrow> fd" where
  "k_fresh k = 1 + fold max (k_open k) 2"

definition k_open_fd :: "kstate \<Rightarrow> fd sysret \<times> kstate" where
  "k_open_fd k = (if k_fresh k < 2 ^ 31 then (Inr (k_fresh k), k\<lparr>k_open := k_fresh k # k_open k\<rparr>) else (Inl (EOTHER 24), k))"

definition k_accept :: "fd \<Rightarrow> kstate \<Rightarrow> fd sysret \<times> kstate" where
  "k_accept lfd k =
     (if k_pending k lfd = 0 then (Inl EAGAIN, k)
      else k_open_fd (k\<lparr>k_pending := (k_pending k)(lfd := k_pending k lfd - 1)\<rparr>))"

definition k_recvfrom :: "fd \<Rightarrow> nat \<Rightarrow> kstate \<Rightarrow> (byte list \<times> sockaddr \<times> nat) sysret \<times> kstate" where
  "k_recvfrom fd cap k =
     (case k_dgrams k fd of
        [] \<Rightarrow> (Inl EAGAIN, k)
      | (bytes, sa, len) # rest \<Rightarrow> (Inr (take cap bytes, sa, len), k\<lparr>k_dgrams := (k_dgrams k)(fd := rest)\<rparr>))"

definition k_sendto :: "fd \<Rightarrow> byte list \<Rightarrow> sockaddr \<Rightarrow> nat \<Rightarrow> kstate \<Rightarrow> nat sysret \<times> kstate" where
  "k_sendto fd bytes sa len k =
     (if k_room k fd < length bytes then (Inl EAGAIN, k)
      else (Inr (length bytes), k\<lparr>k_out := (k_out k)(fd := k_out k fd @ [(bytes, sa)])\<rparr>))"

definition ref_os :: "kstate os" where
  "ref_os = \<lparr>os_epoll_create1 = (\<lambda>k. (Inr (k_next k), k\<lparr>k_next := k_next k + 1\<rparr>)),
     os_eventfd = (\<lambda>k. (Inr (k_next k), k\<lparr>k_next := k_next k + 1\<rparr>)),
     os_epoll_ctl = k_epoll_ctl, os_close = k_close,
     os_counter_write = (\<lambda>fd v k. (Inr (), k\<lparr>k_count := (k_count k)(fd := k_count k fd + v)\<rparr>)),
     os_counter_read = k_counter_read,
     os_steady_now = (\<lambda>k. (k_clock k, k)),
     os_timerfd_create = k_open_fd,
     os_timerfd_settime = (\<lambda>fd val ivl k. (Inr (), k\<lparr>k_timer := (k_timer k)(fd := (val, ivl))\<rparr>)),
     os_send = k_send, os_readv = k_readv, os_so_error = (\<lambda>fd k. (None, k)),
     os_socket = (\<lambda>fam stream. k_open_fd),
     os_setsockopt = (\<lambda>fd opt k. (Inr (), k)), os_bind = (\<lambda>fd addr len k. (Inr (), k)),
     os_listen = (\<lambda>fd k. (Inr (), k)), os_accept4 = k_accept,
     os_connect = (\<lambda>fd sa len k. (Inl EINPROGRESS, k)), os_sendto = k_sendto, os_recvfrom = k_recvfrom,
     os_membership = (\<lambda>fd opt k. (Inr (), k)),
     os_unlink = (\<lambda>path k. if path \<in> set (k_files k) then (Inr (), k\<lparr>k_files := removeAll path (k_files k)\<rparr>) else (Inl ENOENT, k))\<rparr>"

lemma ref_os_epoll: "epoll_documented ref_os k_interest"
  by (auto simp: epoll_documented_def ref_os_def k_epoll_ctl_def k_close_def
      split: ctl_op.splits if_splits sum.splits)

lemma ref_os_counter: "counter_documented ref_os k_count"
  by (auto simp: counter_documented_def ref_os_def k_counter_read_def split: if_splits)

lemma ref_os_clock: "clock_documented ref_os k_clock"
  by (auto simp: clock_documented_def ref_os_def)


lemma ref_os_stream: "stream_documented ref_os k_inbox k_sent"
  by (auto simp: stream_documented_def ref_os_def k_send_def k_readv_def Let_def split: if_splits)

lemma fold_max_base: "n \<le> fold max xs n" for xs :: "int list"
proof (induction xs arbitrary: n)
  case (Cons x xs)
  have "n \<le> max x n" by simp
  also have "\<dots> \<le> fold max xs (max x n)" by (rule Cons.IH)
  finally show ?case by simp
qed simp

lemma fold_max_mem: "x \<in> set xs \<Longrightarrow> x \<le> fold max xs n" for xs :: "int list"
proof (induction xs arbitrary: n)
  case (Cons y xs)
  show ?case
  proof (cases "x = y")
    case True
    then show ?thesis using fold_max_base [of "max y n" xs] by simp
  next
    case False
    then show ?thesis using Cons by simp
  qed
qed simp

lemma k_fresh_new: "3 \<le> k_fresh k" "k_fresh k \<notin> set (k_open k)"
  using fold_max_base [of 2 "k_open k"] fold_max_mem [of "k_fresh k" "k_open k" 2] by (auto simp: k_fresh_def)

lemma ref_os_fds: "fds_nonneg ref_os"
proof -
  have "0 \<le> k_fresh k" for k using k_fresh_new(1) [of k] by linarith
  then show ?thesis by (auto simp: fds_nonneg_def ref_os_def k_open_fd_def k_accept_def split: if_splits)
qed

lemma ref_os_accept: "accept_documented ref_os k_pending (\<lambda>k. set (k_open k))"
proof -
  have fresh: "0 \<le> k_fresh k" "k_fresh k \<notin> set (k_open k)" for k using k_fresh_new [of k] by auto
  have same: "k_fresh (k\<lparr>k_pending := p\<rparr>) = k_fresh k" for k p by (simp add: k_fresh_def)
  show ?thesis using fresh by (auto simp: accept_documented_def ref_os_def k_accept_def k_open_fd_def same split: if_splits)
qed

text \<open>Which calls open or close descriptors: none but those that are meant to.\<close>

definition keeps_open :: "'k os \<Rightarrow> ('k \<Rightarrow> fd set) \<Rightarrow> bool" where
  "keeps_open os opened \<longleftrightarrow>
     (\<forall>fd v k. opened (snd (os_counter_write os fd v k)) = opened k) \<and>
     (\<forall>fd k. opened (snd (os_counter_read os fd k)) = opened k) \<and>
     (\<forall>op fd ev k. opened (snd (os_epoll_ctl os op fd ev k)) = opened k) \<and>
     (\<forall>fd bytes k. opened (snd (os_send os fd bytes k)) = opened k) \<and>
     (\<forall>fd cap k. opened (snd (os_readv os fd cap k)) = opened k) \<and>
     (\<forall>fd k. opened (snd (os_so_error os fd k)) = opened k) \<and>
     (\<forall>fd k. opened (snd (os_close os fd k)) = (case fst (os_close os fd k) of Inl _ \<Rightarrow> opened k | Inr _ \<Rightarrow> opened k - {fd}))"

lemma ref_os_keeps_open: "keeps_open ref_os (\<lambda>k. set (k_open k))"
  by (auto simp: keeps_open_def ref_os_def k_counter_read_def k_epoll_ctl_def k_send_def k_readv_def k_close_def Let_def
      split: ctl_op.splits)

lemma ref_os_dgram: "dgram_documented ref_os k_dgrams k_out"
  by (auto simp: dgram_documented_def ref_os_def k_recvfrom_def k_sendto_def split: list.splits if_splits)

end
