(* ===== verification/Loop_Core.thy ===== *)
theory Loop_Core
  imports Kernel Event_Types
begin

text \<open>
  \<open>Loop\<close> (\<open>include/kzevent/core.hpp\<close>, \<open>src/core.cpp\<close>): the table of descriptors and what runs on
  its two threads. A posted closure is a value of \<open>LoopTask\<close>, one constructor per lambda of the
  sources: the five that the \<open>loop fd\<close> interface posts, and the wrapper of
  \<open>LoopChannel::post_io_task\<close> and \<open>post_heavy_task\<close> around a closure \<open>'t\<close> of a client. Clients'
  closures (\<open>'t\<close>) and event callbacks (\<open>'cb\<close>) are run by functions the model is given.
  The fields \<open>kern\<close>, \<open>live\<close> and \<open>elog\<close> are the parts of the process outside the object: the
  kernel, the set of objects a \<open>weak_ptr\<close> can still lock, and what was written to the log.
\<close>

section \<open>State\<close>

type_synonym LifeChecker = nat

record 'cb Event =
  in_register :: bool
  in_epoll :: bool
  ev_cb :: "(LifeChecker \<times> 'cb) option"

datatype ('cb, 't) LoopTask =
    RegisterTask fd
  | UnregisterTask fd
  | EnableCbTask fd EventType EventMode "LifeChecker \<times> 'cb"
  | EnableTask fd EventType EventMode
  | DisableTask fd
  | WrapperTask LifeChecker 't

text \<open>\<open>LogCode\<close> and \<open>LogFatal\<close> carry the error number whose message is logged after a text.\<close>

datatype log_entry = LogInfo string | LogError string | LogSysError errno | LogCode string errno | LogFatal string errno

record ('k, 'cb, 't) Loop =
  epoll_fd :: fd
  io_wake_fd :: fd
  events :: "'cb Event list"
  io_exe_queue :: "('cb, 't) LoopTask list"
  io_buffer_queue :: "('cb, 't) LoopTask list"
  heavy_exe_queue :: "('cb, 't) LoopTask list"
  heavy_buffer_queue :: "('cb, 't) LoopTask list"
  heavy_wakes :: nat
  kern :: 'k
  live :: "nat set"
  elog :: "log_entry list"

definition kEpollInitEventLen :: nat where
  "kEpollInitEventLen = 512"

definition default_Event :: "'cb Event" where
  "default_Event = \<lparr>in_register = False, in_epoll = False, ev_cb = None\<rparr>"

definition write_log :: "log_entry \<Rightarrow> ('k, 'cb, 't) Loop \<Rightarrow> ('k, 'cb, 't) Loop" where
  "write_log e l = l\<lparr>elog := elog l @ [e]\<rparr>"

text \<open>The members as the constructor initialises them, with the two descriptors it opened.\<close>

definition make_Loop :: "fd \<Rightarrow> fd \<Rightarrow> 'k \<Rightarrow> nat set \<Rightarrow> ('k, 'cb, 't) Loop" where
  "make_Loop ep wake k lv = \<lparr>epoll_fd = ep, io_wake_fd = wake,
     events = replicate kEpollInitEventLen default_Event,
     io_exe_queue = [], io_buffer_queue = [], heavy_exe_queue = [], heavy_buffer_queue = [],
     heavy_wakes = 0, kern = k, live = lv, elog = []\<rparr>"

definition construct_Loop :: "'k os \<Rightarrow> 'k \<Rightarrow> nat set \<Rightarrow> fault + ('k, 'cb, 't) Loop" where
  "construct_Loop os k lv =
     (case os_epoll_create1 os k of
        (Inl err, _) \<Rightarrow> Inl (SysFatal err)
      | (Inr ep, k1) \<Rightarrow>
          (case os_eventfd os k1 of
             (Inl err, _) \<Rightarrow> Inl (SysFatal err)
           | (Inr wake, k2) \<Rightarrow>
               (case os_epoll_ctl os EPOLL_CTL_ADD wake (event_or EPOLLIN EPOLLET) k2 of
                  (Inl err, _) \<Rightarrow> Inl (SysFatal err)
                | (Inr _, k3) \<Rightarrow>
                    Inr (write_log (LogInfo ''loop create successfully!'') (make_Loop ep wake k3 lv)))))"

text \<open>\<open>close\<close> with its failure logged, and the destructor after both threads were joined.\<close>

definition close_logged :: "'k os \<Rightarrow> fd \<Rightarrow> ('k, 'cb, 't) Loop \<Rightarrow> ('k, 'cb, 't) Loop" where
  "close_logged os fd l =
     (case os_close os fd (kern l) of
        (Inl err, k) \<Rightarrow> write_log (LogSysError err) (l\<lparr>kern := k\<rparr>)
      | (Inr _, k) \<Rightarrow> l\<lparr>kern := k\<rparr>)"

fun close_registered :: "'k os \<Rightarrow> fd \<Rightarrow> 'cb Event list \<Rightarrow> ('k, 'cb, 't) Loop \<Rightarrow> ('k, 'cb, 't) Loop" where
  "close_registered os fd [] l = l"
| "close_registered os fd (e # es) l =
     close_registered os (fd + 1) es (if in_register e then close_logged os fd l else l)"

definition destroy_Loop :: "'k os \<Rightarrow> ('k, 'cb, 't) Loop \<Rightarrow> ('k, 'cb, 't) Loop" where
  "destroy_Loop os l =
     (let l1 = close_logged os (epoll_fd l) l;
          l2 = close_logged os (io_wake_fd l) l1
      in write_log (LogInfo ''loop delete successfully!'') (close_registered os 0 (events l) l2))"

text \<open>\<open>events_[fd]\<close>: the subscript of a \<open>std::vector\<close> is not checked, so a bad one is a fault.\<close>

definition with_event :: "fd \<Rightarrow> ('k, 'cb, 't) Loop \<Rightarrow> ('cb Event \<Rightarrow> fault + ('k, 'cb, 't) Loop)
    \<Rightarrow> fault + ('k, 'cb, 't) Loop" where
  "with_event fd l f = (if 0 \<le> fd \<and> nat fd < length (events l) then f (events l ! nat fd)
     else Inl (OutOfRange fd))"

definition set_event :: "fd \<Rightarrow> 'cb Event \<Rightarrow> ('k, 'cb, 't) Loop \<Rightarrow> ('k, 'cb, 't) Loop" where
  "set_event fd e l = l\<lparr>events := (events l)[nat fd := e]\<rparr>"

section \<open>The posted closures of the descriptor interface\<close>

definition register_task :: "fd \<Rightarrow> ('k, 'cb, 't) Loop \<Rightarrow> fault + ('k, 'cb, 't) Loop" where
  "register_task fd l =
     (if fd < 0 then Inl (OutOfRange fd)
      else let new_size = length (events l) + length (events l) div 2;
               l1 = (if nat fd \<ge> length (events l)
                     then l\<lparr>events := vresize (if new_size < nat fd + 1 then nat fd + 1 else new_size)
                            default_Event (events l)\<rparr>
                     else l)
           in with_event fd l1 (\<lambda>e. Inr (set_event fd (e\<lparr>in_register := True\<rparr>) l1)))"

text \<open>The removal from epoll that \<open>unregister_fd\<close> makes for a descriptor it believes watched.\<close>

definition unwatch :: "'k os \<Rightarrow> fd \<Rightarrow> 'cb Event \<Rightarrow> ('k, 'cb, 't) Loop \<Rightarrow> ('k, 'cb, 't) Loop" where
  "unwatch os fd e l =
     (if in_epoll e
      then case os_epoll_ctl os EPOLL_CTL_DEL fd 0 (kern l) of
             (Inl err, k) \<Rightarrow> (if err \<noteq> ENOENT then write_log (LogSysError err) (l\<lparr>kern := k\<rparr>)
                               else l\<lparr>kern := k\<rparr>)
           | (Inr _, k) \<Rightarrow> l\<lparr>kern := k\<rparr>
      else l)"

definition unregister_task :: "'k os \<Rightarrow> fd \<Rightarrow> ('k, 'cb, 't) Loop \<Rightarrow> fault + ('k, 'cb, 't) Loop" where
  "unregister_task os fd l = with_event fd l (\<lambda>e.
     if \<not> in_register e then Inr (write_log (LogInfo ''fd is unregistered repeatedly!'') l)
     else
       let l1 = unwatch os fd e l
       in case os_close os fd (kern l1) of
            (Inl err, k) \<Rightarrow> Inr (write_log (LogSysError err) (l1\<lparr>kern := k\<rparr>))
          | (Inr _, k) \<Rightarrow> Inr (set_event fd (e\<lparr>in_register := False, in_epoll := False, ev_cb := None\<rparr>)
                            (l1\<lparr>kern := k\<rparr>)))"

text \<open>
  The call of \<open>epoll_ctl\<close> that both \<open>enable_fd\<close> overloads make, with the two fallbacks for a flag
  that does not match the kernel: the error of the call that failed last, and the kernel.
\<close>

definition epoll_set :: "'k os \<Rightarrow> bool \<Rightarrow> fd \<Rightarrow> u32 \<Rightarrow> 'k \<Rightarrow> errno option \<times> 'k" where
  "epoll_set os in_ep fd ev k =
     (let epoll_op = (if in_ep then EPOLL_CTL_MOD else EPOLL_CTL_ADD)
      in case os_epoll_ctl os epoll_op fd ev k of
           (Inr _, k1) \<Rightarrow> (None, k1)
         | (Inl err, k1) \<Rightarrow>
             if epoll_op = EPOLL_CTL_ADD \<and> err = EEXIST
             then (case os_epoll_ctl os EPOLL_CTL_MOD fd ev k1 of
                     (Inr _, k2) \<Rightarrow> (None, k2) | (Inl err2, k2) \<Rightarrow> (Some err2, k2))
             else if epoll_op = EPOLL_CTL_MOD \<and> err = ENOENT
             then (case os_epoll_ctl os EPOLL_CTL_ADD fd ev k1 of
                     (Inr _, k2) \<Rightarrow> (None, k2) | (Inl err2, k2) \<Rightarrow> (Some err2, k2))
             else (Some err, k1))"

text \<open>The bits of \<open>kz_to_local(types) | kz_to_local(modes)\<close>, or a failed assertion.\<close>

definition epoll_bits_of :: "EventType \<Rightarrow> EventMode \<Rightarrow> fault + u32" where
  "epoll_bits_of types modes =
     (case (kz_to_local types, kz_to_local_mode modes) of
        (Some a, Some b) \<Rightarrow> Inr (event_or a b) | _ \<Rightarrow> Inl AssertFailed)"

definition enable_cb_task :: "'k os \<Rightarrow> fd \<Rightarrow> EventType \<Rightarrow> EventMode \<Rightarrow> LifeChecker \<times> 'cb \<Rightarrow>
    ('k, 'cb, 't) Loop \<Rightarrow> fault + ('k, 'cb, 't) Loop" where
  "enable_cb_task os fd types modes cb l = with_event fd l (\<lambda>e.
     if \<not> in_register e then Inr (write_log (LogInfo ''fd has not registered!'') l)
     else and_then (epoll_bits_of types modes) (\<lambda>ev.
       case epoll_set os (in_epoll e) fd ev (kern l) of
         (Some err, k) \<Rightarrow> Inr (write_log (LogSysError err) (l\<lparr>kern := k\<rparr>))
       | (None, k) \<Rightarrow> Inr (set_event fd (e\<lparr>in_epoll := True, ev_cb := Some cb\<rparr>) (l\<lparr>kern := k\<rparr>))))"

definition enable_task :: "'k os \<Rightarrow> fd \<Rightarrow> EventType \<Rightarrow> EventMode \<Rightarrow>
    ('k, 'cb, 't) Loop \<Rightarrow> fault + ('k, 'cb, 't) Loop" where
  "enable_task os fd types modes l = with_event fd l (\<lambda>e.
     if \<not> in_register e then Inr (write_log (LogInfo ''fd has not registered!'') l)
     else and_then (epoll_bits_of types modes) (\<lambda>ev.
       case epoll_set os (in_epoll e) fd ev (kern l) of
         (Some err, k) \<Rightarrow> Inr (write_log (LogSysError err) (l\<lparr>kern := k\<rparr>))
       | (None, k) \<Rightarrow> Inr (set_event fd (e\<lparr>in_epoll := True\<rparr>) (l\<lparr>kern := k\<rparr>))))"

definition disable_task :: "'k os \<Rightarrow> fd \<Rightarrow> ('k, 'cb, 't) Loop \<Rightarrow> fault + ('k, 'cb, 't) Loop" where
  "disable_task os fd l = with_event fd l (\<lambda>e.
     if \<not> in_register e then Inr (write_log (LogInfo ''fd has not registered!'') l)
     else case os_epoll_ctl os EPOLL_CTL_DEL fd 0 (kern l) of
            (Inl err, k) \<Rightarrow>
              if err \<noteq> ENOENT then Inr (write_log (LogSysError err) (l\<lparr>kern := k\<rparr>))
              else Inr (set_event fd (e\<lparr>in_epoll := False, ev_cb := None\<rparr>) (l\<lparr>kern := k\<rparr>))
          | (Inr _, k) \<Rightarrow> Inr (set_event fd (e\<lparr>in_epoll := False, ev_cb := None\<rparr>) (l\<lparr>kern := k\<rparr>)))"

section \<open>Posting\<close>

definition wake_io_up :: "'k os \<Rightarrow> ('k, 'cb, 't) Loop \<Rightarrow> ('k, 'cb, 't) Loop" where
  "wake_io_up os l =
     (case os_counter_write os (io_wake_fd l) 1 (kern l) of
        (Inl err, k) \<Rightarrow> (if err \<noteq> EAGAIN then write_log (LogSysError err) (l\<lparr>kern := k\<rparr>) else l\<lparr>kern := k\<rparr>)
      | (Inr _, k) \<Rightarrow> l\<lparr>kern := k\<rparr>)"

definition wake_heavy_up :: "('k, 'cb, 't) Loop \<Rightarrow> ('k, 'cb, 't) Loop" where
  "wake_heavy_up l = l\<lparr>heavy_wakes := Suc (heavy_wakes l)\<rparr>"

definition post_io_task :: "'k os \<Rightarrow> ('cb, 't) LoopTask \<Rightarrow> ('k, 'cb, 't) Loop \<Rightarrow> ('k, 'cb, 't) Loop" where
  "post_io_task os task l = wake_io_up os (l\<lparr>io_buffer_queue := io_buffer_queue l @ [task]\<rparr>)"

definition post_heavy_task :: "('cb, 't) LoopTask \<Rightarrow> ('k, 'cb, 't) Loop \<Rightarrow> ('k, 'cb, 't) Loop" where
  "post_heavy_task task l = wake_heavy_up (l\<lparr>heavy_buffer_queue := heavy_buffer_queue l @ [task]\<rparr>)"

definition register_fd :: "'k os \<Rightarrow> fd \<Rightarrow> ('k, 'cb, 't) Loop \<Rightarrow> ('k, 'cb, 't) Loop" where
  "register_fd os fd = post_io_task os (RegisterTask fd)"

definition unregister_fd :: "'k os \<Rightarrow> fd \<Rightarrow> ('k, 'cb, 't) Loop \<Rightarrow> ('k, 'cb, 't) Loop" where
  "unregister_fd os fd = post_io_task os (UnregisterTask fd)"

definition enable_fd_cb :: "'k os \<Rightarrow> fd \<Rightarrow> EventType \<Rightarrow> EventMode \<Rightarrow> LifeChecker \<times> 'cb \<Rightarrow>
    ('k, 'cb, 't) Loop \<Rightarrow> ('k, 'cb, 't) Loop" where
  "enable_fd_cb os fd types modes cb = post_io_task os (EnableCbTask fd types modes cb)"

definition enable_fd :: "'k os \<Rightarrow> fd \<Rightarrow> EventType \<Rightarrow> EventMode \<Rightarrow>
    ('k, 'cb, 't) Loop \<Rightarrow> ('k, 'cb, 't) Loop" where
  "enable_fd os fd types modes = post_io_task os (EnableTask fd types modes)"

definition disable_fd :: "'k os \<Rightarrow> fd \<Rightarrow> ('k, 'cb, 't) Loop \<Rightarrow> ('k, 'cb, 't) Loop" where
  "disable_fd os fd = post_io_task os (DisableTask fd)"

section \<open>Running\<close>

text \<open>
  A client is a pair of functions: what a posted closure does, and what an event callback does.
  Both get the whole state, so they may post.
\<close>

record ('k, 'cb, 't) client =
  run_closure :: "'t \<Rightarrow> ('k, 'cb, 't) Loop \<Rightarrow> fault + ('k, 'cb, 't) Loop"
  run_callback :: "'cb \<Rightarrow> EventType \<Rightarrow> ('k, 'cb, 't) Loop \<Rightarrow> fault + ('k, 'cb, 't) Loop"

fun run_task :: "'k os \<Rightarrow> ('k, 'cb, 't) client \<Rightarrow> ('cb, 't) LoopTask \<Rightarrow>
    ('k, 'cb, 't) Loop \<Rightarrow> fault + ('k, 'cb, 't) Loop" where
  "run_task os c (RegisterTask fd) l = register_task fd l"
| "run_task os c (UnregisterTask fd) l = unregister_task os fd l"
| "run_task os c (EnableCbTask fd types modes cb) l = enable_cb_task os fd types modes cb l"
| "run_task os c (EnableTask fd types modes) l = enable_task os fd types modes l"
| "run_task os c (DisableTask fd) l = disable_task os fd l"
| "run_task os c (WrapperTask life t) l = (if life \<in> live l then run_closure c t l else Inr l)"

fun run_tasks :: "'k os \<Rightarrow> ('k, 'cb, 't) client \<Rightarrow> ('cb, 't) LoopTask list \<Rightarrow>
    ('k, 'cb, 't) Loop \<Rightarrow> fault + ('k, 'cb, 't) Loop" where
  "run_tasks os c [] l = Inr l"
| "run_tasks os c (task # tasks) l = and_then (run_task os c task l) (run_tasks os c tasks)"

text \<open>The wake branch of \<open>io_executor\<close>: drain the event descriptor, swap the queues, run, clear.\<close>

definition run_posted :: "'k os \<Rightarrow> ('k, 'cb, 't) client \<Rightarrow> ('k, 'cb, 't) Loop \<Rightarrow>
    fault + ('k, 'cb, 't) Loop" where
  "run_posted os c l =
     (case drain_counter os (io_wake_fd l) (kern l) of
        None \<Rightarrow> Inl Diverged
      | Some (err, k) \<Rightarrow>
          if err \<noteq> EAGAIN then Inl (SysFatal err)
          else let l1 = l\<lparr>kern := k, io_exe_queue := io_buffer_queue l, io_buffer_queue := io_exe_queue l\<rparr>
               in and_then (run_tasks os c (io_exe_queue l1) l1) (\<lambda>l2. Inr (l2\<lparr>io_exe_queue := []\<rparr>)))"

text \<open>\<open>wrapper_cb\<close> of \<open>LoopChannel::update_event\<close>: the callback runs only if its owner can be locked.\<close>

definition run_event_cb :: "('k, 'cb, 't) client \<Rightarrow> LifeChecker \<times> 'cb \<Rightarrow> EventType \<Rightarrow>
    ('k, 'cb, 't) Loop \<Rightarrow> fault + ('k, 'cb, 't) Loop" where
  "run_event_cb c cb types l = (if fst cb \<in> live l then run_callback c (snd cb) types l else Inr l)"

definition dispatch_event :: "('k, 'cb, 't) client \<Rightarrow> fd \<Rightarrow> u32 \<Rightarrow> ('k, 'cb, 't) Loop \<Rightarrow>
    fault + ('k, 'cb, 't) Loop" where
  "dispatch_event c fd ev l = with_event fd l (\<lambda>e.
     case ev_cb e of None \<Rightarrow> Inr l | Some cb \<Rightarrow> run_event_cb c cb (local_to_kz ev) l)"

fun io_events :: "'k os \<Rightarrow> ('k, 'cb, 't) client \<Rightarrow> (fd \<times> u32) list \<Rightarrow>
    ('k, 'cb, 't) Loop \<Rightarrow> fault + ('k, 'cb, 't) Loop" where
  "io_events os c [] l = Inr l"
| "io_events os c ((fd, ev) # evs) l =
     and_then (if fd = io_wake_fd l then run_posted os c l else dispatch_event c fd ev l)
       (io_events os c evs)"

text \<open>One turn of \<open>io_executor\<close> on what \<open>epoll_wait\<close> returned.\<close>

definition io_turn :: "'k os \<Rightarrow> ('k, 'cb, 't) client \<Rightarrow> (fd \<times> u32) list sysret \<Rightarrow>
    ('k, 'cb, 't) Loop \<Rightarrow> fault + ('k, 'cb, 't) Loop" where
  "io_turn os c ret l =
     (case ret of
        Inl err \<Rightarrow> if err = EINTR then Inr l else Inl (SysFatal err)
      | Inr evs \<Rightarrow> io_events os c evs l)"

text \<open>One turn of \<open>heavy_executor\<close>, after its wait: swap the queues, run, clear.\<close>

definition heavy_turn :: "'k os \<Rightarrow> ('k, 'cb, 't) client \<Rightarrow> ('k, 'cb, 't) Loop \<Rightarrow>
    fault + ('k, 'cb, 't) Loop" where
  "heavy_turn os c l =
     (let l1 = l\<lparr>heavy_exe_queue := heavy_buffer_queue l, heavy_buffer_queue := heavy_exe_queue l\<rparr>
      in and_then (run_tasks os c (heavy_exe_queue l1) l1) (\<lambda>l2. Inr (l2\<lparr>heavy_exe_queue := []\<rparr>)))"

section \<open>Invariant\<close>

definition registered :: "('k, 'cb, 't) Loop \<Rightarrow> fd \<Rightarrow> bool" where
  "registered l fd \<longleftrightarrow> 0 \<le> fd \<and> nat fd < length (events l) \<and> in_register (events l ! nat fd)"

text \<open>A descriptor in epoll is registered, and one that has a callback is in epoll.\<close>

definition event_ok :: "'cb Event \<Rightarrow> bool" where
  "event_ok e \<longleftrightarrow> (in_epoll e \<longrightarrow> in_register e) \<and> (ev_cb e \<noteq> None \<longrightarrow> in_epoll e)"

text \<open>
  The table is well formed, and the kernel watches nothing but the wake descriptor and
  registered ones. The converse does not hold: the flag \<open>in_epoll\<close> may be stale.
\<close>

definition loop_invar :: "('k \<Rightarrow> fd \<rightharpoonup> u32) \<Rightarrow> ('k, 'cb, 't) Loop \<Rightarrow> bool" where
  "loop_invar il l \<longleftrightarrow> list_all event_ok (events l) \<and>
     (\<forall>fd. il (kern l) fd \<noteq> None \<longrightarrow> fd = io_wake_fd l \<or> registered l fd)"

text \<open>The descriptor a task is about, and the closures that are about one.\<close>

fun task_fd :: "('cb, 't) LoopTask \<Rightarrow> fd option" where
  "task_fd (RegisterTask fd) = Some fd"
| "task_fd (UnregisterTask fd) = Some fd"
| "task_fd (EnableCbTask fd _ _ _) = Some fd"
| "task_fd (EnableTask fd _ _) = Some fd"
| "task_fd (DisableTask fd) = Some fd"
| "task_fd (WrapperTask _ _) = None"

section \<open>Lemmas\<close>

named_theorems loop_defs \<open>definitions the step proofs unfold\<close>

lemmas loop_unfold [loop_defs] = with_event_def set_event_def write_log_def Let_def

lemmas task_defs = register_task_def unregister_task_def enable_cb_task_def enable_task_def disable_task_def

lemma with_event_Inr:
  "with_event fd l f = Inr l' \<longleftrightarrow> 0 \<le> fd \<and> nat fd < length (events l) \<and> f (events l ! nat fd) = Inr l'"
  by (auto simp: with_event_def)

lemma write_log_fields [simp]:
  "events (write_log e l) = events l" "kern (write_log e l) = kern l" "live (write_log e l) = live l"
  "io_wake_fd (write_log e l) = io_wake_fd l" "io_buffer_queue (write_log e l) = io_buffer_queue l"
  "io_exe_queue (write_log e l) = io_exe_queue l" "heavy_buffer_queue (write_log e l) = heavy_buffer_queue l"
  "heavy_exe_queue (write_log e l) = heavy_exe_queue l" "elog (write_log e l) = elog l @ [e]"
  "epoll_fd (write_log e l) = epoll_fd l"
  by (simp_all add: write_log_def)

lemma set_event_fields [simp]:
  "events (set_event fd e l) = (events l)[nat fd := e]" "kern (set_event fd e l) = kern l"
  "live (set_event fd e l) = live l" "io_wake_fd (set_event fd e l) = io_wake_fd l"
  "io_buffer_queue (set_event fd e l) = io_buffer_queue l" "io_exe_queue (set_event fd e l) = io_exe_queue l"
  "heavy_buffer_queue (set_event fd e l) = heavy_buffer_queue l"
  "heavy_exe_queue (set_event fd e l) = heavy_exe_queue l" "elog (set_event fd e l) = elog l"
  "epoll_fd (set_event fd e l) = epoll_fd l"
  by (simp_all add: set_event_def)

text \<open>A successful registration: the table holds the descriptor and every old entry.\<close>

lemma register_task_Inr:
  "register_task fd l = Inr l' \<Longrightarrow>
   0 \<le> fd \<and> nat fd < length (events l') \<and> length (events l) \<le> length (events l') \<and>
   l' = l\<lparr>events := events l'\<rparr> \<and>
   (\<forall>i<length (events l'). events l' ! i =
      (let e = (if i < length (events l) then events l ! i else default_Event)
       in if i = nat fd then e\<lparr>in_register := True\<rparr> else e))"
  by (auto simp: register_task_def with_event_Inr Let_def vresize_def nth_list_update nth_append set_event_def
      split: if_splits)

lemma register_task_total: "0 \<le> fd \<Longrightarrow> \<exists>l'. register_task fd l = Inr l'"
  by (auto simp: register_task_def Let_def with_event_def)

text \<open>Every other descriptor task changes at most its own entry, and never the size of the table.\<close>

lemma epoll_set_cases:
  assumes "epoll_documented os il" and "epoll_set os flag fd ev k = (r, k')"
  shows "r = None \<and> il k' = (il k)(fd \<mapsto> ev) \<or>
    (\<exists>err. r = Some err \<and> il k' = il k \<and> err \<noteq> EEXIST \<and> err \<noteq> ENOENT)"
proof -
  note doc = epoll_documentedD [OF assms(1)]
  define op where "op = (if flag then EPOLL_CTL_MOD else EPOLL_CTL_ADD)"
  obtain r1 k1 where c1: "os_epoll_ctl os op fd ev k = (r1, k1)" by fastforce
  define op2 where "op2 = (if flag then EPOLL_CTL_ADD else EPOLL_CTL_MOD)"
  obtain r2 k2 where c2: "os_epoll_ctl os op2 fd ev k1 = (r2, k2)" by fastforce
  show ?thesis
  proof (cases r1)
    case (Inr u)
    then show ?thesis using assms(2) c1 doc(1) [OF c1]
      by (auto simp: epoll_set_def op_def split: if_splits)
  next
    case (Inl err)
    note il1 = doc(3) [OF c1 Inl]
    have d1: "err = EEXIST \<Longrightarrow> op = EPOLL_CTL_ADD \<and> il k fd \<noteq> None" "err = ENOENT \<Longrightarrow> op \<noteq> EPOLL_CTL_ADD \<and> il k fd = None"
      using doc(4,5) [OF c1] Inl by simp_all
    show ?thesis
    proof (cases "err = EEXIST \<or> err = ENOENT")
      case False
      then show ?thesis using assms(2) c1 Inl il1 by (auto simp: epoll_set_def op_def split: if_splits)
    next
      case True
      then have "epoll_set os flag fd ev k =
          (case r2 of Inr _ \<Rightarrow> (None, k2) | Inl err2 \<Rightarrow> (Some err2, k2))"
        using c1 c2 Inl d1 by (auto simp: epoll_set_def op_def op2_def split: if_splits sum.splits)
      moreover have "r2 = Inl e \<Longrightarrow> e \<noteq> EEXIST \<and> e \<noteq> ENOENT \<and> il k2 = il k" for e
        using doc(3) [OF c2, of e] doc(4,5) [OF c2] d1 il1 True by (cases flag) (auto simp: op_def op2_def)
      moreover have "r2 = Inr u \<Longrightarrow> il k2 = (il k)(fd \<mapsto> ev)" for u
        using doc(1) [OF c2] il1 by (auto simp: op2_def split: if_splits)
      ultimately show ?thesis using assms(2) by (auto split: sum.splits)
    qed
  qed
qed

text \<open>The entry of a descriptor, default-constructed beyond the end of the table.\<close>

definition entry :: "('k, 'cb, 't) Loop \<Rightarrow> nat \<Rightarrow> 'cb Event" where
  "entry l i = (if i < length (events l) then events l ! i else default_Event)"

text \<open>What every descriptor task may do: change its own entry and its own watch, and grow the table.\<close>

definition fd_effect :: "('k \<Rightarrow> fd \<rightharpoonup> u32) \<Rightarrow> fd \<Rightarrow> ('k, 'cb, 't) Loop \<Rightarrow> ('k, 'cb, 't) Loop \<Rightarrow> bool" where
  "fd_effect il fd l l' \<longleftrightarrow>
     0 \<le> fd \<and> nat fd < length (events l') \<and> length (events l) \<le> length (events l') \<and>
     io_wake_fd l' = io_wake_fd l \<and> live l' = live l \<and>
     io_buffer_queue l' = io_buffer_queue l \<and> heavy_buffer_queue l' = heavy_buffer_queue l \<and>
     (\<forall>i. i \<noteq> nat fd \<longrightarrow> entry l' i = entry l i) \<and>
     (event_ok (entry l (nat fd)) \<longrightarrow> event_ok (entry l' (nat fd))) \<and>
     (\<forall>fd'. fd' \<noteq> fd \<longrightarrow> il (kern l') fd' = il (kern l) fd') \<and>
     (il (kern l') fd \<noteq> None \<longrightarrow> in_register (entry l' (nat fd)) \<or>
        (il (kern l) fd \<noteq> None \<and> in_register (entry l' (nat fd)) = in_register (entry l (nat fd))))"

text \<open>Two shapes cover the tasks on an existing entry: it is kept, or it is replaced.\<close>

lemma fd_effect_keep:
  assumes "0 \<le> fd" "nat fd < length (events l)" "events l' = events l" "io_wake_fd l' = io_wake_fd l"
    "live l' = live l" "io_buffer_queue l' = io_buffer_queue l" "heavy_buffer_queue l' = heavy_buffer_queue l"
    "il (kern l') = il (kern l) \<or> il (kern l') = (il (kern l))(fd := None)"
  shows "fd_effect il fd l l'"
  using assms by (auto simp: fd_effect_def entry_def)

lemma fd_effect_set:
  assumes "0 \<le> fd" "nat fd < length (events l)" "events l' = (events l)[nat fd := e]"
    "io_wake_fd l' = io_wake_fd l" "live l' = live l" "io_buffer_queue l' = io_buffer_queue l"
    "heavy_buffer_queue l' = heavy_buffer_queue l" "event_ok (events l ! nat fd) \<longrightarrow> event_ok e"
    "il (kern l') = (il (kern l))(fd := w)" "w \<noteq> None \<longrightarrow> in_register e"
  shows "fd_effect il fd l l'"
  using assms by (auto simp: fd_effect_def entry_def nth_list_update)

lemma register_effect: "register_task fd l = Inr l' \<Longrightarrow> fd_effect il fd l l'"
proof -
  assume r: "register_task fd l = Inr l'"
  note facts = register_task_Inr [OF r]
  have eq: "l' = l\<lparr>events := events l'\<rparr>" using facts by blast
  have "event_ok e \<Longrightarrow> event_ok (e\<lparr>in_register := True\<rparr>)" for e :: "'b Event"
    by (simp add: event_ok_def)
  moreover have "io_wake_fd l' = io_wake_fd l" "live l' = live l" "kern l' = kern l"
    "io_buffer_queue l' = io_buffer_queue l" "heavy_buffer_queue l' = heavy_buffer_queue l"
    by (subst eq, simp)+
  moreover have "entry l' i = (if i = nat fd then (entry l i)\<lparr>in_register := True\<rparr> else entry l i)" for i
    using facts by (auto simp: entry_def Let_def)
  ultimately show ?thesis using facts by (simp add: fd_effect_def)
qed

lemma unwatch_fields [simp]:
  "events (unwatch os fd e l) = events l" "io_wake_fd (unwatch os fd e l) = io_wake_fd l"
  "live (unwatch os fd e l) = live l" "io_buffer_queue (unwatch os fd e l) = io_buffer_queue l"
  "heavy_buffer_queue (unwatch os fd e l) = heavy_buffer_queue l"
  by (simp_all add: unwatch_def split: prod.splits sum.splits)

lemma unwatch_il:
  assumes "epoll_documented os il"
  shows "il (kern (unwatch os fd e l)) = il (kern l) \<or> il (kern (unwatch os fd e l)) = (il (kern l))(fd := None)"
proof -
  obtain r k where ctl: "os_epoll_ctl os EPOLL_CTL_DEL fd 0 (kern l) = (r, k)" by fastforce
  then show ?thesis
    using epoll_documentedD(1,3) [OF assms ctl] by (cases r) (auto simp: unwatch_def)
qed

lemma unregister_effect:
  assumes "epoll_documented os il" and "unregister_task os fd l = Inr l'"
  shows "fd_effect il fd l l'"
proof -
  have rng: "0 \<le> fd" "nat fd < length (events l)"
    using assms(2) by (auto simp: unregister_task_def with_event_Inr)
  let ?e = "events l ! nat fd"
  let ?l1 = "unwatch os fd ?e l"
  note il1 = unwatch_il [OF assms(1), of fd ?e l]
  obtain rc kc where close: "os_close os fd (kern ?l1) = (rc, kc)" by fastforce
  consider (absent) "\<not> in_register ?e"
    | (failed) err where "in_register ?e" "rc = Inl err" | (closed) u where "in_register ?e" "rc = Inr u"
    by (cases rc) auto
  then show ?thesis
  proof cases
    case absent
    then show ?thesis using assms(2) rng
      by (auto simp: unregister_task_def with_event_Inr intro!: fd_effect_keep)
  next
    case failed
    then have "l' = write_log (LogSysError err) (?l1\<lparr>kern := kc\<rparr>)"
      using assms(2) close by (simp add: unregister_task_def with_event_Inr Let_def)
    moreover have "il kc = il (kern l) \<or> il kc = (il (kern l))(fd := None)"
      using close_documentedD(2) [OF assms(1) close] failed il1 by auto
    ultimately show ?thesis using rng by (auto intro!: fd_effect_keep)
  next
    case closed
    then have "l' = set_event fd (?e\<lparr>in_register := False, in_epoll := False, ev_cb := None\<rparr>) (?l1\<lparr>kern := kc\<rparr>)"
      using assms(2) close by (simp add: unregister_task_def with_event_Inr Let_def)
    moreover have "il kc = (il (kern l))(fd := None)"
      using close_documentedD(1) [OF assms(1) close] closed il1 by auto
    ultimately show ?thesis
      using rng by (intro fd_effect_set [where w = None and
          e = "?e\<lparr>in_register := False, in_epoll := False, ev_cb := None\<rparr>"]) (simp_all add: event_ok_def)
  qed
qed

text \<open>The two \<open>enable_fd\<close> overloads differ in the entry they leave.\<close>

definition enabled :: "'k os \<Rightarrow> fd \<Rightarrow> u32 \<Rightarrow> 'cb Event \<Rightarrow> ('k, 'cb, 't) Loop \<Rightarrow> fault + ('k, 'cb, 't) Loop" where
  "enabled os fd ev e l =
     (case epoll_set os (in_epoll (events l ! nat fd)) fd ev (kern l) of
        (Some err, k) \<Rightarrow> Inr (write_log (LogSysError err) (l\<lparr>kern := k\<rparr>))
      | (None, k) \<Rightarrow> Inr (set_event fd e (l\<lparr>kern := k\<rparr>)))"

lemma enable_cb_task_Inr:
  "enable_cb_task os fd types modes cb l = Inr l' \<longleftrightarrow> 0 \<le> fd \<and> nat fd < length (events l) \<and>
     (if in_register (events l ! nat fd)
      then \<exists>ev. epoll_bits_of types modes = Inr ev \<and>
        enabled os fd ev ((events l ! nat fd)\<lparr>in_epoll := True, ev_cb := Some cb\<rparr>) l = Inr l'
      else l' = write_log (LogInfo ''fd has not registered!'') l)"
  by (auto simp: enable_cb_task_def with_event_Inr enabled_def)

lemma enable_task_Inr:
  "enable_task os fd types modes l = Inr l' \<longleftrightarrow> 0 \<le> fd \<and> nat fd < length (events l) \<and>
     (if in_register (events l ! nat fd)
      then \<exists>ev. epoll_bits_of types modes = Inr ev \<and>
        enabled os fd ev ((events l ! nat fd)\<lparr>in_epoll := True\<rparr>) l = Inr l'
      else l' = write_log (LogInfo ''fd has not registered!'') l)"
  by (auto simp: enable_task_def with_event_Inr enabled_def)

lemma enabled_cases:
  assumes "epoll_documented os il" and "enabled os fd ev e l = Inr l'"
  obtains (ok) k where "l' = set_event fd e (l\<lparr>kern := k\<rparr>)" "il k = (il (kern l))(fd \<mapsto> ev)"
  | (failed) k err where "l' = write_log (LogSysError err) (l\<lparr>kern := k\<rparr>)" "il k = il (kern l)"
      "err \<noteq> EEXIST" "err \<noteq> ENOENT"
proof -
  obtain r k where set: "epoll_set os (in_epoll (events l ! nat fd)) fd ev (kern l) = (r, k)" by fastforce
  from epoll_set_cases [OF assms(1) set] assms(2) set show ?thesis
    by (auto simp: enabled_def intro: ok failed)
qed

lemma enabled_effect:
  assumes "epoll_documented os il" and "0 \<le> fd" "nat fd < length (events l)" and "in_register e"
    and "event_ok (events l ! nat fd) \<Longrightarrow> event_ok e" and "enabled os fd ev e l = Inr l'"
  shows "fd_effect il fd l l'"
  using assms(1,6)
proof (cases rule: enabled_cases)
  case (ok k)
  then show ?thesis using assms(2-5) by (intro fd_effect_set [where w = "Some ev" and e = e]) simp_all
next
  case (failed k err)
  then show ?thesis using assms(2,3) by (intro fd_effect_keep) simp_all
qed

lemma enable_cb_effect:
  assumes "epoll_documented os il" and "enable_cb_task os fd types modes cb l = Inr l'"
  shows "fd_effect il fd l l'"
  using assms(2) unfolding enable_cb_task_Inr
  by (auto simp: event_ok_def split: if_splits intro!: fd_effect_keep elim!: enabled_effect [OF assms(1), rotated 4])

lemma enable_effect:
  assumes "epoll_documented os il" and "enable_task os fd types modes l = Inr l'"
  shows "fd_effect il fd l l'"
  using assms(2) unfolding enable_task_Inr
  by (auto simp: event_ok_def split: if_splits intro!: fd_effect_keep elim!: enabled_effect [OF assms(1), rotated 4])

lemma disable_task_cases:
  assumes "epoll_documented os il" and "disable_task os fd l = Inr l'"
  obtains (absent) "\<not> in_register (events l ! nat fd)" "l' = write_log (LogInfo ''fd has not registered!'') l"
  | (removed) k where "in_register (events l ! nat fd)"
      "l' = set_event fd ((events l ! nat fd)\<lparr>in_epoll := False, ev_cb := None\<rparr>) (l\<lparr>kern := k\<rparr>)"
      "il k = (il (kern l))(fd := None)"
  | (failed) k err where "in_register (events l ! nat fd)" "l' = write_log (LogSysError err) (l\<lparr>kern := k\<rparr>)"
      "il k = il (kern l)" "err \<noteq> ENOENT"
proof -
  obtain r k where ctl: "os_epoll_ctl os EPOLL_CTL_DEL fd 0 (kern l) = (r, k)" by fastforce
  have idem: "il (kern l) fd = None \<Longrightarrow> (il (kern l))(fd := None) = il (kern l)" by (simp add: fun_upd_idem)
  show ?thesis
    using assms(2) ctl epoll_documentedD(1,3,5) [OF assms(1) ctl] idem
    by (cases r; cases "in_register (events l ! nat fd)")
      (auto simp: disable_task_def with_event_Inr split: if_splits intro: absent removed failed)
qed

lemma disable_effect:
  assumes "epoll_documented os il" and "disable_task os fd l = Inr l'"
  shows "fd_effect il fd l l'"
proof -
  have rng: "0 \<le> fd" "nat fd < length (events l)"
    using assms(2) by (auto simp: disable_task_def with_event_Inr)
  from assms show ?thesis
  proof (cases rule: disable_task_cases)
    case absent
    then show ?thesis using rng by (intro fd_effect_keep) simp_all
  next
    case (removed k)
    then show ?thesis using rng by (intro fd_effect_set [where w = None and
          e = "(events l ! nat fd)\<lparr>in_epoll := False, ev_cb := None\<rparr>"]) (simp_all add: event_ok_def)
  next
    case (failed k err)
    then show ?thesis using rng by (intro fd_effect_keep) simp_all
  qed
qed

lemma task_effect:
  assumes "epoll_documented os il" and "run_task os c t l = Inr l'" and "task_fd t = Some fd"
  shows "fd_effect il fd l l'"
  using assms
  by (cases t) (auto intro: register_effect unregister_effect enable_cb_effect enable_effect disable_effect)

lemma registered_entry: "registered l fd \<longleftrightarrow> 0 \<le> fd \<and> in_register (entry l (nat fd))"
  by (auto simp: registered_def entry_def default_Event_def)

lemma events_ok_entry: "list_all event_ok (events l) \<longleftrightarrow> (\<forall>i. event_ok (entry l i))"
  by (auto simp: list_all_length entry_def) (simp add: event_ok_def default_Event_def)

lemma fd_effect_invar:
  assumes "loop_invar il l" and "fd_effect il fd l l'"
  shows "loop_invar il l'"
proof -
  have "event_ok (entry l' i)" for i
    using assms unfolding loop_invar_def events_ok_entry fd_effect_def by (cases "i = nat fd") auto
  moreover have "fd' = io_wake_fd l' \<or> registered l' fd'" if "il (kern l') fd' \<noteq> None" for fd'
  proof (cases "fd' = fd")
    case True
    then show ?thesis using assms that unfolding loop_invar_def fd_effect_def registered_entry by metis
  next
    case False
    then have "nat fd' \<noteq> nat fd" if "0 \<le> fd'"
      using that assms(2) by (simp add: fd_effect_def eq_nat_nat_iff)
    then show ?thesis
      using False assms that unfolding loop_invar_def fd_effect_def registered_entry by metis
  qed
  ultimately show ?thesis unfolding loop_invar_def events_ok_entry by blast
qed

text \<open>What is asked of a client: its closures keep a property of the state.\<close>

definition client_keeps :: "('k, 'cb, 't) client \<Rightarrow> (('k, 'cb, 't) Loop \<Rightarrow> bool) \<Rightarrow> bool" where
  "client_keeps c P \<longleftrightarrow> (\<forall>t l l'. P l \<longrightarrow> run_closure c t l = Inr l' \<longrightarrow> P l')"

lemma run_task_invar:
  assumes "epoll_documented os il" and "client_keeps c (loop_invar il)" and "loop_invar il l"
    and "run_task os c t l = Inr l'"
  shows "loop_invar il l'"
proof (cases "task_fd t")
  case None
  then obtain life u where "t = WrapperTask life u" by (cases t) auto
  then show ?thesis using assms(2-4) by (auto simp: client_keeps_def split: if_splits)
next
  case (Some fd)
  then show ?thesis using fd_effect_invar [OF assms(3) task_effect [OF assms(1,4)]] by blast
qed

lemma run_tasks_invar:
  assumes "epoll_documented os il" and "client_keeps c (loop_invar il)"
  shows "loop_invar il l \<Longrightarrow> run_tasks os c ts l = Inr l' \<Longrightarrow> loop_invar il l'"
  by (induction ts arbitrary: l) (auto dest: run_task_invar [OF assms])

lemma loop_invar_make: "il k = [w \<mapsto> ev] \<Longrightarrow> loop_invar il (make_Loop ep w k lv)"
  by (auto simp: loop_invar_def make_Loop_def list_all_iff event_ok_def default_Event_def split: if_splits)

text \<open>A task that is about a descriptor in the table, or registers one, does not leave the table.\<close>

definition in_table :: "('k, 'cb, 't) Loop \<Rightarrow> fd \<Rightarrow> bool" where
  "in_table l fd \<longleftrightarrow> 0 \<le> fd \<and> nat fd < length (events l)"

definition client_in_range :: "('k, 'cb, 't) client \<Rightarrow> bool" where
  "client_in_range c \<longleftrightarrow> (\<forall>t l. (\<forall>l'. run_closure c t l = Inr l' \<longrightarrow> length (events l) \<le> length (events l')) \<and>
     (\<forall>fd. run_closure c t l \<noteq> Inl (OutOfRange fd)))"

text \<open>
  The order the channels keep: every descriptor is registered by an earlier closure, or is in
  \<open>known\<close>, before another closure is about it.
\<close>

fun disciplined :: "fd list \<Rightarrow> ('cb, 't) LoopTask list \<Rightarrow> bool" where
  "disciplined known [] = True"
| "disciplined known (RegisterTask fd # ts) = (0 \<le> fd \<and> disciplined (fd # known) ts)"
| "disciplined known (WrapperTask life u # ts) = disciplined known ts"
| "disciplined known (t # ts) = ((\<exists>fd\<in>set known. task_fd t = Some fd) \<and> disciplined known ts)"

lemma enabled_length: "enabled os fd ev e l = Inr l' \<Longrightarrow> length (events l') = length (events l)"
  by (cases "epoll_set os (in_epoll (events l ! nat fd)) fd ev (kern l)")
    (auto simp: enabled_def split: option.splits)

lemma task_in_range:
  assumes "client_in_range c"
    and "case t of RegisterTask fd \<Rightarrow> 0 \<le> fd | _ \<Rightarrow> (\<forall>fd. task_fd t = Some fd \<longrightarrow> in_table l fd)"
  shows "run_task os c t l \<noteq> Inl (OutOfRange fd)"
    and "run_task os c t l = Inr l' \<Longrightarrow> length (events l) \<le> length (events l')"
    and "run_task os c t l = Inr l' \<Longrightarrow> t = RegisterTask fd' \<Longrightarrow> in_table l' fd'"
proof -
  have len: "length (events (unwatch os f e l)) = length (events l)" for f e by simp
  show "run_task os c t l \<noteq> Inl (OutOfRange fd)"
  proof (cases t)
    case (RegisterTask f)
    then show ?thesis using assms(2) register_task_total [of f l] by fastforce
  next
    case (WrapperTask life u)
    then show ?thesis using assms(1) by (simp add: client_in_range_def)
  next
    case (EnableCbTask f ty m cb)
    then show ?thesis using assms(2)
      by (cases "epoll_bits_of ty m") (auto simp: in_table_def enable_cb_task_def with_event_def epoll_bits_of_def
          split: prod.splits option.splits if_splits)
  next
    case (EnableTask f ty m)
    then show ?thesis using assms(2)
      by (cases "epoll_bits_of ty m") (auto simp: in_table_def enable_task_def with_event_def epoll_bits_of_def
          split: prod.splits option.splits if_splits)
  qed (use assms(2) in \<open>auto simp: in_table_def unregister_task_def disable_task_def with_event_def Let_def
      split: prod.splits sum.splits if_splits\<close>)
  show "length (events l) \<le> length (events l')" if "run_task os c t l = Inr l'"
    using that assms(1)
    by (cases t) (auto simp: client_in_range_def register_task_def unregister_task_def enable_cb_task_Inr enable_task_Inr
        disable_task_def with_event_Inr Let_def split: prod.splits sum.splits if_splits dest: enabled_length)
  show "in_table l' fd'" if "run_task os c t l = Inr l'" "t = RegisterTask fd'"
    using that register_task_Inr [of fd' l l'] by (auto simp: in_table_def)
qed

lemma run_tasks_in_range:
  assumes "client_in_range c"
  shows "disciplined known ts \<Longrightarrow> list_all (in_table l) known \<Longrightarrow> run_tasks os c ts l \<noteq> Inl (OutOfRange fd)"
proof (induction ts arbitrary: known l)
  case (Cons t ts)
  have pre: "case t of RegisterTask fd \<Rightarrow> 0 \<le> fd | _ \<Rightarrow> (\<forall>fd. task_fd t = Some fd \<longrightarrow> in_table l fd)"
    using Cons.prems by (cases t) (auto simp: list_all_iff)
  note range = task_in_range [OF assms pre]
  show ?case
  proof (cases "run_task os c t l")
    case (Inl f)
    then show ?thesis using range(1) [of os fd] by simp
  next
    case (Inr l')
    have keep: "list_all (in_table l') known"
      using Cons.prems(2) range(2) [OF Inr] by (auto simp: list_all_iff in_table_def)
    obtain known' where "disciplined known' ts" and "list_all (in_table l') known'"
    proof (cases t)
      case (RegisterTask fd')
      then show thesis using that [of "fd' # known"] Cons.prems(1) keep range(3) [OF Inr] by simp
    qed (use that [of known] Cons.prems(1) keep in auto)
    then have "run_tasks os c ts l' \<noteq> Inl (OutOfRange fd)" by (rule Cons.IH)
    with Inr show ?thesis by simp
  qed
qed simp

section \<open>Properties\<close>

text \<open>
  C2. The descriptor table stays consistent with the kernel: whatever batch of closures an io
  turn runs, registrations, removals, changed watches and clients' closures in any order, a
  descriptor in epoll stays registered, one with a callback stays in epoll, and the kernel never
  watches anything but the wake descriptor and registered descriptors.
\<close>

theorem loop_invariant_kept:
  assumes "epoll_documented os il" and "client_keeps c (loop_invar il)" and "loop_invar il l"
    and "run_tasks os c ts l = Inr l'"
  shows "loop_invar il l'"
  using run_tasks_invar [OF assms(1,2)] assms(3,4) by blast

text \<open>A client for the concrete instances: closures that log, callbacks that log.\<close>

definition log_client :: "('k, string, string) client" where
  "log_client = \<lparr>run_closure = (\<lambda>t l. Inr (write_log (LogInfo t) l)),
     run_callback = (\<lambda>cb ev l. Inr (write_log (LogInfo cb) l))\<rparr>"

definition demo_loop :: "(kstate, string, string) Loop" where
  "demo_loop = \<lparr>epoll_fd = 3, io_wake_fd = 4, events = replicate 2 default_Event,
     io_exe_queue = [], io_buffer_queue = [], heavy_exe_queue = [], heavy_buffer_queue = [],
     heavy_wakes = 0, kern = k_init\<lparr>k_interest := [4 \<mapsto> 1]\<rparr>, live = {7}, elog = []\<rparr>"

lemma log_client_keeps: "client_keeps log_client (loop_invar il)"
  by (auto simp: client_keeps_def log_client_def loop_invar_def registered_def)

lemma demo_loop_invar: "loop_invar k_interest demo_loop"
  by (auto simp: loop_invar_def demo_loop_def event_ok_def default_Event_def list_all_iff split: if_splits)

lemma demo_register: "register_task 5 demo_loop = Inr (demo_loop\<lparr>events :=
    replicate 5 default_Event @ [default_Event\<lparr>in_register := True\<rparr>]\<rparr>)"
  by (simp add: register_task_def demo_loop_def Let_def with_event_def set_event_def vresize_def
      default_Event_def eval_nat_numeral)

theorem loop_invariant_kept_witness:
  "run_tasks ref_os log_client [RegisterTask 5, WrapperTask 7 ''x''] demo_loop =
     Inr (demo_loop\<lparr>events := replicate 5 default_Event @ [default_Event\<lparr>in_register := True\<rparr>],
       elog := [LogInfo ''x'']\<rparr>) \<and>
   loop_invar k_interest (demo_loop\<lparr>events := replicate 5 default_Event @ [default_Event\<lparr>in_register := True\<rparr>],
       elog := [LogInfo ''x'']\<rparr>)"
proof -
  have r: "run_tasks ref_os log_client [RegisterTask 5, WrapperTask 7 ''x''] demo_loop =
     Inr (demo_loop\<lparr>events := replicate 5 default_Event @ [default_Event\<lparr>in_register := True\<rparr>],
       elog := [LogInfo ''x'']\<rparr>)"
    by (simp add: demo_register log_client_def write_log_def) (simp add: demo_loop_def)
  show ?thesis
    using r loop_invariant_kept [OF ref_os_epoll log_client_keeps demo_loop_invar r] by blast
qed

text \<open>
  C22. Enabling a registered descriptor does what it says whatever the flag \<open>in_epoll\<close> remembers:
  either the kernel watches exactly the requested bits and the callback is installed, or epoll
  failed for a reason other than \<open>EEXIST\<close> and \<open>ENOENT\<close>, the failure is logged, and the table and
  the watch are as before.
\<close>

theorem enable_installs_watch:
  assumes "epoll_documented os il" and "registered l fd"
    and "enable_cb_task os fd types modes cb l = Inr l'"
  shows "(\<exists>ev. epoll_bits_of types modes = Inr ev \<and> il (kern l') = (il (kern l))(fd \<mapsto> ev) \<and>
      ev_cb (events l' ! nat fd) = Some cb \<and> in_epoll (events l' ! nat fd) \<and> elog l' = elog l) \<or>
    (\<exists>err. err \<noteq> EEXIST \<and> err \<noteq> ENOENT \<and> elog l' = elog l @ [LogSysError err] \<and>
      events l' = events l \<and> il (kern l') = il (kern l))"
proof -
  let ?e = "(events l ! nat fd)\<lparr>in_epoll := True, ev_cb := Some cb\<rparr>"
  obtain ev where ev: "epoll_bits_of types modes = Inr ev" and en: "enabled os fd ev ?e l = Inr l'"
    using assms(2,3) by (auto simp: enable_cb_task_Inr registered_def)
  from assms(1) en show ?thesis
  proof (cases rule: enabled_cases)
    case (ok k)
    then show ?thesis using ev assms(2) by (auto simp: registered_def)
  next
    case (failed k err)
    then show ?thesis by auto
  qed
qed

text \<open>A table with one registered descriptor, and the same after watching it for reading.\<close>

definition demo_registered :: "(kstate, string, string) Loop" where
  "demo_registered = demo_loop\<lparr>events := [default_Event\<lparr>in_register := True\<rparr>]\<rparr>"

definition demo_watched :: "(kstate, string, string) Loop" where
  "demo_watched = demo_loop\<lparr>events := [\<lparr>in_register = True, in_epoll = True, ev_cb = Some (7, ''cb'')\<rparr>],
     kern := k_init\<lparr>k_interest := [4 \<mapsto> 1, 0 \<mapsto> 0x80000001]\<rparr>\<rparr>"

lemma epoll_bits_read: "epoll_bits_of kRead kDefault = Inr 0x80000001"
  by (simp add: epoll_bits_of_def kz_to_local_def kz_to_local_mode_def event_tables event_consts Let_def)

lemma demo_enable: "enable_cb_task ref_os 0 kRead kDefault (7, ''cb'') demo_registered = Inr demo_watched"
  by (simp add: enable_cb_task_def demo_registered_def demo_watched_def demo_loop_def with_event_def
      epoll_bits_read epoll_set_def ref_os_def k_epoll_ctl_def set_event_def default_Event_def)

theorem enable_installs_watch_witness:
  "registered demo_registered 0 \<and>
   enable_cb_task ref_os 0 kRead kDefault (7, ''cb'') demo_registered = Inr demo_watched \<and>
   k_interest (kern demo_watched) = (k_interest (kern demo_registered))(0 \<mapsto> 0x80000001)"
proof -
  have reg: "registered demo_registered 0" by (simp add: registered_def demo_registered_def)
  have "elog demo_watched = elog demo_registered" by (simp add: demo_watched_def demo_registered_def)
  with enable_installs_watch [OF ref_os_epoll reg demo_enable] reg demo_enable show ?thesis
    by (auto simp: epoll_bits_read)
qed

text \<open>
  C23. After a successful \<open>disable_fd\<close> or \<open>unregister_fd\<close> of a registered descriptor no event of it
  reaches a callback any more, not even one epoll had already reported, and the kernel does not
  watch it; if the system call failed, that was logged.
\<close>

theorem removed_descriptor_is_silent:
  assumes "epoll_documented os il" and "registered l fd"
    and "disable_task os fd l = Inr l' \<or> unregister_task os fd l = Inr l'"
    and "elog l' = elog l"
  shows "dispatch_event c fd ev l' = Inr l' \<and> il (kern l') fd = None"
  using assms(3)
proof
  assume "disable_task os fd l = Inr l'"
  with assms(1) show ?thesis
  proof (cases rule: disable_task_cases)
    case (removed k)
    then show ?thesis using assms(2) by (simp add: dispatch_event_def with_event_def registered_def)
  qed (use assms(2,4) in \<open>auto simp: registered_def\<close>)
next
  assume un: "unregister_task os fd l = Inr l'"
  let ?l1 = "unwatch os fd (events l ! nat fd) l"
  have log1: "\<exists>es. elog ?l1 = elog l @ es" by (auto simp: unwatch_def split: prod.splits sum.splits)
  obtain rc kc where close: "os_close os fd (kern ?l1) = (rc, kc)" by fastforce
  show ?thesis
  proof (cases rc)
    case (Inl err)
    then have "elog l' = elog ?l1 @ [LogSysError err]"
      using un close assms(2) by (auto simp: unregister_task_def with_event_Inr Let_def registered_def)
    then show ?thesis using log1 assms(4) by auto
  next
    case (Inr u)
    then show ?thesis
      using un close assms(2) close_documentedD(1) [OF assms(1) close]
      by (auto simp: unregister_task_def with_event_Inr Let_def registered_def dispatch_event_def with_event_def)
  qed
qed

theorem removed_descriptor_is_silent_witness:
  "\<exists>l'. disable_task ref_os 0 demo_watched = Inr l' \<and> elog l' = [] \<and>
     dispatch_event log_client 0 EPOLLIN demo_watched \<noteq> Inr demo_watched \<and>
     dispatch_event log_client 0 EPOLLIN l' = Inr l' \<and> k_interest (kern l') 0 = None"
proof -
  have reg: "registered demo_watched 0" by (simp add: registered_def demo_watched_def)
  have before: "dispatch_event log_client 0 EPOLLIN demo_watched \<noteq> Inr demo_watched"
    by (simp add: dispatch_event_def with_event_def demo_watched_def demo_loop_def run_event_cb_def
        log_client_def write_log_def)
  obtain l' where l': "disable_task ref_os 0 demo_watched = Inr l'" "elog l' = []"
    by (simp add: disable_task_def with_event_def demo_watched_def demo_loop_def ref_os_def k_epoll_ctl_def
        set_event_def)
  moreover have "elog demo_watched = []" by (simp add: demo_watched_def demo_loop_def)
  ultimately show ?thesis
    using removed_descriptor_is_silent [OF ref_os_epoll reg, of l' log_client EPOLLIN] before by auto
qed

text \<open>
  No closure indexes outside the descriptor table: if every descriptor was registered by an
  earlier closure before another closure is about it, running the batch never subscripts
  \<open>events_\<close> out of range, however far the descriptor lies beyond the initial table.
\<close>

theorem disciplined_tasks_in_range:
  assumes "client_in_range c" and "disciplined [] ts"
  shows "run_tasks os c ts l \<noteq> Inl (OutOfRange fd)"
  using run_tasks_in_range [OF assms] by simp

theorem disciplined_tasks_in_range_witness:
  "disciplined [] [RegisterTask 900, EnableTask 900 kRead kDefault, UnregisterTask 900 :: (string, string) LoopTask] \<and>
   run_tasks ref_os log_client [RegisterTask 900, EnableTask 900 kRead kDefault, UnregisterTask 900] demo_loop
     \<noteq> Inl (OutOfRange 900)"
proof -
  have "client_in_range log_client" by (simp add: client_in_range_def log_client_def)
  from disciplined_tasks_in_range [OF this, of "[RegisterTask 900, EnableTask 900 kRead kDefault, UnregisterTask 900]"
      ref_os demo_loop 900]
  show ?thesis by simp
qed

text \<open>
  Registration grows the table by at least half (or to the descriptor, if that is further),
  keeps every existing entry, and leaves every other new entry unregistered.
\<close>

theorem register_grows_table:
  assumes "0 \<le> fd"
  shows "\<exists>l'. register_task fd l = Inr l' \<and> registered l' fd \<and>
    (length (events l') = length (events l) \<or>
      nat fd \<ge> length (events l) \<and> length (events l') = max (nat fd + 1) (length (events l) + length (events l) div 2)) \<and>
    (\<forall>fd'. fd' \<noteq> fd \<longrightarrow> registered l' fd' = registered l fd') \<and>
    (\<forall>i<length (events l). i \<noteq> nat fd \<longrightarrow> events l' ! i = events l ! i)"
proof -
  obtain l' where l': "register_task fd l = Inr l'" using register_task_total [OF assms] by blast
  note facts = register_task_Inr [OF l']
  have entry: "entry l' i = (if i = nat fd then (entry l i)\<lparr>in_register := True\<rparr> else entry l i)" for i
    using facts by (auto simp: entry_def Let_def)
  have "registered l' fd' = registered l fd'" if "fd' \<noteq> fd" for fd'
    using that assms by (auto simp: registered_entry entry eq_nat_nat_iff)
  moreover have "length (events l') = length (events l) \<or>
      nat fd \<ge> length (events l) \<and> length (events l') = max (nat fd + 1) (length (events l) + length (events l) div 2)"
    using l' by (auto simp: register_task_def with_event_Inr Let_def max_def split: if_splits)
  ultimately show ?thesis using l' facts assms by (auto simp: registered_entry entry Let_def)
qed

theorem register_grows_table_witness:
  "\<exists>l'. register_task 5 demo_loop = Inr l' \<and> registered l' 5 \<and> length (events l') = 6"
proof -
  have "(0 :: fd) \<le> 5" by simp
  from register_grows_table [OF this, of demo_loop] show ?thesis
    by (auto simp: demo_register)
qed

text \<open>
  The destructor closes the epoll descriptor, the wake descriptor and every descriptor still
  registered, each of them once and nothing else.
\<close>

theorem destroy_closes_registered:
  "destroy_Loop os l = write_log (LogInfo ''loop delete successfully!'')
     (fold (close_logged os) (epoll_fd l # io_wake_fd l # filter (registered l) (map int [0..<length (events l)])) l) \<and>
   (\<forall>fd. registered l fd \<longleftrightarrow> fd \<in> set (filter (registered l) (map int [0..<length (events l)]))) \<and>
   distinct (filter (registered l) (map int [0..<length (events l)]))"
proof -
  have io: "io_wake_fd (close_logged os fd l) = io_wake_fd l" for fd
    by (simp add: close_logged_def split: prod.splits sum.splits)
  have aux: "close_registered os (int n) es l' =
      fold (close_logged os) (filter (\<lambda>fd. in_register (es ! (nat fd - n))) (map int [n..<n + length es])) l'" for n es l'
  proof (induction es arbitrary: n l')
    case (Cons e es)
    have split: "[n..<n + length (e # es)] = n # [Suc n..<Suc n + length es]"
      using upt_conv_Cons [of n "n + length (e # es)"] by (simp del: upt_Suc)
    have "filter (\<lambda>fd. in_register ((e # es) ! (nat fd - n))) (map int [Suc n..<Suc n + length es]) =
        filter (\<lambda>fd. in_register (es ! (nat fd - Suc n))) (map int [Suc n..<Suc n + length es])"
      by (rule filter_cong) (auto simp: nth_Cons' Suc_diff_Suc)
    then show ?case
      using Cons.IH [of "Suc n"] unfolding split by (simp add: add.commute)
  qed simp
  have "filter (registered l) (map int [0..<length (events l)]) =
      filter (\<lambda>fd. in_register (events l ! (nat fd - 0))) (map int [0..<0 + length (events l)])"
    by (rule filter_cong) (auto simp: registered_def)
  then have "destroy_Loop os l = write_log (LogInfo ''loop delete successfully!'')
     (fold (close_logged os) (epoll_fd l # io_wake_fd l # filter (registered l) (map int [0..<length (events l)])) l)"
    using aux [of 0 "events l" "close_logged os (io_wake_fd l) (close_logged os (epoll_fd l) l)"]
    by (simp add: destroy_Loop_def Let_def io)
  moreover have "registered l fd \<Longrightarrow> fd \<in> int ` {0..<length (events l)}" for fd
    unfolding registered_def by (metis atLeastLessThan_iff image_eqI int_nat_eq zero_le)
  ultimately show ?thesis by (auto simp: distinct_map)
qed

end
