(* ===== verification/Loop_Threads.thy ===== *)
theory Loop_Threads
  imports Interfaces
begin

text \<open>
  The two executor threads of a \<open>Loop\<close> and the thread that owns it (\<open>start\<close>, \<open>stop\<close>,
  \<open>io_executor\<close>, \<open>heavy_executor\<close>, \<open>post_io_task\<close>, \<open>post_heavy_task\<close> of \<open>src/core.cpp\<close>), as a step
  relation whose steps are the points where threads can interleave. The owner calls \<open>start\<close>
  and \<open>stop\<close>; any number of other threads post. Some posted closures (\<open>calls_stop\<close>) call
  \<open>stop\<close> from inside an executor. The event descriptor has a counter (zero or not) and, being
  watched edge-triggered, a pending edge; \<open>notify_one\<close> wakes the heavy thread only if it is
  already blocked. \<open>io_done\<close>, \<open>io_posted\<close> and their heavy counterparts record what was run
  and posted. What a closure does to the descriptor table is the subject of \<open>Loop_Core\<close>.
\<close>

section \<open>State\<close>

datatype ExeState = Stopped | Running | Stopping

datatype io_loc = IoNone | IoTop | IoWait | IoDrain | IoSwap | IoExec | IoExit

datatype heavy_loc = HNone | HTop | HCheck | HPred | HBlocked | HSwap | HExec | HStopJoin | HExit

datatype ctl_loc = CIdle
  | CS_cas | CS_io | CS_joinio | CS_heavy | CS_joinheavy | CS_set
  | CT_io | CT_joinio | CT_heavy | CT_joinheavy | CT_cas | CT_spawn_io | CT_spawn_heavy

record 't threads =
  exe_state :: ExeState
  io_pc :: io_loc
  heavy_pc :: heavy_loc
  ctl_pc :: ctl_loc
  io_buf :: "'t list"
  io_exe :: "'t list"
  io_done :: "'t list"
  io_posted :: "'t list"
  io_wakers :: nat
  io_edge :: bool
  io_cnt :: bool
  heavy_buf :: "'t list"
  heavy_exe :: "'t list"
  heavy_done :: "'t list"
  heavy_posted :: "'t list"
  heavy_wakers :: nat

definition init_threads :: "'t threads" where
  "init_threads = \<lparr>exe_state = Stopped, io_pc = IoNone, heavy_pc = HNone, ctl_pc = CIdle,
     io_buf = [], io_exe = [], io_done = [], io_posted = [], io_wakers = 0, io_edge = False,
     io_cnt = False, heavy_buf = [], heavy_exe = [], heavy_done = [], heavy_posted = [],
     heavy_wakers = 0\<rparr>"

text \<open>\<open>exe_state_.compare_exchange_strong(Running, Stopping)\<close>.\<close>

definition cas_stopping :: "ExeState \<Rightarrow> ExeState" where
  "cas_stopping x = (if x = Running then Stopping else x)"

text \<open>\<open>notify_one\<close>: only a thread that is blocked in the wait notices.\<close>

definition notified :: "heavy_loc \<Rightarrow> heavy_loc" where
  "notified h = (if h = HBlocked then HCheck else h)"

text \<open>The heavy thread holds \<open>heavy_queue_mtx_\<close>.\<close>

definition heavy_locked :: "heavy_loc \<Rightarrow> bool" where
  "heavy_locked h \<longleftrightarrow> h = HCheck \<or> h = HPred \<or> h = HSwap"

datatype agent = Ctl | IoThread | HeavyThread | Poster | Spurious | Other | StopCallback

section \<open>Queue operations\<close>

definition io_push :: "'t \<Rightarrow> 't threads \<Rightarrow> 't threads" where
  "io_push t s = s\<lparr>io_buf := io_buf s @ [t], io_posted := io_posted s @ [t], io_wakers := Suc (io_wakers s)\<rparr>"

definition io_swap :: "'t threads \<Rightarrow> 't threads" where
  "io_swap s = s\<lparr>io_exe := io_buf s, io_buf := io_exe s, io_pc := IoExec\<rparr>"

definition io_next :: "('t \<Rightarrow> bool) \<Rightarrow> 't threads \<Rightarrow> 't threads" where
  "io_next calls_stop s = (case io_exe s of [] \<Rightarrow> s | t # ts \<Rightarrow>
     s\<lparr>io_exe := ts, io_done := io_done s @ [t],
       exe_state := (if calls_stop t then cas_stopping (exe_state s) else exe_state s)\<rparr>)"

definition heavy_push :: "'t \<Rightarrow> 't threads \<Rightarrow> 't threads" where
  "heavy_push t s = s\<lparr>heavy_buf := heavy_buf s @ [t], heavy_posted := heavy_posted s @ [t],
     heavy_wakers := Suc (heavy_wakers s)\<rparr>"

definition heavy_swap :: "'t threads \<Rightarrow> 't threads" where
  "heavy_swap s = s\<lparr>heavy_exe := heavy_buf s, heavy_buf := heavy_exe s, heavy_pc := HExec\<rparr>"

text \<open>
  A closure on the heavy thread that calls \<open>stop\<close> also wakes the io thread and waits for it
  to end, unless there is none.
\<close>

definition heavy_next :: "('t \<Rightarrow> bool) \<Rightarrow> 't threads \<Rightarrow> 't threads" where
  "heavy_next calls_stop s = (case heavy_exe s of [] \<Rightarrow> s | t # ts \<Rightarrow>
     let s1 = s\<lparr>heavy_exe := ts, heavy_done := heavy_done s @ [t]\<rparr>
     in if \<not> calls_stop t then s1
        else if io_pc s = IoNone then s1\<lparr>exe_state := cas_stopping (exe_state s)\<rparr>
        else s1\<lparr>exe_state := cas_stopping (exe_state s), io_edge := True, io_cnt := True,
                heavy_pc := HStopJoin\<rparr>)"

section \<open>Steps\<close>

inductive step :: "('t \<Rightarrow> bool) \<Rightarrow> agent \<Rightarrow> 't threads \<Rightarrow> 't threads \<Rightarrow> bool" for calls_stop where
  \<comment> \<open>\<open>Loop::stop\<close> on the owner's thread\<close>
  stop_call: "ctl_pc s = CIdle \<Longrightarrow> step calls_stop Ctl s (s\<lparr>ctl_pc := CS_cas\<rparr>)"
| stop_cas: "ctl_pc s = CS_cas \<Longrightarrow>
    step calls_stop Ctl s (s\<lparr>exe_state := cas_stopping (exe_state s), ctl_pc := CS_io\<rparr>)"
| stop_io_none: "ctl_pc s = CS_io \<Longrightarrow> io_pc s = IoNone \<Longrightarrow> step calls_stop Ctl s (s\<lparr>ctl_pc := CS_heavy\<rparr>)"
| stop_io_wake: "ctl_pc s = CS_io \<Longrightarrow> io_pc s \<noteq> IoNone \<Longrightarrow>
    step calls_stop Ctl s (s\<lparr>io_edge := True, io_cnt := True, ctl_pc := CS_joinio\<rparr>)"
| stop_io_join: "ctl_pc s = CS_joinio \<Longrightarrow> io_pc s = IoExit \<Longrightarrow>
    step calls_stop Ctl s (s\<lparr>io_pc := IoNone, ctl_pc := CS_heavy\<rparr>)"
| stop_heavy_none: "ctl_pc s = CS_heavy \<Longrightarrow> heavy_pc s = HNone \<Longrightarrow>
    step calls_stop Ctl s (s\<lparr>ctl_pc := CS_set\<rparr>)"
| stop_heavy_wake: "ctl_pc s = CS_heavy \<Longrightarrow> heavy_pc s \<noteq> HNone \<Longrightarrow>
    step calls_stop Ctl s (s\<lparr>heavy_pc := notified (heavy_pc s), ctl_pc := CS_joinheavy\<rparr>)"
| stop_heavy_join: "ctl_pc s = CS_joinheavy \<Longrightarrow> heavy_pc s = HExit \<Longrightarrow>
    step calls_stop Ctl s (s\<lparr>heavy_pc := HNone, ctl_pc := CS_set\<rparr>)"
| stop_set: "ctl_pc s = CS_set \<Longrightarrow> step calls_stop Ctl s (s\<lparr>exe_state := Stopped, ctl_pc := CIdle\<rparr>)"
  \<comment> \<open>\<open>Loop::start\<close> on the owner's thread\<close>
| start_call: "ctl_pc s = CIdle \<Longrightarrow> step calls_stop Ctl s (s\<lparr>ctl_pc := CT_io\<rparr>)"
| start_io_none: "ctl_pc s = CT_io \<Longrightarrow> io_pc s = IoNone \<Longrightarrow> step calls_stop Ctl s (s\<lparr>ctl_pc := CT_heavy\<rparr>)"
| start_io: "ctl_pc s = CT_io \<Longrightarrow> io_pc s \<noteq> IoNone \<Longrightarrow> step calls_stop Ctl s (s\<lparr>ctl_pc := CT_joinio\<rparr>)"
| start_io_join: "ctl_pc s = CT_joinio \<Longrightarrow> io_pc s = IoExit \<Longrightarrow>
    step calls_stop Ctl s (s\<lparr>io_pc := IoNone, exe_state := Stopped, ctl_pc := CT_heavy\<rparr>)"
| start_heavy_none: "ctl_pc s = CT_heavy \<Longrightarrow> heavy_pc s = HNone \<Longrightarrow>
    step calls_stop Ctl s (s\<lparr>ctl_pc := CT_cas\<rparr>)"
| start_heavy: "ctl_pc s = CT_heavy \<Longrightarrow> heavy_pc s \<noteq> HNone \<Longrightarrow>
    step calls_stop Ctl s (s\<lparr>ctl_pc := CT_joinheavy\<rparr>)"
| start_heavy_join: "ctl_pc s = CT_joinheavy \<Longrightarrow> heavy_pc s = HExit \<Longrightarrow>
    step calls_stop Ctl s (s\<lparr>heavy_pc := HNone, exe_state := Stopped, ctl_pc := CT_cas\<rparr>)"
| start_refused: "ctl_pc s = CT_cas \<Longrightarrow> exe_state s \<noteq> Stopped \<Longrightarrow>
    step calls_stop Ctl s (s\<lparr>ctl_pc := CIdle\<rparr>)"
| start_cas: "ctl_pc s = CT_cas \<Longrightarrow> exe_state s = Stopped \<Longrightarrow>
    step calls_stop Ctl s (s\<lparr>exe_state := Running, ctl_pc := CT_spawn_io\<rparr>)"
| start_spawn_io: "ctl_pc s = CT_spawn_io \<Longrightarrow>
    step calls_stop Ctl s (s\<lparr>io_pc := IoTop, ctl_pc := CT_spawn_heavy\<rparr>)"
| start_spawn_heavy: "ctl_pc s = CT_spawn_heavy \<Longrightarrow>
    step calls_stop Ctl s (s\<lparr>heavy_pc := HTop, ctl_pc := CIdle\<rparr>)"
  \<comment> \<open>\<open>Loop::io_executor\<close>\<close>
| io_top: "io_pc s = IoTop \<Longrightarrow> exe_state s = Running \<Longrightarrow> step calls_stop IoThread s (s\<lparr>io_pc := IoWait\<rparr>)"
| io_exit: "io_pc s = IoTop \<Longrightarrow> exe_state s \<noteq> Running \<Longrightarrow> step calls_stop IoThread s (s\<lparr>io_pc := IoExit\<rparr>)"
| io_other: "io_pc s = IoWait \<Longrightarrow> step calls_stop Other s (s\<lparr>io_pc := IoTop\<rparr>)"
  \<comment> \<open>the callback of another descriptor; a \<open>stop\<close> in it returns at once, as on the io thread\<close>
| io_other_stop: "io_pc s = IoWait \<Longrightarrow>
    step calls_stop StopCallback s (s\<lparr>exe_state := cas_stopping (exe_state s), io_pc := IoTop\<rparr>)"
| io_wake: "io_pc s = IoWait \<Longrightarrow> io_edge s \<Longrightarrow> io_cnt s \<Longrightarrow>
    step calls_stop IoThread s (s\<lparr>io_edge := False, io_pc := IoDrain\<rparr>)"
| io_stale: "io_pc s = IoWait \<Longrightarrow> io_edge s \<Longrightarrow> \<not> io_cnt s \<Longrightarrow>
    step calls_stop IoThread s (s\<lparr>io_edge := False\<rparr>)"
| io_drain: "io_pc s = IoDrain \<Longrightarrow> step calls_stop IoThread s (s\<lparr>io_cnt := False, io_pc := IoSwap\<rparr>)"
| io_do_swap: "io_pc s = IoSwap \<Longrightarrow> step calls_stop IoThread s (io_swap s)"
| io_run: "io_pc s = IoExec \<Longrightarrow> io_exe s \<noteq> [] \<Longrightarrow> step calls_stop IoThread s (io_next calls_stop s)"
| io_batch_end: "io_pc s = IoExec \<Longrightarrow> io_exe s = [] \<Longrightarrow> step calls_stop IoThread s (s\<lparr>io_pc := IoTop\<rparr>)"
  \<comment> \<open>\<open>Loop::heavy_executor\<close>\<close>
| heavy_top: "heavy_pc s = HTop \<Longrightarrow> exe_state s = Running \<Longrightarrow>
    step calls_stop HeavyThread s (s\<lparr>heavy_pc := HCheck\<rparr>)"
| heavy_exit: "heavy_pc s = HTop \<Longrightarrow> exe_state s \<noteq> Running \<Longrightarrow>
    step calls_stop HeavyThread s (s\<lparr>heavy_pc := HExit\<rparr>)"
| heavy_pred_false: "heavy_pc s = HCheck \<Longrightarrow> heavy_buf s = [] \<Longrightarrow> exe_state s = Running \<Longrightarrow>
    step calls_stop HeavyThread s (s\<lparr>heavy_pc := HPred\<rparr>)"
| heavy_pred_true: "heavy_pc s = HCheck \<Longrightarrow> heavy_buf s \<noteq> [] \<or> exe_state s \<noteq> Running \<Longrightarrow>
    step calls_stop HeavyThread s (s\<lparr>heavy_pc := HSwap\<rparr>)"
| heavy_block: "heavy_pc s = HPred \<Longrightarrow> step calls_stop HeavyThread s (s\<lparr>heavy_pc := HBlocked\<rparr>)"
| heavy_do_swap: "heavy_pc s = HSwap \<Longrightarrow> step calls_stop HeavyThread s (heavy_swap s)"
| heavy_run: "heavy_pc s = HExec \<Longrightarrow> heavy_exe s \<noteq> [] \<Longrightarrow>
    step calls_stop HeavyThread s (heavy_next calls_stop s)"
| heavy_stop_join: "heavy_pc s = HStopJoin \<Longrightarrow> io_pc s = IoExit \<Longrightarrow>
    step calls_stop HeavyThread s (s\<lparr>io_pc := IoNone, heavy_pc := HExec\<rparr>)"
| heavy_batch_end: "heavy_pc s = HExec \<Longrightarrow> heavy_exe s = [] \<Longrightarrow>
    step calls_stop HeavyThread s (s\<lparr>heavy_pc := HTop\<rparr>)"
  \<comment> \<open>a condition variable may wake its waiter for no reason\<close>
| heavy_spurious: "heavy_pc s = HBlocked \<Longrightarrow> step calls_stop Spurious s (s\<lparr>heavy_pc := HCheck\<rparr>)"
  \<comment> \<open>\<open>Loop::post_io_task\<close> and \<open>Loop::post_heavy_task\<close>, on any thread\<close>
| post_io_push: "step calls_stop Poster s (io_push t s)"
| post_io_wake: "io_wakers s > 0 \<Longrightarrow>
    step calls_stop Poster s (s\<lparr>io_wakers := io_wakers s - 1, io_edge := True, io_cnt := True\<rparr>)"
| post_heavy_push: "\<not> heavy_locked (heavy_pc s) \<Longrightarrow> step calls_stop Poster s (heavy_push t s)"
| post_heavy_wake: "heavy_wakers s > 0 \<Longrightarrow>
    step calls_stop Poster s (s\<lparr>heavy_wakers := heavy_wakers s - 1, heavy_pc := notified (heavy_pc s)\<rparr>)"

inductive reach :: "('t \<Rightarrow> bool) \<Rightarrow> 't threads \<Rightarrow> bool" for calls_stop where
  reach_init: "reach calls_stop init_threads"
| reach_step: "reach calls_stop s \<Longrightarrow> step calls_stop a s s' \<Longrightarrow> reach calls_stop s'"

section \<open>Invariant\<close>

interpretation ioq: task_queue io_buf io_exe io_done io_posted io_push io_swap "io_next calls_stop"
  for calls_stop
  by unfold_locales (auto simp: io_push_def io_swap_def io_next_def split: list.splits)

interpretation heavyq: task_queue heavy_buf heavy_exe heavy_done heavy_posted heavy_push heavy_swap
  "heavy_next calls_stop" for calls_stop
  by unfold_locales (auto simp: heavy_push_def heavy_swap_def heavy_next_def Let_def split: list.splits)

text \<open>Both queues keep what was posted, and a batch is only open while its thread runs it.\<close>

definition queues_inv :: "'t threads \<Rightarrow> bool" where
  "queues_inv s \<longleftrightarrow>
     io_done s @ io_exe s @ io_buf s = io_posted s \<and> (io_exe s \<noteq> [] \<longrightarrow> io_pc s = IoExec) \<and>
     heavy_done s @ heavy_exe s @ heavy_buf s = heavy_posted s \<and>
     (heavy_exe s \<noteq> [] \<longrightarrow> heavy_pc s = HExec \<or> heavy_pc s = HStopJoin)"

text \<open>Where a waiting closure is, someone still has to look at the queue.\<close>

definition wake_inv :: "'t threads \<Rightarrow> bool" where
  "wake_inv s \<longleftrightarrow>
     (io_buf s \<noteq> [] \<longrightarrow> io_wakers s > 0 \<or> (io_edge s \<and> io_cnt s) \<or> io_pc s = IoDrain \<or> io_pc s = IoSwap) \<and>
     (heavy_buf s \<noteq> [] \<longrightarrow> heavy_pc s = HBlocked \<longrightarrow> heavy_wakers s > 0) \<and>
     (heavy_pc s = HPred \<longrightarrow> heavy_buf s = [])"

text \<open>What \<open>start\<close> and \<open>stop\<close> know of the threads and of \<open>exe_state_\<close> at each point.\<close>

definition in_stop :: "ctl_loc \<Rightarrow> bool" where
  "in_stop c \<longleftrightarrow> c \<in> {CS_io, CS_joinio, CS_heavy, CS_joinheavy, CS_set}"

definition ctl_inv :: "('t \<Rightarrow> bool) \<Rightarrow> 't threads \<Rightarrow> bool" where
  "ctl_inv cs s \<longleftrightarrow>
     (ctl_pc s \<in> {CT_heavy, CT_joinheavy, CT_cas, CT_spawn_io, CS_heavy, CS_joinheavy, CS_set} \<longrightarrow> io_pc s = IoNone) \<and>
     (ctl_pc s \<in> {CT_cas, CT_spawn_io, CT_spawn_heavy, CS_set} \<longrightarrow> heavy_pc s = HNone) \<and>
     (ctl_pc s = CT_spawn_heavy \<longrightarrow> io_pc s \<noteq> IoNone) \<and>
     (ctl_pc s \<in> {CS_joinheavy, CT_joinheavy} \<longrightarrow> heavy_pc s \<noteq> HNone) \<and>
     (in_stop (ctl_pc s) \<longrightarrow> exe_state s \<noteq> Running) \<and>
     (ctl_pc s = CS_joinio \<and> io_pc s = IoWait \<longrightarrow> io_edge s \<and> io_cnt s) \<and>
     (io_pc s = IoNone \<and> heavy_pc s = HNone \<and> ctl_pc s \<in> {CIdle, CT_io, CT_heavy, CT_cas} \<longrightarrow> exe_state s = Stopped) \<and>
     (io_pc s = IoExit \<longrightarrow> exe_state s \<noteq> Running) \<and>
     (heavy_pc s = HStopJoin \<longrightarrow> (\<exists>t\<in>set (heavy_done s). cs t)) \<and>
     (ctl_pc s \<in> {CS_joinio, CT_joinio} \<and> io_pc s = IoNone \<longrightarrow> (\<exists>t\<in>set (heavy_done s). cs t))"

text \<open>What the queue operations leave alone.\<close>

lemma io_next_frame [simp]:
  "io_pc (io_next cs s) = io_pc s" "ctl_pc (io_next cs s) = ctl_pc s" "heavy_pc (io_next cs s) = heavy_pc s"
  "io_wakers (io_next cs s) = io_wakers s" "io_edge (io_next cs s) = io_edge s" "io_cnt (io_next cs s) = io_cnt s"
  "heavy_buf (io_next cs s) = heavy_buf s" "heavy_exe (io_next cs s) = heavy_exe s"
  "heavy_done (io_next cs s) = heavy_done s" "heavy_posted (io_next cs s) = heavy_posted s"
  "heavy_wakers (io_next cs s) = heavy_wakers s"
  by (simp_all add: io_next_def split: list.splits)

lemma io_next_state: "exe_state (io_next cs s) = exe_state s \<or> exe_state (io_next cs s) = cas_stopping (exe_state s)"
  by (simp add: io_next_def split: list.splits)

lemma heavy_next_frame [simp]:
  "io_pc (heavy_next cs s) = io_pc s" "ctl_pc (heavy_next cs s) = ctl_pc s"
  "io_wakers (heavy_next cs s) = io_wakers s" "heavy_wakers (heavy_next cs s) = heavy_wakers s"
  "io_buf (heavy_next cs s) = io_buf s" "io_exe (heavy_next cs s) = io_exe s"
  "io_done (heavy_next cs s) = io_done s" "io_posted (heavy_next cs s) = io_posted s"
  by (simp_all add: heavy_next_def Let_def split: list.splits)

lemma heavy_next_cases:
  obtains (plain) "heavy_pc (heavy_next cs s) = heavy_pc s" "io_edge (heavy_next cs s) = io_edge s"
      "io_cnt (heavy_next cs s) = io_cnt s" "set (heavy_done s) \<subseteq> set (heavy_done (heavy_next cs s))"
      "exe_state (heavy_next cs s) = exe_state s \<or> exe_state (heavy_next cs s) = cas_stopping (exe_state s)"
  | (join) "heavy_pc (heavy_next cs s) = HStopJoin" "io_edge (heavy_next cs s)" "io_cnt (heavy_next cs s)"
      "set (heavy_done s) \<subseteq> set (heavy_done (heavy_next cs s))" "\<exists>t\<in>set (heavy_done (heavy_next cs s)). cs t"
      "exe_state (heavy_next cs s) = cas_stopping (exe_state s)"
  by (cases "heavy_exe s"; cases "cs (hd (heavy_exe s))"; cases "io_pc s = IoNone")
    (auto simp: heavy_next_def)

lemmas push_swap_defs = io_push_def io_swap_def heavy_push_def heavy_swap_def

lemma ctl_inv_step: "step cs a s s' \<Longrightarrow> ctl_inv cs s \<Longrightarrow> ctl_inv cs s'"
proof (induction rule: step.induct)
  case (io_run s)
  then show ?case using io_next_state [of cs s]
    by (auto simp: ctl_inv_def cas_stopping_def split: if_splits)
next
  case (heavy_run s)
  then show ?case
    by (cases rule: heavy_next_cases [of cs s])
      (auto simp: ctl_inv_def in_stop_def cas_stopping_def split: if_splits)
qed (simp_all add: ctl_inv_def in_stop_def notified_def cas_stopping_def push_swap_defs, auto)

lemma queues_inv_step: "step cs a s s' \<Longrightarrow> ctl_inv cs s \<Longrightarrow> queues_inv s \<Longrightarrow> queues_inv s'"
proof (induction rule: step.induct)
  case (io_do_swap s)
  then show ?case using ioq.swap_balanced [of s] by (auto simp: queues_inv_def io_swap_def)
next
  case (io_run s)
  then show ?case using ioq.next_balanced [of s cs] by (auto simp: queues_inv_def)
next
  case (heavy_do_swap s)
  then show ?case using heavyq.swap_balanced [of s] by (auto simp: queues_inv_def heavy_swap_def)
next
  case (heavy_run s)
  then show ?case using heavyq.next_balanced [of s cs]
    by (cases rule: heavy_next_cases [of cs s]) (auto simp: queues_inv_def)
next
  case (post_io_push s t)
  then show ?case using ioq.post_balanced [of s t] by (auto simp: queues_inv_def io_push_def)
next
  case (post_heavy_push s t)
  then show ?case using heavyq.post_balanced [of s t] by (auto simp: queues_inv_def heavy_push_def)
next
  case (start_spawn_io s)
  then have "io_pc s = IoNone" by (simp add: ctl_inv_def)
  with start_spawn_io show ?case by (auto simp: queues_inv_def)
next
  case (start_spawn_heavy s)
  then have "heavy_pc s = HNone" by (simp add: ctl_inv_def)
  with start_spawn_heavy show ?case by (auto simp: queues_inv_def)
qed (simp_all add: queues_inv_def notified_def, auto)

lemma wake_inv_step: "step cs a s s' \<Longrightarrow> ctl_inv cs s \<Longrightarrow> queues_inv s \<Longrightarrow> wake_inv s \<Longrightarrow> wake_inv s'"
proof (induction rule: step.induct)
  case (heavy_run s)
  then show ?case
    by (cases rule: heavy_next_cases [of cs s]) (auto simp: wake_inv_def heavyq.next_frame)
next
  case (io_do_swap s)
  then have "io_exe s = []" by (auto simp: queues_inv_def)
  with io_do_swap show ?case by (simp add: wake_inv_def io_swap_def)
next
  case (start_spawn_io s)
  then have "io_pc s = IoNone" by (simp add: ctl_inv_def)
  with start_spawn_io show ?case by (auto simp: wake_inv_def)
next
  case (heavy_do_swap s)
  then have "heavy_exe s = []" by (auto simp: queues_inv_def)
  with heavy_do_swap show ?case by (simp add: wake_inv_def heavy_swap_def)
qed (simp_all add: wake_inv_def notified_def heavy_locked_def push_swap_defs ioq.next_frame, auto?)

lemma reach_inv: "reach cs s \<Longrightarrow> queues_inv s \<and> wake_inv s \<and> ctl_inv cs s"
proof (induction rule: reach.induct)
  case reach_init
  show ?case
    by (simp add: init_threads_def queues_inv_def wake_inv_def ctl_inv_def in_stop_def)
next
  case (reach_step s a s')
  then show ?case using queues_inv_step wake_inv_step ctl_inv_step by blast
qed

section \<open>A running loop\<close>

text \<open>A loop that was started and has nothing to do: both threads asleep.\<close>

definition running_idle :: "'t threads" where
  "running_idle = init_threads\<lparr>exe_state := Running, io_pc := IoWait, heavy_pc := HBlocked\<rparr>"

lemma reach_started: "reach cs (init_threads\<lparr>exe_state := Running, io_pc := IoWait, heavy_pc := HPred\<rparr>)"
proof -
  note r0 = reach.reach_init [of cs]
  note r1 = reach_step [OF r0 start_call, simplified init_threads_def, simplified]
  note r2 = reach_step [OF r1 start_io_none, simplified]
  note r3 = reach_step [OF r2 start_heavy_none, simplified]
  note r4 = reach_step [OF r3 start_cas, simplified]
  note r5 = reach_step [OF r4 start_spawn_io, simplified]
  note r6 = reach_step [OF r5 start_spawn_heavy, simplified]
  note r7 = reach_step [OF r6 io_top, simplified]
  note r8 = reach_step [OF r7 heavy_top, simplified]
  note r9 = reach_step [OF r8 heavy_pred_false, simplified]
  show ?thesis using r9 by (simp add: init_threads_def)
qed

lemma reach_running_idle: "reach cs running_idle"
  using reach_step [OF reach_started heavy_block] by (simp add: running_idle_def)

section \<open>Properties\<close>

text \<open>Case analysis of one step by the thread that takes it.\<close>

inductive_cases ctl_stepE: "step cs Ctl s s'"
inductive_cases io_stepE: "step cs IoThread s s'"
inductive_cases heavy_stepE: "step cs HeavyThread s s'"

text \<open>
  C1. Exactly once and in order: at every moment, for each executor, the closures it has run,
  the rest of the batch it is running and the closures waiting in the buffer are, in this order,
  all the closures ever posted to it, through any number of starts and stops.
\<close>

theorem tasks_run_once_in_order:
  assumes "reach calls_stop s"
  shows "io_done s @ io_exe s @ io_buf s = io_posted s \<and>
    heavy_done s @ heavy_exe s @ heavy_buf s = heavy_posted s"
  using reach_inv [OF assms] by (simp add: queues_inv_def)

theorem tasks_run_once_in_order_witness:
  "reach (\<lambda>t. t = 9) (io_push 9 (io_push (1::nat) running_idle)) \<and>
   io_done (io_push 9 (io_push 1 running_idle)) @ io_exe (io_push 9 (io_push 1 running_idle)) @
     io_buf (io_push 9 (io_push 1 running_idle)) = [1, 9::nat]"
proof -
  have r: "reach (\<lambda>t. t = 9) (io_push 9 (io_push (1::nat) running_idle))"
    by (intro reach_step [OF _ post_io_push] reach_running_idle)
  have "io_posted (io_push 9 (io_push 1 running_idle)) = [1, 9::nat]"
    by (simp add: io_push_def running_idle_def init_threads_def)
  with r tasks_run_once_in_order [OF r] show ?thesis by simp
qed

text \<open>
  C8. No wake-up of a posted closure is lost: when the io thread sleeps in \<open>epoll_wait\<close> with
  nothing to report and no poster is between its push and its write, no io closure is waiting;
  when the heavy thread is blocked and no poster is about to notify, no heavy closure is waiting.
\<close>

theorem no_posted_task_forgotten:
  assumes "reach calls_stop s"
  shows "(io_pc s = IoWait \<and> io_wakers s = 0 \<and> \<not> (io_edge s \<and> io_cnt s) \<longrightarrow> io_buf s = []) \<and>
    (heavy_pc s = HBlocked \<and> heavy_wakers s = 0 \<longrightarrow> heavy_buf s = [])"
  using reach_inv [OF assms] by (auto simp: wake_inv_def)

theorem no_posted_task_forgotten_witness:
  "reach (\<lambda>t. t) (running_idle :: bool threads) \<and> io_pc (running_idle :: bool threads) = IoWait \<and>
   heavy_pc (running_idle :: bool threads) = HBlocked \<and>
   io_buf (running_idle :: bool threads) = [] \<and> heavy_buf (running_idle :: bool threads) = []"
  using no_posted_task_forgotten [OF reach_running_idle [of "\<lambda>t :: bool. t"]] reach_running_idle
  by (simp add: running_idle_def init_threads_def)

text \<open>
  \<open>start\<close> never assigns to a \<open>std::thread\<close> that is still joinable, which would call
  \<open>std::terminate\<close>; and when the owner gets to the exchange from \<open>Stopped\<close> to \<open>Running\<close> it
  always succeeds, so that the branch that returns false there is dead for the owner.
\<close>

theorem start_never_overwrites_thread:
  assumes "reach calls_stop s"
  shows "(ctl_pc s = CT_spawn_io \<longrightarrow> io_pc s = IoNone \<and> heavy_pc s = HNone) \<and>
    (ctl_pc s = CT_spawn_heavy \<longrightarrow> heavy_pc s = HNone) \<and>
    (ctl_pc s = CT_cas \<longrightarrow> exe_state s = Stopped)"
  using reach_inv [OF assms] by (simp add: ctl_inv_def)

lemma reach_first_cas: "reach cs (init_threads\<lparr>ctl_pc := CT_cas\<rparr>)"
proof -
  note r1 = reach_step [OF reach_init [of cs] start_call, simplified init_threads_def, simplified]
  note r2 = reach_step [OF r1 start_io_none, simplified]
  note r3 = reach_step [OF r2 start_heavy_none, simplified]
  show ?thesis using r3 by (simp add: init_threads_def)
qed

theorem start_never_overwrites_thread_witness:
  "reach (\<lambda>t. t) (init_threads\<lparr>ctl_pc := CT_cas\<rparr> :: bool threads) \<and>
   exe_state (init_threads\<lparr>ctl_pc := CT_cas\<rparr> :: bool threads) = Stopped"
  using start_never_overwrites_thread [OF reach_first_cas [of "\<lambda>t :: bool. t"]] reach_first_cas by simp

text \<open>The state in which no thread of the program can move: only the kernel, a poster or a spurious wake-up can.\<close>

definition stuck :: "('t \<Rightarrow> bool) \<Rightarrow> 't threads \<Rightarrow> bool" where
  "stuck cs s \<longleftrightarrow> (\<forall>a s'. a \<in> {Ctl, IoThread, HeavyThread} \<longrightarrow> \<not> step cs a s s')"

lemma stuck_not_step: "stuck cs s \<Longrightarrow> a \<in> {Ctl, IoThread, HeavyThread} \<Longrightarrow> step cs a s s' \<Longrightarrow> False"
  unfolding stuck_def by blast

lemma stuck_io: "stuck cs s \<Longrightarrow> io_pc s = IoNone \<or> io_pc s = IoExit \<or> (io_pc s = IoWait \<and> \<not> io_edge s)"
  using stuck_not_step [of cs s IoThread]
  by (cases "io_pc s") (blast intro: step.intros)+

lemma stuck_heavy: "stuck cs s \<Longrightarrow>
    heavy_pc s = HNone \<or> heavy_pc s = HExit \<or> heavy_pc s = HBlocked \<or> heavy_pc s = HStopJoin"
  using stuck_not_step [of cs s HeavyThread]
  by (cases "heavy_pc s") (blast intro: step.intros)+

lemma stuck_stop: "stuck cs s \<Longrightarrow> ctl_pc s = CS_cas \<or> in_stop (ctl_pc s) \<Longrightarrow>
    (ctl_pc s = CS_joinio \<and> io_pc s \<noteq> IoExit) \<or> (ctl_pc s = CS_joinheavy \<and> heavy_pc s \<noteq> HExit)"
  using stuck_not_step [of cs s Ctl]
  by (cases "ctl_pc s"; cases "io_pc s = IoNone"; cases "heavy_pc s = HNone")
    (auto simp: in_stop_def intro: step.intros)

text \<open>
  When no closure on the heavy thread calls \<open>stop\<close>, the only way the owner's \<open>stop\<close> can hang
  is in its last join, on a heavy thread blocked in its wait: the join of the io thread
  always gets through.
\<close>

theorem stop_hangs_only_in_heavy_join:
  assumes "reach calls_stop s" and "ctl_pc s = CS_cas \<or> in_stop (ctl_pc s)" and "stuck calls_stop s"
    and "\<not> list_ex calls_stop (heavy_posted s)"
  shows "ctl_pc s = CS_joinheavy \<and> heavy_pc s = HBlocked"
proof -
  have inv: "queues_inv s" "ctl_inv calls_stop s" using reach_inv [OF assms(1)] by auto
  have no_stop: "\<not> (\<exists>t\<in>set (heavy_done s). calls_stop t)"
    using assms(4) inv(1) unfolding queues_inv_def list_ex_iff by (metis UnI1 set_append)
  then have "heavy_pc s \<noteq> HStopJoin" using inv(2) by (auto simp: ctl_inv_def)
  moreover have "\<not> (ctl_pc s = CS_joinio \<and> io_pc s \<noteq> IoExit)"
    using stuck_io [OF assms(3)] inv(2) no_stop by (auto simp: ctl_inv_def)
  moreover have "\<not> (ctl_pc s = CS_joinheavy \<and> heavy_pc s = HNone)"
    using inv(2) by (auto simp: ctl_inv_def)
  ultimately show ?thesis
    using stuck_stop [OF assms(3,2)] stuck_heavy [OF assms(3)] by blast
qed

text \<open>A run in which the notification of \<open>stop\<close> falls between the predicate and the wait.\<close>

lemma reach_stop_hang:
  "reach cs (init_threads\<lparr>exe_state := Stopping, heavy_pc := HBlocked, ctl_pc := CS_joinheavy\<rparr>)"
proof -
  note r0 = reach_started [of cs, simplified init_threads_def, simplified]
  note r1 = reach_step [OF r0 stop_call, simplified]
  note r2 = reach_step [OF r1 stop_cas, simplified cas_stopping_def, simplified]
  note r3 = reach_step [OF r2 stop_io_wake, simplified]
  note r4 = reach_step [OF r3 io_wake, simplified]
  note r5 = reach_step [OF r4 io_drain, simplified]
  note r6 = reach_step [OF r5 io_do_swap, simplified io_swap_def, simplified]
  note r7 = reach_step [OF r6 io_batch_end, simplified]
  note r8 = reach_step [OF r7 io_exit, simplified]
  note r9 = reach_step [OF r8 stop_io_join, simplified]
  note r10 = reach_step [OF r9 stop_heavy_wake, simplified notified_def, simplified]
  note r11 = reach_step [OF r10 heavy_block, simplified]
  show ?thesis using r11 by (simp add: init_threads_def)
qed

lemma stuck_joins:
  assumes "io_pc s = IoNone" "heavy_pc s = HBlocked" "ctl_pc s = CS_joinheavy \<or> ctl_pc s = CT_joinheavy"
  shows "stuck cs s"
  using assms unfolding stuck_def by (auto elim: ctl_stepE io_stepE heavy_stepE)

theorem stop_hangs_only_in_heavy_join_witness:
  "stuck (\<lambda>t. t) (init_threads\<lparr>exe_state := Stopping, heavy_pc := HBlocked, ctl_pc := CS_joinheavy\<rparr> :: bool threads) \<and>
   heavy_pc (init_threads\<lparr>exe_state := Stopping, heavy_pc := HBlocked, ctl_pc := CS_joinheavy\<rparr> :: bool threads) = HBlocked"
proof -
  let ?s = "init_threads\<lparr>exe_state := Stopping, heavy_pc := HBlocked, ctl_pc := CS_joinheavy\<rparr> :: bool threads"
  have st: "stuck (\<lambda>t. t) ?s" by (rule stuck_joins) (simp_all add: init_threads_def)
  have "\<not> list_ex (\<lambda>t. t) (heavy_posted ?s)" by (simp add: init_threads_def)
  with stop_hangs_only_in_heavy_join [OF reach_stop_hang _ st] st show ?thesis
    by (simp add: in_stop_def)
qed

text \<open>
  C34. \<open>stop\<close> can lose its own wake-up: it changes \<open>exe_state_\<close> and notifies without holding
  \<open>heavy_queue_mtx_\<close>, so the notification can fall between the heavy thread's test of the
  predicate and its wait. There is a reachable state where the owner joins a heavy thread
  that stays blocked, and no thread of the program can move.
\<close>

theorem stop_loses_notification:
  "\<exists>s. reach calls_stop s \<and> ctl_pc s = CS_joinheavy \<and> exe_state s = Stopping \<and>
     heavy_pc s = HBlocked \<and> heavy_wakers s = 0 \<and> stuck calls_stop s"
  by (rule exI [of _ "init_threads\<lparr>exe_state := Stopping, heavy_pc := HBlocked, ctl_pc := CS_joinheavy\<rparr>"])
    (use reach_stop_hang [of calls_stop] in \<open>simp add: init_threads_def stuck_joins\<close>)

lemma reach_restart_hang:
  "reach (\<lambda>t. t) (init_threads\<lparr>heavy_pc := HBlocked, ctl_pc := CT_joinheavy,
     io_done := [True], io_posted := [True]\<rparr>)"
proof -
  note r0 = reach_running_idle [of "\<lambda>t. t", simplified running_idle_def init_threads_def, simplified]
  note r1 = reach_step [OF r0 post_io_push [of _ _ True], simplified io_push_def, simplified]
  note r2 = reach_step [OF r1 post_io_wake, simplified]
  note r3 = reach_step [OF r2 io_wake, simplified]
  note r4 = reach_step [OF r3 io_drain, simplified]
  note r5 = reach_step [OF r4 io_do_swap, simplified io_swap_def, simplified]
  note r6 = reach_step [OF r5 io_run, simplified io_next_def cas_stopping_def, simplified]
  note r7 = reach_step [OF r6 io_batch_end, simplified]
  note r8 = reach_step [OF r7 io_exit, simplified]
  note r9 = reach_step [OF r8 start_call, simplified]
  note r10 = reach_step [OF r9 start_io, simplified]
  note r11 = reach_step [OF r10 start_io_join, simplified]
  note r12 = reach_step [OF r11 start_heavy, simplified]
  show ?thesis using r12 by (simp add: init_threads_def)
qed

text \<open>
  A loop stopped by one of its own io closures cannot be started again: that \<open>stop\<close>
  returns before it wakes the heavy thread, and \<open>start\<close> joins the heavy thread without waking
  it. There is a reachable state where the owner waits in \<open>start\<close> for a blocked heavy thread
  and no thread of the program can move.
\<close>

theorem restart_after_inloop_stop_hangs:
  "\<exists>s. reach (\<lambda>t. t) s \<and> io_done s = [True] \<and> ctl_pc s = CT_joinheavy \<and>
     heavy_pc s = HBlocked \<and> heavy_wakers s = 0 \<and> stuck (\<lambda>t. t) s"
  by (rule exI [of _ "init_threads\<lparr>heavy_pc := HBlocked, ctl_pc := CT_joinheavy,
        io_done := [True], io_posted := [True]\<rparr>"])
    (use reach_restart_hang in \<open>simp add: init_threads_def stuck_joins\<close>)

lemma second_start_step:
  assumes "step (\<lambda>_. False) a s s'" and "reach (\<lambda>_. False) s"
    and "ctl_pc s = CT_joinio" and "exe_state s = Running" and "a \<noteq> StopCallback"
  shows "ctl_pc s' = CT_joinio \<and> exe_state s' = Running"
proof -
  have "io_pc s \<noteq> IoExit" using reach_inv [OF assms(2)] assms(4) by (auto simp: ctl_inv_def)
  with assms(1,3-5) show ?thesis
    by (cases rule: step.cases)
      (auto simp: io_swap_def io_next_def heavy_swap_def heavy_next_def io_push_def heavy_push_def split: list.splits)
qed

text \<open>
  A second \<open>start\<close> on a running loop never returns: it joins the io thread, which runs on,
  before it looks at \<open>exe_state_\<close>. As long as no closure and no callback calls \<open>stop\<close>, every execution from there
  leaves the owner in that join.
\<close>

theorem second_start_never_returns:
  assumes "reach (\<lambda>_. False) s" and "ctl_pc s = CT_joinio" and "exe_state s = Running"
    and "(\<lambda>x y. \<exists>a. a \<noteq> StopCallback \<and> step (\<lambda>_. False) a x y)\<^sup>*\<^sup>* s s'"
  shows "ctl_pc s' = CT_joinio \<and> exe_state s' = Running"
proof -
  from assms(4) have "reach (\<lambda>_. False) s' \<and> ctl_pc s' = CT_joinio \<and> exe_state s' = Running"
  proof (induction rule: rtranclp_induct)
    case base
    show ?case using assms(1-3) by blast
  next
    case (step x y)
    then show ?case using second_start_step reach_step by blast
  qed
  then show ?thesis by blast
qed

theorem second_start_never_returns_witness:
  "reach (\<lambda>_. False) (running_idle\<lparr>ctl_pc := CT_joinio\<rparr> :: bool threads) \<and>
   ctl_pc (running_idle\<lparr>ctl_pc := CT_joinio, io_pc := IoTop\<rparr> :: bool threads) = CT_joinio \<and>
   exe_state (running_idle\<lparr>ctl_pc := CT_joinio, io_pc := IoTop\<rparr> :: bool threads) = Running"
proof -
  note r0 = reach_running_idle [of "\<lambda>_ :: bool. False", simplified running_idle_def init_threads_def, simplified]
  note r1 = reach_step [OF r0 start_call, simplified]
  note r2 = reach_step [OF r1 start_io, simplified]
  have r: "reach (\<lambda>_. False) (running_idle\<lparr>ctl_pc := CT_joinio\<rparr> :: bool threads)"
    using r2 by (simp add: running_idle_def init_threads_def)
  have "step (\<lambda>_. False) Other (running_idle\<lparr>ctl_pc := CT_joinio\<rparr> :: bool threads)
      (running_idle\<lparr>ctl_pc := CT_joinio, io_pc := IoTop\<rparr>)"
    using io_other [of "running_idle\<lparr>ctl_pc := CT_joinio\<rparr>"] by (simp add: running_idle_def init_threads_def)
  then have "(\<lambda>x y. \<exists>a. a \<noteq> StopCallback \<and> step (\<lambda>_. False) a x y)\<^sup>*\<^sup>* (running_idle\<lparr>ctl_pc := CT_joinio\<rparr> :: bool threads)
      (running_idle\<lparr>ctl_pc := CT_joinio, io_pc := IoTop\<rparr>)" by blast
  from second_start_never_returns [OF r _ _ this] r show ?thesis
    by (simp add: running_idle_def init_threads_def)
qed

end
