(* ===== verification/Loop_Channel.thy ===== *)
theory Loop_Channel
  imports Loop_Core
begin

text \<open>
  \<open>LoopChannel\<close> (\<open>include/kzevent/core.hpp\<close>, \<open>src/core.cpp\<close>): the move-only handle through which
  every socket and timer uses a loop. There is one loop, so \<open>in_loop_\<close> is null or points to it.
  A program over channel variables (\<open>chan_op\<close>) is what client code can do with them; its posted
  closures keep the ownership discipline on which the descriptor table relies.
\<close>

section \<open>State and operations\<close>

record LoopChannel =
  in_loop :: bool
  ch_fd :: fd
  event_types :: EventType
  event_modes :: EventMode

definition invalid_channel :: "LoopChannel \<Rightarrow> bool" where
  "invalid_channel ch \<longleftrightarrow> ch_fd ch = -1 \<or> \<not> in_loop ch"

definition invalid_access :: "('k, 'cb, 't) Loop \<Rightarrow> ('k, 'cb, 't) Loop" where
  "invalid_access = write_log (LogError ''invalid channel be accessed!'')"

definition construct_LoopChannel :: "'k os \<Rightarrow> fd \<Rightarrow> ('k, 'cb, 't) Loop \<Rightarrow> LoopChannel \<times> ('k, 'cb, 't) Loop" where
  "construct_LoopChannel os fd l =
     (\<lparr>in_loop = True, ch_fd = fd, event_types = kDefault, event_modes = kDefault\<rparr>, register_fd os fd l)"

definition destroy_LoopChannel :: "'k os \<Rightarrow> LoopChannel \<Rightarrow> ('k, 'cb, 't) Loop \<Rightarrow> ('k, 'cb, 't) Loop" where
  "destroy_LoopChannel os ch l = (if ch_fd ch \<noteq> -1 \<and> in_loop ch then unregister_fd os (ch_fd ch) l else l)"

text \<open>The move constructor: the new channel and what is left of the other one.\<close>

definition move_LoopChannel :: "LoopChannel \<Rightarrow> LoopChannel \<times> LoopChannel" where
  "move_LoopChannel other =
     (\<lparr>in_loop = in_loop other, ch_fd = ch_fd other, event_types = kDefault, event_modes = kDefault\<rparr>,
      other\<lparr>ch_fd := -1, in_loop := False\<rparr>)"

definition swap_LoopChannel :: "LoopChannel \<Rightarrow> LoopChannel \<Rightarrow> LoopChannel \<times> LoopChannel" where
  "swap_LoopChannel a b = (a\<lparr>ch_fd := ch_fd b, in_loop := in_loop b\<rparr>, b\<lparr>ch_fd := ch_fd a, in_loop := in_loop a\<rparr>)"

text \<open>Move assignment \<open>a = std::move(b)\<close>: both channels afterwards.\<close>

definition move_assign_LoopChannel :: "LoopChannel \<Rightarrow> LoopChannel \<Rightarrow> LoopChannel \<times> LoopChannel" where
  "move_assign_LoopChannel a b = swap_LoopChannel a b"

definition update_event_cb :: "'k os \<Rightarrow> LifeChecker \<Rightarrow> EventType \<Rightarrow> EventMode \<Rightarrow> 'cb \<Rightarrow> LoopChannel \<Rightarrow>
    ('k, 'cb, 't) Loop \<Rightarrow> LoopChannel \<times> ('k, 'cb, 't) Loop" where
  "update_event_cb os life types modes cb ch l =
     (if invalid_channel ch then (ch, invalid_access l)
      else (ch\<lparr>event_types := types, event_modes := modes\<rparr>, enable_fd_cb os (ch_fd ch) types modes (life, cb) l))"

definition update_event :: "'k os \<Rightarrow> EventType \<Rightarrow> EventMode \<Rightarrow> LoopChannel \<Rightarrow>
    ('k, 'cb, 't) Loop \<Rightarrow> LoopChannel \<times> ('k, 'cb, 't) Loop" where
  "update_event os types modes ch l =
     (if invalid_channel ch then (ch, invalid_access l)
      else (ch\<lparr>event_types := types, event_modes := modes\<rparr>, enable_fd os (ch_fd ch) types modes l))"

definition get_event_info :: "LoopChannel \<Rightarrow> EventType \<times> EventMode" where
  "get_event_info ch = (event_types ch, event_modes ch)"

definition disable_event :: "'k os \<Rightarrow> LoopChannel \<Rightarrow> ('k, 'cb, 't) Loop \<Rightarrow> ('k, 'cb, 't) Loop" where
  "disable_event os ch l = (if invalid_channel ch then invalid_access l else disable_fd os (ch_fd ch) l)"

definition channel_post_io_task :: "'k os \<Rightarrow> LifeChecker \<Rightarrow> 't \<Rightarrow> LoopChannel \<Rightarrow>
    ('k, 'cb, 't) Loop \<Rightarrow> ('k, 'cb, 't) Loop" where
  "channel_post_io_task os life task ch l =
     (if invalid_channel ch then invalid_access l else post_io_task os (WrapperTask life task) l)"

definition channel_post_heavy_task :: "LifeChecker \<Rightarrow> 't \<Rightarrow> LoopChannel \<Rightarrow>
    ('k, 'cb, 't) Loop \<Rightarrow> ('k, 'cb, 't) Loop" where
  "channel_post_heavy_task life task ch l =
     (if invalid_channel ch then invalid_access l else post_heavy_task (WrapperTask life task) l)"

definition get_fd :: "LoopChannel \<Rightarrow> ('k, 'cb, 't) Loop \<Rightarrow> fd \<times> ('k, 'cb, 't) Loop" where
  "get_fd ch l = (if invalid_channel ch then (-1, invalid_access l) else (ch_fd ch, l))"

definition get_loop :: "LoopChannel \<Rightarrow> ('k, 'cb, 't) Loop \<Rightarrow> bool \<times> ('k, 'cb, 't) Loop" where
  "get_loop ch l = (if invalid_channel ch then (False, invalid_access l) else (in_loop ch, l))"

section \<open>Programs over channels\<close>

datatype ('cb, 't) chan_op =
    NewCh nat fd
  | DestroyCh nat
  | MoveCh nat nat
  | AssignCh nat nat
  | UpdateCbCh nat LifeChecker EventType EventMode 'cb
  | UpdateCh nat EventType EventMode
  | DisableCh nat
  | PostIoCh nat LifeChecker 't
  | PostHeavyCh nat LifeChecker 't

type_synonym slots = "nat \<Rightarrow> LoopChannel option"

definition owned :: "slots \<Rightarrow> fd set" where
  "owned sl = {fd. \<exists>s ch. sl s = Some ch \<and> \<not> invalid_channel ch \<and> ch_fd ch = fd}"

definition with_channel :: "slots \<Rightarrow> nat \<Rightarrow> (LoopChannel \<Rightarrow> 'a option) \<Rightarrow> 'a option" where
  "with_channel sl s f = (case sl s of None \<Rightarrow> None | Some ch \<Rightarrow> f ch)"

text \<open>
  One operation; \<open>None\<close> when it is not well formed: a variable used outside its lifetime, or a
  channel made for a descriptor that is negative or that another channel still owns.
\<close>

fun chan_step :: "'k os \<Rightarrow> ('cb, 't) chan_op \<Rightarrow> slots \<times> ('k, 'cb, 't) Loop \<Rightarrow>
    (slots \<times> ('k, 'cb, 't) Loop) option" where
  "chan_step os (NewCh s fd) (sl, l) =
     (if sl s \<noteq> None \<or> fd < 0 \<or> (\<exists>ch\<in>ran sl. \<not> invalid_channel ch \<and> ch_fd ch = fd) then None
      else let (ch, l') = construct_LoopChannel os fd l in Some (sl(s \<mapsto> ch), l'))"
| "chan_step os (DestroyCh s) (sl, l) =
     with_channel sl s (\<lambda>ch. Some (sl(s := None), destroy_LoopChannel os ch l))"
| "chan_step os (MoveCh dst src) (sl, l) =
     with_channel sl src (\<lambda>other.
       if sl dst \<noteq> None then None
       else let (new, other') = move_LoopChannel other in Some (sl(src \<mapsto> other', dst \<mapsto> new), l))"
| "chan_step os (AssignCh a b) (sl, l) =
     with_channel sl a (\<lambda>cha. with_channel sl b (\<lambda>chb.
       if a = b then Some (sl, l)
       else let (cha', chb') = move_assign_LoopChannel cha chb in Some (sl(a \<mapsto> cha', b \<mapsto> chb'), l)))"
| "chan_step os (UpdateCbCh s life types modes cb) (sl, l) =
     with_channel sl s (\<lambda>ch. let (ch', l') = update_event_cb os life types modes cb ch l in Some (sl(s \<mapsto> ch'), l'))"
| "chan_step os (UpdateCh s types modes) (sl, l) =
     with_channel sl s (\<lambda>ch. let (ch', l') = update_event os types modes ch l in Some (sl(s \<mapsto> ch'), l'))"
| "chan_step os (DisableCh s) (sl, l) = with_channel sl s (\<lambda>ch. Some (sl, disable_event os ch l))"
| "chan_step os (PostIoCh s life t) (sl, l) =
     with_channel sl s (\<lambda>ch. Some (sl, channel_post_io_task os life t ch l))"
| "chan_step os (PostHeavyCh s life t) (sl, l) =
     with_channel sl s (\<lambda>ch. Some (sl, channel_post_heavy_task life t ch l))"

fun chan_run :: "'k os \<Rightarrow> ('cb, 't) chan_op list \<Rightarrow> slots \<times> ('k, 'cb, 't) Loop \<Rightarrow>
    (slots \<times> ('k, 'cb, 't) Loop) option" where
  "chan_run os [] st = Some st"
| "chan_run os (op # ops) st = (case chan_step os op st of None \<Rightarrow> None | Some st' \<Rightarrow> chan_run os ops st')"

text \<open>
  The ownership discipline of a sequence of closures: a descriptor is registered when it is not
  owned, and unregistered, enabled or disabled only while it is. The result is what is owned at the end.
\<close>

fun ownership :: "fd set \<Rightarrow> ('cb, 't) LoopTask list \<Rightarrow> fd set option" where
  "ownership known [] = Some known"
| "ownership known (RegisterTask fd # ts) =
     (if fd < 0 \<or> fd \<in> known then None else ownership (insert fd known) ts)"
| "ownership known (UnregisterTask fd # ts) = (if fd \<in> known then ownership (known - {fd}) ts else None)"
| "ownership known (EnableCbTask fd types modes cb # ts) = (if fd \<in> known then ownership known ts else None)"
| "ownership known (EnableTask fd types modes # ts) = (if fd \<in> known then ownership known ts else None)"
| "ownership known (DisableTask fd # ts) = (if fd \<in> known then ownership known ts else None)"
| "ownership known (WrapperTask life t # ts) = ownership known ts"

definition slots_ok :: "slots \<Rightarrow> bool" where
  "slots_ok sl \<longleftrightarrow> (\<forall>s ch. sl s = Some ch \<longrightarrow> (ch_fd ch = -1 \<longleftrightarrow> \<not> in_loop ch)) \<and>
     (\<forall>s s' ch ch'. sl s = Some ch \<longrightarrow> sl s' = Some ch' \<longrightarrow> \<not> invalid_channel ch \<longrightarrow>
        \<not> invalid_channel ch' \<longrightarrow> ch_fd ch = ch_fd ch' \<longrightarrow> s = s')"

section \<open>Lemmas\<close>

lemma ownership_append:
  "ownership K (xs @ ys) = (case ownership K xs of None \<Rightarrow> None | Some K' \<Rightarrow> ownership K' ys)"
  by (induction K xs rule: ownership.induct) simp_all

lemma posted_queue [simp]:
  "io_buffer_queue (post_io_task os t l) = io_buffer_queue l @ [t]"
  "io_buffer_queue (post_heavy_task t l) = io_buffer_queue l"
  "io_buffer_queue (invalid_access l) = io_buffer_queue l"
  by (simp_all add: post_io_task_def wake_io_up_def post_heavy_task_def wake_heavy_up_def invalid_access_def
      split: prod.splits sum.splits)

lemmas posting_defs = register_fd_def unregister_fd_def enable_fd_cb_def enable_fd_def disable_fd_def

lemmas channel_defs = construct_LoopChannel_def destroy_LoopChannel_def move_LoopChannel_def
  swap_LoopChannel_def move_assign_LoopChannel_def update_event_cb_def update_event_def disable_event_def
  channel_post_io_task_def channel_post_heavy_task_def


text \<open>The descriptor a channel variable owns.\<close>

definition slot_owner :: "slots \<Rightarrow> nat \<Rightarrow> fd option" where
  "slot_owner sl s = (case sl s of Some ch \<Rightarrow> (if invalid_channel ch then None else Some (ch_fd ch)) | None \<Rightarrow> None)"

definition one_owner :: "('s \<Rightarrow> fd option) \<Rightarrow> bool" where
  "one_owner m \<longleftrightarrow> (\<forall>s s' x. m s = Some x \<longrightarrow> m s' = Some x \<longrightarrow> s = s')"

lemma owned_owner: "owned sl = ran (slot_owner sl)"
  by (auto simp: owned_def slot_owner_def ran_def split: option.splits if_splits)

lemma slots_ok_owner:
  "slots_ok sl \<longleftrightarrow> (\<forall>s ch. sl s = Some ch \<longrightarrow> (ch_fd ch = -1 \<longleftrightarrow> \<not> in_loop ch)) \<and> one_owner (slot_owner sl)"
proof -
  have "one_owner (slot_owner sl) \<longleftrightarrow> (\<forall>s s' ch ch'. sl s = Some ch \<longrightarrow> sl s' = Some ch' \<longrightarrow>
      \<not> invalid_channel ch \<longrightarrow> \<not> invalid_channel ch' \<longrightarrow> ch_fd ch = ch_fd ch' \<longrightarrow> s = s')"
    by (auto simp: one_owner_def slot_owner_def split: option.splits if_splits)
  then show ?thesis by (simp add: slots_ok_def)
qed

lemma owner_upd:
  "slot_owner (sl(s := None)) = (slot_owner sl)(s := None)"
  "slot_owner (sl(s \<mapsto> ch)) = (slot_owner sl)(s := (if invalid_channel ch then None else Some (ch_fd ch)))"
  by (auto simp: slot_owner_def fun_eq_iff)

lemma ran_drop: "one_owner m \<Longrightarrow> m s = Some x \<Longrightarrow> ran (m(s := None)) = ran m - {x}"
  unfolding one_owner_def ran_def set_eq_iff mem_Collect_eq fun_upd_apply Diff_iff singleton_iff
  by (metis option.distinct(1) option.inject)

lemma ran_move: "m d = None \<Longrightarrow> ran (m(s := None, d := m s)) = ran m"
  unfolding ran_def set_eq_iff mem_Collect_eq fun_upd_apply by (metis option.distinct(1))

lemma ran_swap: "ran (m(a := m b, b := m a)) = ran m"
  unfolding ran_def set_eq_iff mem_Collect_eq fun_upd_apply by metis

lemma one_owner_drop: "one_owner m \<Longrightarrow> one_owner (m(s := None))"
  by (simp add: one_owner_def)

lemma one_owner_new: "one_owner m \<Longrightarrow> x \<notin> ran m \<Longrightarrow> one_owner (m(s \<mapsto> x))"
  by (auto simp: one_owner_def ran_def)

lemma one_owner_move: "one_owner m \<Longrightarrow> m d = None \<Longrightarrow> one_owner (m(s := None, d := m s))"
  by (auto simp: one_owner_def)

lemma one_owner_swap: "one_owner m \<Longrightarrow> one_owner (m(a := m b, b := m a))"
  unfolding one_owner_def fun_upd_apply by metis

lemma owner_Some: "slot_owner sl s = Some fd \<longleftrightarrow> (\<exists>ch. sl s = Some ch \<and> \<not> invalid_channel ch \<and> ch_fd ch = fd)"
  by (auto simp: slot_owner_def split: option.splits if_splits)

lemma owner_Some_owned: "sl s = Some ch \<Longrightarrow> \<not> invalid_channel ch \<Longrightarrow> ch_fd ch \<in> owned sl"
  by (auto simp: owned_def)

text \<open>An operation that keeps the owner of each variable and posts closures about owned descriptors.\<close>

lemma step_same_owner:
  assumes "slots_ok sl" and "sl s = Some ch" and "ch_fd ch' = ch_fd ch" and "in_loop ch' = in_loop ch"
  shows "owned (sl(s \<mapsto> ch')) = owned sl" and "slots_ok (sl(s \<mapsto> ch'))"
proof -
  have same: "slot_owner (sl(s \<mapsto> ch')) = slot_owner sl"
    using assms by (auto simp: slot_owner_def fun_eq_iff invalid_channel_def)
  show "owned (sl(s \<mapsto> ch')) = owned sl" by (simp add: owned_owner same)
  show "slots_ok (sl(s \<mapsto> ch'))"
    using assms unfolding slots_ok_owner same by (auto simp: ran_def split: if_splits)
qed

definition posts_well :: "slots \<Rightarrow> ('k, 'cb, 't) Loop \<Rightarrow> slots \<times> ('k, 'cb, 't) Loop \<Rightarrow> bool" where
  "posts_well sl l st \<longleftrightarrow> slots_ok (fst st) \<and>
     (\<exists>ts. io_buffer_queue (snd st) = io_buffer_queue l @ ts \<and> ownership (owned sl) ts = Some (owned (fst st)))"

lemma posts_wellI:
  "slots_ok sl' \<Longrightarrow> io_buffer_queue l' = io_buffer_queue l @ ts \<Longrightarrow>
   ownership (owned sl) ts = Some (owned sl') \<Longrightarrow> posts_well sl l (sl', l')"
  by (auto simp: posts_well_def)

text \<open>The four operations that create, end or move an ownership.\<close>

lemma new_posts_well:
  assumes ok: "slots_ok sl" and step: "chan_step os (NewCh s fd) (sl, l) = Some st"
  shows "posts_well sl l st"
proof -
  from step have new: "sl s = None" "0 \<le> fd" "fd \<notin> owned sl"
    and st: "st = (sl(s \<mapsto> fst (construct_LoopChannel os fd l)), snd (construct_LoopChannel os fd l))"
    by (auto simp: owned_def ran_def split: if_splits prod.splits)
  let ?sl = "sl(s \<mapsto> fst (construct_LoopChannel os fd l))"
  have own: "slot_owner ?sl = (slot_owner sl)(s \<mapsto> fd)" and free: "slot_owner sl s = None"
    using new by (simp_all add: owner_upd construct_LoopChannel_def invalid_channel_def slot_owner_def)
  have "slots_ok ?sl"
    using ok new one_owner_new [of "slot_owner sl" fd s] unfolding slots_ok_owner own owned_owner
    by (auto simp: construct_LoopChannel_def split: if_splits)
  then show ?thesis
    unfolding st using new own free
    by (intro posts_wellI [where ts = "[RegisterTask fd]"])
      (simp_all add: construct_LoopChannel_def register_fd_def owned_owner)
qed

lemma destroy_posts_well:
  assumes ok: "slots_ok sl" and step: "chan_step os (DestroyCh s) (sl, l) = Some st"
  shows "posts_well sl l st"
proof -
  from step obtain ch where ch: "sl s = Some ch" and st: "st = (sl(s := None), destroy_LoopChannel os ch l)"
    by (auto simp: with_channel_def split: option.splits)
  have ok': "slots_ok (sl(s := None))"
    using ok one_owner_drop [of "slot_owner sl" s] unfolding slots_ok_owner owner_upd by (auto split: if_splits)
  show ?thesis
  proof (cases "invalid_channel ch")
    case True
    then have "slot_owner (sl(s := None)) = slot_owner sl" using ch by (auto simp: slot_owner_def fun_eq_iff)
    then show ?thesis unfolding st using True ok'
      by (intro posts_wellI [where ts = "[]"]) (auto simp: destroy_LoopChannel_def invalid_channel_def owned_owner)
  next
    case False
    then have own: "slot_owner sl s = Some (ch_fd ch)" using ch by (simp add: owner_Some)
    have "one_owner (slot_owner sl)" using ok unfolding slots_ok_owner by blast
    from ran_drop [OF this own] have "owned (sl(s := None)) = owned sl - {ch_fd ch}"
      by (simp add: owned_owner owner_upd)
    moreover have "ch_fd ch \<in> owned sl" using own by (simp add: owned_owner ranI)
    moreover have "io_buffer_queue (destroy_LoopChannel os ch l) = io_buffer_queue l @ [UnregisterTask (ch_fd ch)]"
      using False by (simp add: destroy_LoopChannel_def invalid_channel_def unregister_fd_def)
    ultimately show ?thesis unfolding st using ok'
      by (intro posts_wellI [where ts = "[UnregisterTask (ch_fd ch)]"]) simp_all
  qed
qed

lemma move_posts_well:
  assumes ok: "slots_ok sl" and step: "chan_step os (MoveCh d s) (sl, l) = Some st"
  shows "posts_well sl l st"
proof -
  from step obtain ch where ch: "sl s = Some ch" and free: "sl d = None" and
    st: "st = (sl(s \<mapsto> snd (move_LoopChannel ch), d \<mapsto> fst (move_LoopChannel ch)), l)"
    by (auto simp: with_channel_def split: option.splits if_splits prod.splits)
  let ?sl = "sl(s \<mapsto> snd (move_LoopChannel ch), d \<mapsto> fst (move_LoopChannel ch))"
  have own: "slot_owner ?sl = (slot_owner sl)(s := None, d := slot_owner sl s)" and free': "slot_owner sl d = None"
    using ch free by (auto simp: slot_owner_def fun_eq_iff move_LoopChannel_def invalid_channel_def)
  have "slots_ok ?sl"
    using ok ch one_owner_move [of "slot_owner sl" d s] free' unfolding slots_ok_owner own
    by (auto simp: move_LoopChannel_def split: if_splits)
  then show ?thesis unfolding st using own ran_move [of "slot_owner sl" d s] free'
    by (intro posts_wellI [where ts = "[]"]) (simp_all add: owned_owner)
qed

lemma assign_posts_well:
  assumes ok: "slots_ok sl" and step: "chan_step os (AssignCh a b) (sl, l) = Some st"
  shows "posts_well sl l st"
proof (cases "a = b")
  case True
  then have "st = (sl, l)" using step by (auto simp: with_channel_def split: option.splits)
  then show ?thesis using ok by (auto intro: posts_wellI [where ts = "[]"])
next
  case False
  with step obtain cha chb where ch: "sl a = Some cha" "sl b = Some chb" and
    st: "st = (sl(a \<mapsto> fst (swap_LoopChannel cha chb), b \<mapsto> snd (swap_LoopChannel cha chb)), l)"
    by (auto simp: with_channel_def move_assign_LoopChannel_def split: option.splits prod.splits)
  let ?sl = "sl(a \<mapsto> fst (swap_LoopChannel cha chb), b \<mapsto> snd (swap_LoopChannel cha chb))"
  have own: "slot_owner ?sl = (slot_owner sl)(a := slot_owner sl b, b := slot_owner sl a)"
    using ch False by (auto simp: slot_owner_def fun_eq_iff swap_LoopChannel_def invalid_channel_def)
  have "slots_ok ?sl"
    using ok ch one_owner_swap [of "slot_owner sl" a b] unfolding slots_ok_owner own
    by (auto simp: swap_LoopChannel_def split: if_splits)
  then show ?thesis unfolding st using own ran_swap [of "slot_owner sl" a b]
    by (intro posts_wellI [where ts = "[]"]) (simp_all add: owned_owner)
qed

text \<open>The others leave the owners alone and post at most one closure, about the channel's descriptor.\<close>

lemma use_posts_well:
  assumes ok: "slots_ok sl" and ch: "sl s = Some ch"
    and same: "ch_fd ch' = ch_fd ch" "in_loop ch' = in_loop ch"
    and buf: "io_buffer_queue l' = io_buffer_queue l @ ts"
    and ts: "ts = [] \<or> \<not> invalid_channel ch \<and> ownership {ch_fd ch} ts = Some {ch_fd ch} \<and>
      (\<forall>fd. RegisterTask fd \<notin> set ts \<and> UnregisterTask fd \<notin> set ts) \<and> length ts = 1"
  shows "posts_well sl l (sl(s \<mapsto> ch'), l')"
proof -
  have "ownership (owned sl) ts = Some (owned sl)"
  proof (cases "ts = []")
    case False
    with ts obtain t where t: "ts = [t]" and v: "\<not> invalid_channel ch" "ownership {ch_fd ch} [t] = Some {ch_fd ch}"
      and nr: "\<forall>fd. RegisterTask fd \<noteq> t \<and> UnregisterTask fd \<noteq> t"
      by (auto simp: length_Suc_conv)
    have "ch_fd ch \<in> owned sl" using ch v(1) by (rule owner_Some_owned)
    with v(2) nr show ?thesis unfolding t by (cases t) (auto split: if_splits)
  qed simp
  then show ?thesis using step_same_owner [OF ok ch same] buf by (intro posts_wellI) simp_all
qed

lemma chan_step_posts_well:
  assumes ok: "slots_ok sl" and step: "chan_step os op (sl, l) = Some st"
  shows "posts_well sl l st"
proof -
  have id: "sl s = Some ch \<Longrightarrow> sl(s \<mapsto> ch) = sl" for s ch by auto
  show ?thesis
  proof (cases op)
    case (UpdateCbCh s life types modes cb)
    with step show ?thesis
      by (auto simp: with_channel_def update_event_cb_def enable_fd_cb_def split: option.splits if_splits
          intro!: use_posts_well [OF ok])
  next
    case (UpdateCh s types modes)
    with step show ?thesis
      by (auto simp: with_channel_def update_event_def enable_fd_def split: option.splits if_splits
          intro!: use_posts_well [OF ok])
  next
    case (DisableCh s)
    with step obtain ch where "sl s = Some ch" "st = (sl(s \<mapsto> ch), disable_event os ch l)"
      by (auto simp: with_channel_def id split: option.splits)
    then show ?thesis
      by (auto simp: disable_event_def disable_fd_def intro!: use_posts_well [OF ok])
  next
    case (PostIoCh s life t)
    with step obtain ch where "sl s = Some ch" "st = (sl(s \<mapsto> ch), channel_post_io_task os life t ch l)"
      by (auto simp: with_channel_def id split: option.splits)
    then show ?thesis
      by (auto simp: channel_post_io_task_def intro!: use_posts_well [OF ok])
  next
    case (PostHeavyCh s life t)
    with step obtain ch where "sl s = Some ch" "st = (sl(s \<mapsto> ch), channel_post_heavy_task life t ch l)"
      by (auto simp: with_channel_def id split: option.splits)
    then show ?thesis
      by (auto simp: channel_post_heavy_task_def intro!: use_posts_well [OF ok])
  qed (use ok step in \<open>auto intro: new_posts_well destroy_posts_well move_posts_well assign_posts_well
      simp del: chan_step.simps\<close>)
qed

lemma chan_run_posts_well:
  "slots_ok sl \<Longrightarrow> chan_run os ops (sl, l) = Some (sl', l') \<Longrightarrow> posts_well sl l (sl', l')"
proof (induction ops arbitrary: sl l)
  case Nil
  then show ?case by (auto simp: posts_well_def)
next
  case (Cons op ops)
  then obtain sl1 l1 where step: "chan_step os op (sl, l) = Some (sl1, l1)"
    and rest: "chan_run os ops (sl1, l1) = Some (sl', l')"
    by (auto split: option.splits)
  from chan_step_posts_well [OF Cons.prems(1) step] obtain ts where
    "slots_ok sl1" "io_buffer_queue l1 = io_buffer_queue l @ ts" "ownership (owned sl) ts = Some (owned sl1)"
    by (auto simp: posts_well_def)
  moreover from Cons.IH [OF this(1) rest] obtain us where
    "slots_ok sl'" "io_buffer_queue l' = io_buffer_queue l1 @ us" "ownership (owned sl1) us = Some (owned sl')"
    by (auto simp: posts_well_def)
  ultimately show ?case
    by (intro posts_wellI [where ts = "ts @ us"]) (simp_all add: ownership_append)
qed


section \<open>Running what channels posted\<close>

text \<open>The messages that \<open>unregister_fd\<close>, \<open>enable_fd\<close> and \<open>disable_fd\<close> log when they are misused.\<close>

definition misuse_messages :: "log_entry set" where
  "misuse_messages = {LogInfo ''fd has not registered!'', LogInfo ''fd is unregistered repeatedly!''}"

text \<open>The table is private to \<open>Loop\<close>: a client's closure can post and log, but not write to it.\<close>

definition client_private :: "('k, 'cb, 't) client \<Rightarrow> bool" where
  "client_private c \<longleftrightarrow> (\<forall>t l. (\<forall>fd. run_closure c t l \<noteq> Inl (OutOfRange fd)) \<and>
     (\<forall>l'. run_closure c t l = Inr l' \<longrightarrow> events l' = events l \<and>
        (\<exists>es. elog l' = elog l @ es \<and> set es \<inter> misuse_messages = {})))"

lemma private_in_range: "client_private c \<Longrightarrow> client_in_range c"
  by (auto simp: client_private_def client_in_range_def)

definition owned_run :: "fd set \<Rightarrow> ('k, 'cb, 't) Loop \<Rightarrow> ('k, 'cb, 't) Loop \<Rightarrow> bool" where
  "owned_run K l l' \<longleftrightarrow> (\<forall>fd\<in>K. registered l' fd) \<and>
     (\<exists>es. elog l' = elog l @ es \<and> set es \<inter> misuse_messages = {})"

lemma owned_run_trans: "owned_run K l l1 \<Longrightarrow> owned_run K' l1 l2 \<Longrightarrow> owned_run K' l l2"
  unfolding owned_run_def by fastforce

lemma registered_event: "registered l fd \<Longrightarrow> with_event fd l f = f (events l ! nat fd)"
  by (simp add: registered_def with_event_def)

lemma registered_set_event:
  "registered (set_event fd e l) fd' \<longleftrightarrow> (if fd' = fd \<and> 0 \<le> fd \<and> nat fd < length (events l) then in_register e
     else if 0 \<le> fd' \<and> nat fd' = nat fd \<and> nat fd < length (events l) then in_register e else registered l fd')"
  by (auto simp: registered_def nth_list_update)

lemma sys_error_not_misuse [simp]: "LogSysError err \<notin> misuse_messages"
  by (simp add: misuse_messages_def)

lemma registered_kern [simp]: "registered (l\<lparr>kern := k\<rparr>) fd = registered l fd"
  "registered (write_log e l) fd = registered l fd"
  by (simp_all add: registered_def)

lemma owned_runI:
  "\<forall>fd\<in>K. registered l' fd \<Longrightarrow> elog l' = elog l @ es \<Longrightarrow> set es \<inter> misuse_messages = {} \<Longrightarrow> owned_run K l l'"
  by (auto simp: owned_run_def)

lemma unwatch_owned:
  "registered (unwatch os fd e l) fd' = registered l fd' \<and>
   (\<exists>es. elog (unwatch os fd e l) = elog l @ es \<and> set es \<inter> misuse_messages = {})"
  by (auto simp: unwatch_def registered_def split: prod.splits sum.splits)

lemma register_owned:
  assumes "register_task fd l = Inr l'" and "\<forall>fd\<in>K. registered l fd"
  shows "owned_run (insert fd K) l l'"
proof -
  note facts = register_task_Inr [OF assms(1)]
  then have "elog l' = elog l" by (metis Loop.ext_inject Loop.surjective Loop.update_convs(3))
  moreover have "registered l' f" if "registered l f \<or> f = fd" for f
    using that facts by (auto simp: registered_def Let_def)
  ultimately show ?thesis using assms(2) by (auto simp: owned_run_def)
qed

lemma unregister_owned:
  assumes "unregister_task os fd l = Inr l'" and "\<forall>fd\<in>K. registered l fd" and "fd \<in> K"
  shows "owned_run (K - {fd}) l l'"
proof -
  let ?l1 = "unwatch os fd (events l ! nat fd) l"
  obtain es where es: "elog ?l1 = elog l @ es" "set es \<inter> misuse_messages = {}" and
    reg: "registered ?l1 f = registered l f" for f
    using unwatch_owned [of os fd "events l ! nat fd" l] by metis
  obtain r k where close: "os_close os fd (kern ?l1) = (r, k)" by fastforce
  have in_reg: "in_register (events l ! nat fd)" "registered l fd" using assms by (auto simp: registered_def)
  have other: "f \<in> K \<Longrightarrow> f \<noteq> fd \<Longrightarrow> nat f \<noteq> nat fd" for f
    using assms(2) in_reg(2) by (auto simp: registered_def)
  show ?thesis
  proof (cases r)
    case (Inl err)
    then have "l' = write_log (LogSysError err) (?l1\<lparr>kern := k\<rparr>)"
      using assms(1) in_reg close by (simp add: unregister_task_def registered_event Let_def)
    then show ?thesis using es reg assms(2) by (intro owned_runI [where es = "es @ [LogSysError err]"]) auto
  next
    case (Inr u)
    then have "l' = set_event fd ((events l ! nat fd)\<lparr>in_register := False, in_epoll := False, ev_cb := None\<rparr>) (?l1\<lparr>kern := k\<rparr>)"
      using assms(1) in_reg close by (simp add: unregister_task_def registered_event Let_def)
    then show ?thesis using es reg assms(2) other
      by (intro owned_runI [where es = es]) (auto simp: registered_set_event)
  qed
qed

lemma enabled_owned:
  assumes "enabled os fd ev e l = Inr l'" and "in_register e" and "\<forall>fd\<in>K. registered l fd"
  shows "owned_run K l l'"
proof -
  obtain r k where set: "epoll_set os (in_epoll (events l ! nat fd)) fd ev (kern l) = (r, k)" by fastforce
  show ?thesis
  proof (cases r)
    case None
    with assms set show ?thesis
      by (intro owned_runI [where es = "[]"]) (auto simp: enabled_def registered_set_event)
  next
    case (Some err)
    with assms set show ?thesis
      by (intro owned_runI [where es = "[LogSysError err]"]) (auto simp: enabled_def)
  qed
qed

lemma disable_owned:
  assumes "disable_task os fd l = Inr l'" and "\<forall>fd\<in>K. registered l fd" and "fd \<in> K"
  shows "owned_run K l l'"
proof -
  obtain r k where ctl: "os_epoll_ctl os EPOLL_CTL_DEL fd 0 (kern l) = (r, k)" by fastforce
  have reg: "registered l fd" "in_register (events l ! nat fd)" using assms(2,3) by (auto simp: registered_def)
  let ?l' = "set_event fd ((events l ! nat fd)\<lparr>in_epoll := False, ev_cb := None\<rparr>) (l\<lparr>kern := k\<rparr>)"
  have "l' = ?l' \<or> (\<exists>err. l' = write_log (LogSysError err) (l\<lparr>kern := k\<rparr>))"
    using assms(1) reg ctl by (cases r) (auto simp: disable_task_def registered_event split: if_splits)
  then show ?thesis
  proof (elim disjE exE)
    assume "l' = ?l'"
    then show ?thesis using assms(2) reg by (intro owned_runI [where es = "[]"]) (auto simp: registered_set_event)
  next
    fix err assume "l' = write_log (LogSysError err) (l\<lparr>kern := k\<rparr>)"
    then show ?thesis using assms(2) by (intro owned_runI [where es = "[LogSysError err]"]) auto
  qed
qed

text \<open>One closure of a disciplined sequence, and then the whole sequence.\<close>

lemma run_task_owned:
  assumes "client_private c" and "ownership K (t # ts) = Some K'" and "\<forall>fd\<in>K. registered l fd"
    and "run_task os c t l = Inr l'"
  obtains K1 where "ownership K1 ts = Some K'" and "owned_run K1 l l'"
proof (cases t)
  case (RegisterTask fd)
  with assms have "ownership (insert fd K) ts = Some K'" "owned_run (insert fd K) l l'"
    by (auto split: if_splits intro: register_owned)
  then show ?thesis using that by blast
next
  case (UnregisterTask fd)
  with assms have "ownership (K - {fd}) ts = Some K'" "owned_run (K - {fd}) l l'"
    by (auto split: if_splits intro: unregister_owned)
  then show ?thesis using that by blast
next
  case (EnableCbTask fd types modes cb)
  then have "fd \<in> K" "ownership K ts = Some K'" using assms(2) by (auto split: if_splits)
  then have "owned_run K l l'" using EnableCbTask assms(3,4)
    by (auto simp: enable_cb_task_Inr registered_def split: if_splits intro!: enabled_owned)
  then show ?thesis using that \<open>ownership K ts = Some K'\<close> by blast
next
  case (EnableTask fd types modes)
  then have "fd \<in> K" "ownership K ts = Some K'" using assms(2) by (auto split: if_splits)
  then have "owned_run K l l'" using EnableTask assms(3,4)
    by (auto simp: enable_task_Inr registered_def split: if_splits intro!: enabled_owned)
  then show ?thesis using that \<open>ownership K ts = Some K'\<close> by blast
next
  case (DisableTask fd)
  with assms have "ownership K ts = Some K'" "owned_run K l l'"
    by (auto split: if_splits intro: disable_owned)
  then show ?thesis using that by blast
next
  case (WrapperTask life u)
  have "owned_run K l l'"
  proof (cases "life \<in> live l")
    case True
    with WrapperTask assms(4) have "run_closure c u l = Inr l'" by simp
    with assms(1) obtain es where "events l' = events l" "elog l' = elog l @ es" "set es \<inter> misuse_messages = {}"
      unfolding client_private_def by metis
    then show ?thesis using assms(3) by (intro owned_runI) (auto simp: registered_def)
  next
    case False
    then show ?thesis using WrapperTask assms(3,4) by (intro owned_runI [where es = "[]"]) auto
  qed
  then show ?thesis using that assms(2) WrapperTask by simp
qed

lemma run_tasks_owned:
  assumes "client_private c"
  shows "ownership K ts = Some K' \<Longrightarrow> \<forall>fd\<in>K. registered l fd \<Longrightarrow> run_tasks os c ts l = Inr l' \<Longrightarrow> owned_run K' l l'"
proof (induction ts arbitrary: K l)
  case Nil
  then show ?case by (auto intro: owned_runI [where es = "[]"])
next
  case (Cons t ts)
  then obtain l1 where l1: "run_task os c t l = Inr l1" "run_tasks os c ts l1 = Inr l'" by auto
  from run_task_owned [OF assms Cons.prems(1,2) l1(1)] obtain K1 where
    K1: "ownership K1 ts = Some K'" "owned_run K1 l l1" by blast
  moreover from K1(2) have "\<forall>fd\<in>K1. registered l1 fd" by (simp add: owned_run_def)
  ultimately show ?case using Cons.IH [OF K1(1) _ l1(2)] owned_run_trans by blast
qed


lemma run_tasks_owned_range:
  assumes "client_private c"
  shows "ownership K ts = Some K' \<Longrightarrow> \<forall>fd\<in>K. registered l fd \<Longrightarrow> run_tasks os c ts l \<noteq> Inl (OutOfRange x)"
proof (induction ts arbitrary: K l)
  case (Cons t ts)
  have pre: "case t of RegisterTask fd \<Rightarrow> 0 \<le> fd | _ \<Rightarrow> (\<forall>fd. task_fd t = Some fd \<longrightarrow> in_table l fd)"
    using Cons.prems by (cases t) (auto simp: in_table_def registered_def split: if_splits)
  note range = task_in_range(1) [OF private_in_range [OF assms] pre, of os x]
  show ?case
  proof (cases "run_task os c t l")
    case (Inl f)
    then show ?thesis using range by simp
  next
    case (Inr l1)
    from run_task_owned [OF assms Cons.prems Inr] obtain K1 where
      "ownership K1 ts = Some K'" "owned_run K1 l l1" by blast
    then show ?thesis using Cons.IH Inr by (simp add: owned_run_def)
  qed
qed simp

text \<open>No descriptor task brings an object back to life.\<close>

lemma enabled_live: "enabled os fd ev e l = Inr l' \<Longrightarrow> live l' = live l"
  by (cases "epoll_set os (in_epoll (events l ! nat fd)) fd ev (kern l)")
    (auto simp: enabled_def split: option.splits)

lemma task_live: "run_task os c t l = Inr l' \<Longrightarrow> task_fd t \<noteq> None \<Longrightarrow> live l' = live l"
proof (cases t)
  case (RegisterTask fd)
  then show "run_task os c t l = Inr l' \<Longrightarrow> live l' = live l"
    by (auto simp: register_task_def Let_def with_event_Inr split: if_splits)
next
  case (UnregisterTask fd)
  then show "run_task os c t l = Inr l' \<Longrightarrow> live l' = live l"
    by (auto simp: unregister_task_def Let_def with_event_Inr split: if_splits prod.splits sum.splits)
next
  case (EnableCbTask fd types modes cb)
  then show "run_task os c t l = Inr l' \<Longrightarrow> live l' = live l"
    by (auto simp: enable_cb_task_Inr enabled_live split: if_splits)
next
  case (EnableTask fd types modes)
  then show "run_task os c t l = Inr l' \<Longrightarrow> live l' = live l"
    by (auto simp: enable_task_Inr enabled_live split: if_splits)
next
  case (DisableTask fd)
  then show "run_task os c t l = Inr l' \<Longrightarrow> live l' = live l"
    by (auto simp: disable_task_def with_event_Inr split: if_splits prod.splits sum.splits)
qed simp

section \<open>Properties\<close>

text \<open>
  C9. Ownership. Whatever a program does with channel variables (construct, destroy, move,
  move-assign, use), starting from none, the closures it posts to the io thread register a
  descriptor only while nobody owns it and unregister, enable or disable it only while it is
  owned; what is registered and not yet unregistered is exactly what the living channels own.
  So each descriptor is closed once, by the channel that ends up with it.
\<close>

theorem channels_own_descriptors:
  assumes "chan_run os ops (Map.empty, l) = Some (sl', l')"
  shows "\<exists>ts. io_buffer_queue l' = io_buffer_queue l @ ts \<and> ownership {} ts = Some (owned sl') \<and> slots_ok sl'"
proof -
  have "slots_ok Map.empty" "owned Map.empty = {}" by (simp_all add: slots_ok_def owned_def)
  with chan_run_posts_well [OF _ assms] show ?thesis by (auto simp: posts_well_def)
qed

text \<open>A program that moves a channel, destroys the empty shell, and uses the channel.\<close>

definition demo_ops :: "(string, string) chan_op list" where
  "demo_ops = [NewCh 0 5, MoveCh 1 0, DestroyCh 0]"

definition demo_channel :: LoopChannel where
  "demo_channel = \<lparr>in_loop = True, ch_fd = 5, event_types = kDefault, event_modes = kDefault\<rparr>"

lemma demo_ops_run:
  "\<exists>l'. chan_run ref_os demo_ops (Map.empty, demo_loop) = Some ([1 \<mapsto> demo_channel], l') \<and>
     io_buffer_queue l' = [RegisterTask 5]"
  by (simp add: demo_ops_def demo_channel_def with_channel_def channel_defs posting_defs invalid_channel_def
      post_io_task_def wake_io_up_def ref_os_def demo_loop_def k_init_def fun_eq_iff)

theorem channels_own_descriptors_witness:
  "\<exists>l'. chan_run ref_os demo_ops (Map.empty, demo_loop) = Some ([1 \<mapsto> demo_channel], l') \<and>
     ownership {} (io_buffer_queue l') = Some {5} \<and> slots_ok [1 \<mapsto> demo_channel]"
proof -
  obtain l' where run: "chan_run ref_os demo_ops (Map.empty, demo_loop) = Some ([1 \<mapsto> demo_channel], l')"
    using demo_ops_run by blast
  have "owned [1 \<mapsto> demo_channel] = {5}"
    by (auto simp: owned_def demo_channel_def invalid_channel_def split: if_splits)
  moreover have "io_buffer_queue demo_loop = []" by (simp add: demo_loop_def)
  ultimately show ?thesis using channels_own_descriptors [OF run] run by auto
qed

text \<open>
  C6. Channels never misuse the loop: when the io thread runs what a program over channels has
  posted, no closure indexes the event table out of range, none of the \<open>has not registered\<close> and
  \<open>unregistered repeatedly\<close> messages is logged, and every descriptor a living channel owns is
  registered afterwards.
\<close>

theorem channel_programs_never_misuse_loop:
  assumes "client_private c" and "io_buffer_queue l = []"
    and "chan_run os ops (Map.empty, l) = Some (sl', l')"
  shows "(\<forall>fd. run_tasks os c (io_buffer_queue l') l' \<noteq> Inl (OutOfRange fd)) \<and>
    (\<forall>l''. run_tasks os c (io_buffer_queue l') l' = Inr l'' \<longrightarrow>
       (\<forall>fd\<in>owned sl'. registered l'' fd) \<and>
       (\<exists>es. elog l'' = elog l' @ es \<and> set es \<inter> misuse_messages = {}))"
proof -
  have "slots_ok Map.empty" "owned Map.empty = {}" by (simp_all add: slots_ok_def owned_def)
  with chan_run_posts_well [OF _ assms(3)] assms(2)
  have own: "ownership {} (io_buffer_queue l') = Some (owned sl')" by (auto simp: posts_well_def)
  show ?thesis
    using run_tasks_owned [OF assms(1) own] run_tasks_owned_range [OF assms(1) own]
    by (auto simp: owned_run_def)
qed

definition error_client :: "('k, string, string) client" where
  "error_client = \<lparr>run_closure = (\<lambda>t l. Inr (write_log (LogError t) l)),
     run_callback = (\<lambda>cb ev l. Inr (write_log (LogError cb) l))\<rparr>"

theorem channel_programs_never_misuse_loop_witness:
  "\<exists>l' l''. chan_run ref_os demo_ops (Map.empty, demo_loop) = Some ([1 \<mapsto> demo_channel], l') \<and>
     run_tasks ref_os error_client (io_buffer_queue l') l' = Inr l'' \<and> registered l'' 5"
proof -
  obtain l' where run: "chan_run ref_os demo_ops (Map.empty, demo_loop) = Some ([1 \<mapsto> demo_channel], l')"
    and q: "io_buffer_queue l' = [RegisterTask 5]"
    using demo_ops_run by blast
  obtain l'' where l'': "run_tasks ref_os error_client (io_buffer_queue l') l' = Inr l''"
    using register_task_total [of 5 l'] q by auto
  have priv: "client_private error_client"
    by (auto simp: client_private_def error_client_def misuse_messages_def)
  have own: "5 \<in> owned [1 \<mapsto> demo_channel]" by (auto simp: owned_def demo_channel_def invalid_channel_def)
  have "io_buffer_queue demo_loop = []" by (simp add: demo_loop_def)
  from channel_programs_never_misuse_loop [OF priv this run] own run l'' show ?thesis by blast
qed


text \<open>
  C27. A closure never runs after its owner is gone: once an object can no longer be locked, a batch
  runs as if the closures posted on its behalf were not there, and its event callbacks do nothing.
\<close>

theorem dead_owner_closures_vanish:
  assumes "life \<notin> live l"
    and "\<forall>t l l'. run_closure c t l = Inr l' \<longrightarrow> life \<notin> live l \<longrightarrow> life \<notin> live l'"
  shows "run_tasks os c ts l = run_tasks os c (filter (\<lambda>t. \<forall>u. t \<noteq> WrapperTask life u) ts) l \<and>
    run_event_cb c (life, cb) types l = Inr l"
proof -
  have keep: "run_task os c t l = Inr l' \<Longrightarrow> life \<notin> live l \<Longrightarrow> life \<notin> live l'" for t l l'
    using assms(2) task_live [of os c t l l'] by (cases t) (auto split: if_splits)
  have "life \<notin> live l \<Longrightarrow> run_tasks os c ts l = run_tasks os c (filter (\<lambda>t. \<forall>u. t \<noteq> WrapperTask life u) ts) l"
  proof (induction ts arbitrary: l)
    case (Cons t ts)
    show ?case
    proof (cases "\<exists>u. t = WrapperTask life u")
      case True
      then show ?thesis using Cons by auto
    next
      case False
      then show ?thesis using Cons keep by (cases "run_task os c t l") auto
    qed
  qed simp
  then show ?thesis using assms(1) by (simp add: run_event_cb_def)
qed

theorem dead_owner_closures_vanish_witness:
  "run_tasks ref_os log_client [WrapperTask 8 ''x'', WrapperTask 7 ''y''] demo_loop =
   run_tasks ref_os log_client [WrapperTask 7 ''y''] demo_loop"
proof -
  have "8 \<notin> live demo_loop" by (simp add: demo_loop_def)
  moreover have "\<forall>t l l'. run_closure log_client t l = Inr l' \<longrightarrow> 8 \<notin> live l \<longrightarrow> 8 \<notin> live l'"
    by (auto simp: log_client_def)
  ultimately show ?thesis
    using dead_owner_closures_vanish [of 8 demo_loop log_client ref_os "[WrapperTask 8 ''x'', WrapperTask 7 ''y'']" "''cb''" 0]
    by simp
qed

text \<open>
  A moved channel forgets its event mask: the move constructor and the swap behind move
  assignment carry the descriptor and the loop but neither \<open>event_types_\<close> nor \<open>event_modes_\<close>, so after
  \<open>update_event\<close> and a move \<open>get_event_info\<close> reports \<open>kDefault\<close> for a descriptor that is watched.
\<close>

theorem moved_channel_forgets_events:
  assumes "\<not> invalid_channel ch"
  shows "let (ch1, l1) = update_event os kRead kOneShot ch l; (ch2, old) = move_LoopChannel ch1
    in get_event_info ch1 = (kRead, kOneShot) \<and> get_event_info ch2 = (kDefault, kDefault) \<and>
       get_fd ch2 l1 = (ch_fd ch, l1) \<and> invalid_channel old \<and>
       last (io_buffer_queue l1) = EnableTask (ch_fd ch2) kRead kOneShot"
  using assms
  by (simp add: update_event_def move_LoopChannel_def get_event_info_def get_fd_def invalid_channel_def
      enable_fd_def)

theorem moved_channel_forgets_events_witness:
  "get_event_info (fst (move_LoopChannel (fst (update_event ref_os kRead kOneShot demo_channel demo_loop)))) =
   (kDefault, kDefault)"
proof -
  have "\<not> invalid_channel demo_channel" by (simp add: invalid_channel_def demo_channel_def)
  from moved_channel_forgets_events [OF this, of ref_os demo_loop] show ?thesis
    by (simp add: split_beta Let_def)
qed

text \<open>
  An empty channel is inert: every operation on a channel that was moved from or never
  valid logs one error and changes nothing else; nothing is posted, the descriptor read is -1.
\<close>

theorem empty_channel_is_inert:
  assumes "invalid_channel ch"
  shows "update_event_cb os life types modes cb ch l = (ch, write_log (LogError ''invalid channel be accessed!'') l) \<and>
    update_event os types modes ch l = (ch, write_log (LogError ''invalid channel be accessed!'') l) \<and>
    disable_event os ch l = write_log (LogError ''invalid channel be accessed!'') l \<and>
    channel_post_io_task os life t ch l = write_log (LogError ''invalid channel be accessed!'') l \<and>
    channel_post_heavy_task life t ch l = write_log (LogError ''invalid channel be accessed!'') l \<and>
    get_fd ch l = (-1, write_log (LogError ''invalid channel be accessed!'') l) \<and>
    \<not> fst (get_loop ch l) \<and> destroy_LoopChannel os ch l = l \<and>
    invalid_channel (fst (move_LoopChannel ch)) \<and> invalid_channel (snd (move_LoopChannel ch))"
  using assms
  by (auto simp: update_event_cb_def update_event_def disable_event_def channel_post_io_task_def
      channel_post_heavy_task_def get_fd_def get_loop_def destroy_LoopChannel_def move_LoopChannel_def
      invalid_access_def invalid_channel_def)

theorem empty_channel_is_inert_witness:
  "get_fd (demo_channel\<lparr>ch_fd := -1\<rparr>) demo_loop = (-1, write_log (LogError ''invalid channel be accessed!'') demo_loop)"
proof -
  have "invalid_channel (demo_channel\<lparr>ch_fd := -1\<rparr>)" by (simp add: invalid_channel_def)
  from empty_channel_is_inert [OF this, of ref_os 0 0 0 "''cb''" demo_loop "''t''"] show ?thesis by blast
qed

end
