(* ===== verification/Std_Heap.thy ===== *)
theory Std_Heap
  imports Prelude Interfaces
begin

text \<open>
  \<open>std::priority_queue<T, std::vector<T>, std::greater<>>\<close>, the container behind \<open>TimerQueue\<close>: a binary
  heap in a vector, with the sift loops of \<open>std::push_heap\<close> and \<open>std::pop_heap\<close> (the hole
  moves to the bottom before the value is sifted up). The lemmas show that it is a
  priority queue for every total preorder; clients use it through the locale \<open>min_queue\<close>.
\<close>

section \<open>Operations\<close>

function push_hole :: "nat \<Rightarrow> 'a::ord \<Rightarrow> 'a list \<Rightarrow> 'a list" where
  "push_hole hole x v =
     (if hole > 0 \<and> v ! ((hole - 1) div 2) > x
      then push_hole ((hole - 1) div 2) x (v[hole := v ! ((hole - 1) div 2)])
      else v[hole := x])"
  by auto
termination by (relation "measure fst") auto

declare push_hole.simps [simp del]

definition pq_push :: "'a::ord \<Rightarrow> 'a list \<Rightarrow> 'a list" where
  "pq_push x v = push_hole (length v) x (v @ [x])"

text \<open>The way down: the smaller child moves up into the hole; an only child is treated last.\<close>

function sink_hole :: "nat \<Rightarrow> 'a::ord list \<Rightarrow> nat \<times> 'a list" where
  "sink_hole hole v =
     (if 2 * hole + 2 < length v
      then let child = (if v ! (2 * hole + 2) > v ! (2 * hole + 1) then 2 * hole + 1 else 2 * hole + 2)
           in sink_hole child (v[hole := v ! child])
      else if 2 * hole + 1 < length v then (2 * hole + 1, v[hole := v ! (2 * hole + 1)])
      else (hole, v))"
  by auto
termination by (relation "measure (\<lambda>(hole, v). length v - hole)") auto

declare sink_hole.simps [simp del]

definition pq_pop :: "'a::ord list \<Rightarrow> 'a list" where
  "pq_pop v = (if length v \<le> 1 then []
     else let (hole, v') = sink_hole 0 (butlast v) in push_hole hole (last v) v')"

definition pq_top :: "'a list \<Rightarrow> 'a" where
  "pq_top v = v ! 0"

section \<open>The heap property\<close>

definition is_heap :: "'a::preorder list \<Rightarrow> bool" where
  "is_heap v \<longleftrightarrow> (\<forall>i. 0 < i \<and> i < length v \<longrightarrow> v ! ((i - 1) div 2) \<le> v ! i)"

text \<open>
  A heap but for the hole: what lies below the hole is above the hole's parent, and the other
  edges are in order.
\<close>

definition hole_heap :: "nat \<Rightarrow> 'a::preorder list \<Rightarrow> bool" where
  "hole_heap h v \<longleftrightarrow> h < length v \<and>
     (\<forall>i. 0 < i \<and> i < length v \<and> i \<noteq> h \<and> (i - 1) div 2 \<noteq> h \<longrightarrow> v ! ((i - 1) div 2) \<le> v ! i) \<and>
     (\<forall>i. 0 < i \<and> i < length v \<and> (i - 1) div 2 = h \<and> 0 < h \<longrightarrow> v ! ((h - 1) div 2) \<le> v ! i)"

lemma parent_less: "0 < i \<Longrightarrow> (i - 1) div 2 < (i :: nat)"
  by auto

lemma hole_heapD:
  "hole_heap h v \<Longrightarrow> 0 < i \<Longrightarrow> i < length v \<Longrightarrow> i \<noteq> h \<Longrightarrow> (i - 1) div 2 \<noteq> h \<Longrightarrow> v ! ((i - 1) div 2) \<le> v ! i"
  "hole_heap h v \<Longrightarrow> 0 < i \<Longrightarrow> i < length v \<Longrightarrow> (i - 1) div 2 = h \<Longrightarrow> 0 < h \<Longrightarrow> v ! ((h - 1) div 2) \<le> v ! i"
  "hole_heap h v \<Longrightarrow> h < length v"
  by (auto simp: hole_heap_def)

lemma length_push_hole [simp]: "length (push_hole h x v) = length v"
  by (induction h x v rule: push_hole.induct) (subst push_hole.simps, simp)

text \<open>What the hole holds does not count.\<close>

definition others :: "nat \<Rightarrow> 'a list \<Rightarrow> 'a multiset" where
  "others h v = mset v - {#v ! h#}"

lemma others_move:
  assumes "h < length v" and "p < length v" and "p \<noteq> h"
  shows "others p (v[h := v ! p]) = others h v"
  using assms by (simp add: others_def mset_update)

lemma mset_fill: "h < length v \<Longrightarrow> mset (v[h := x]) = add_mset x (others h v)"
  by (simp add: others_def mset_update)

lemma push_hole_mset: "h < length v \<Longrightarrow> mset (push_hole h x v) = add_mset x (others h v)"
proof (induction h x v rule: push_hole.induct)
  case (1 h x v)
  show ?case
  proof (cases "0 < h \<and> v ! ((h - 1) div 2) > x")
    case True
    then have less: "(h - 1) div 2 < h" by auto
    then have "others ((h - 1) div 2) (v[h := v ! ((h - 1) div 2)]) = others h v"
      using 1(2) by (intro others_move) auto
    then show ?thesis using 1 True less by (subst push_hole.simps) simp
  next
    case False
    then show ?thesis using 1(2) by (subst push_hole.simps) (auto simp: mset_fill)
  qed
qed

lemma push_hole_heap:
  assumes total: "\<And>x y :: 'a::preorder. x \<le> y \<or> y \<le> x"
  shows "hole_heap h v \<Longrightarrow> (\<forall>i. 0 < i \<and> i < length v \<and> (i - 1) div 2 = h \<longrightarrow> (x :: 'a) \<le> v ! i) \<Longrightarrow>
    is_heap (push_hole h x v)"
proof (induction h x v rule: push_hole.induct)
  case (1 h x v)
  let ?p = "(h - 1) div 2"
  note inv = hole_heapD [OF 1(2)]
  show ?case
  proof (cases "0 < h \<and> v ! ?p > x")
    case True
    then have h: "0 < h" and up: "x < v ! ?p" and p: "?p < h" by auto
    let ?v = "v[h := v ! ?p]"
    have val: "?v ! i = (if i = h then v ! ?p else v ! i)" if "i < length v" for i
      using that inv(3) by (simp add: nth_list_update)
    have "hole_heap ?p ?v"
      unfolding hole_heap_def
    proof (intro conjI allI impI)
      show "?p < length ?v" using p inv(3) by simp
    next
      fix i assume i: "0 < i \<and> i < length ?v \<and> i \<noteq> ?p \<and> (i - 1) div 2 \<noteq> ?p"
      then have "i \<noteq> h" "(i - 1) div 2 < length v" using parent_less [of i] by auto
      then show "?v ! ((i - 1) div 2) \<le> ?v ! i"
        using i inv(1) [of i] inv(2) [of i] h val [of "(i - 1) div 2"] val [of i] by auto
    next
      fix i assume i: "0 < i \<and> i < length ?v \<and> (i - 1) div 2 = ?p \<and> 0 < ?p"
      have "(?p - 1) div 2 < h" using p by auto
      moreover have "v ! ((?p - 1) div 2) \<le> v ! ?p"
        using inv(1) [of ?p] i p inv(3) by auto
      moreover have "i \<noteq> h \<Longrightarrow> v ! ?p \<le> v ! i" using inv(1) [of i] i p by auto
      ultimately show "?v ! ((?p - 1) div 2) \<le> ?v ! i"
        using i inv(3) val [of i] order_trans by auto
    qed
    moreover have "\<forall>i. 0 < i \<and> i < length ?v \<and> (i - 1) div 2 = ?p \<longrightarrow> x \<le> ?v ! i"
    proof (intro allI impI)
      fix i assume i: "0 < i \<and> i < length ?v \<and> (i - 1) div 2 = ?p"
      have "i \<noteq> h \<Longrightarrow> v ! ?p \<le> v ! i" using inv(1) [of i] i p by auto
      then show "x \<le> ?v ! i"
        using i up val [of i] less_imp_le [of x "v ! ?p"] order_trans [of x "v ! ?p" "v ! i"] by auto
    qed
    ultimately show ?thesis using 1(1) [OF True] True by (subst push_hole.simps) simp
  next
    case False
    then have stop: "push_hole h x v = v[h := x]" by (subst push_hole.simps) auto
    have le: "0 < h \<Longrightarrow> v ! ?p \<le> x"
      using False total by (metis less_le_not_le)
    have "v[h := x] ! ((i - 1) div 2) \<le> v[h := x] ! i" if "0 < i" "i < length v" for i
    proof -
      have q: "(i - 1) div 2 < i" "(i - 1) div 2 < length v" using that parent_less [of i] by auto
      consider "i = h" | "(i - 1) div 2 = h" | "i \<noteq> h" "(i - 1) div 2 \<noteq> h" by blast
      then show ?thesis
      proof cases
        case 1
        then show ?thesis using q le that by simp
      next
        case 2
        then show ?thesis using q that 1(3) by (auto simp: nth_list_update)
      next
        case 3
        then show ?thesis using that inv(1) [of i] by simp
      qed
    qed
    then show ?thesis by (simp add: stop is_heap_def)
  qed
qed


text \<open>The way down keeps the holed heap and ends at a leaf.\<close>

lemma sink_step_heap:
  assumes inv: "hole_heap h v" and c: "c = 2 * h + 1 \<or> c = 2 * h + 2" "c < length v"
    and least: "\<And>i. 0 < i \<Longrightarrow> i < length v \<Longrightarrow> (i - 1) div 2 = h \<Longrightarrow> v ! c \<le> v ! i"
  shows "hole_heap c (v[h := v ! c])"
proof -
  let ?v = "v[h := v ! c]"
  note H = hole_heapD [OF inv]
  have hc: "h < c" "(c - 1) div 2 = h" using c by auto
  have val: "?v ! i = (if i = h then v ! c else v ! i)" if "i < length v" for i
    using that H(3) by (simp add: nth_list_update)
  show ?thesis
    unfolding hole_heap_def
  proof (intro conjI allI impI)
    show "c < length ?v" using c by simp
  next
    fix i assume i: "0 < i \<and> i < length ?v \<and> i \<noteq> c \<and> (i - 1) div 2 \<noteq> c"
    then have q: "(i - 1) div 2 < length v" using parent_less [of i] by auto
    consider "i = h" | "i \<noteq> h" "(i - 1) div 2 = h" | "i \<noteq> h" "(i - 1) div 2 \<noteq> h" by blast
    then show "?v ! ((i - 1) div 2) \<le> ?v ! i"
    proof cases
      case 1
      then have "(i - 1) div 2 \<noteq> h" using i by auto
      then show ?thesis using 1 i q val [of i] val [OF q] H(2) [of c] hc c by simp
    next
      case 2
      then show ?thesis using i q val [of i] val [OF q] least [of i] by simp
    next
      case 3
      then show ?thesis using i q val [of i] val [OF q] H(1) [of i] by simp
    qed
  next
    fix i assume i: "0 < i \<and> i < length ?v \<and> (i - 1) div 2 = c \<and> 0 < c"
    then have "i \<noteq> h" "i \<noteq> c" using hc by auto
    then show "?v ! ((c - 1) div 2) \<le> ?v ! i"
      using i hc H(1) [of i] H(3) val [of i] val [of h] by auto
  qed
qed

lemma child_cases: "0 < i \<Longrightarrow> (i - 1) div 2 = h \<longleftrightarrow> i = 2 * h + 1 \<or> i = 2 * h + (2 :: nat)"
  by auto

lemma least_child:
  assumes "\<And>x y :: 'a::preorder. x \<le> y \<or> y \<le> x"
  shows "b > a \<longrightarrow> (a :: 'a) \<le> b" and "\<not> b > a \<longrightarrow> b \<le> (a :: 'a)"
  using assms by (auto simp: less_imp_le) (metis less_le_not_le)

lemma sink_hole_heap:
  assumes total: "\<And>x y :: 'a::preorder. x \<le> y \<or> y \<le> x"
  shows "hole_heap h (v :: 'a list) \<Longrightarrow> sink_hole h v = (h', v') \<Longrightarrow>
    hole_heap h' v' \<and> length v' = length v \<and> others h' v' = others h v \<and> \<not> 2 * h' + 1 < length v'"
proof (induction h v rule: sink_hole.induct)
  case (1 h v)
  note H = hole_heapD [OF 1(2)]
  let ?c = "if v ! (2 * h + 2) > v ! (2 * h + 1) then 2 * h + 1 else 2 * h + 2"
  consider (two) "2 * h + 2 < length v" | (one) "\<not> 2 * h + 2 < length v" "2 * h + 1 < length v"
    | (leaf) "\<not> 2 * h + 1 < length v" by linarith
  then show ?case
  proof cases
    case two
    then have rec: "sink_hole ?c (v[h := v ! ?c]) = (h', v')" 
      using 1(3) unfolding sink_hole.simps [of h v] Let_def by (simp only: if_True)
    have "hole_heap ?c (v[h := v ! ?c])"
    proof (rule sink_step_heap [OF 1(2)])
      show "?c = 2 * h + 1 \<or> ?c = 2 * h + 2" "?c < length v" using two by auto
      show "v ! ?c \<le> v ! i" if "0 < i" "i < length v" "(i - 1) div 2 = h" for i
      proof (cases "i = 2 * h + 1")
        case True
        then show ?thesis using least_child(2) [OF total, of "v ! (2 * h + 1)" "v ! (2 * h + 2)"] by simp
      next
        case False
        then have "i = 2 * h + 2" using that child_cases by blast
        then show ?thesis using least_child(1) [OF total, of "v ! (2 * h + 1)" "v ! (2 * h + 2)"] by simp
      qed
    qed
    moreover have "others ?c (v[h := v ! ?c]) = others h v" using two by (intro others_move) auto
    ultimately show ?thesis using 1(1) [OF two refl] rec by simp
  next
    case one
    then have eq: "h' = 2 * h + 1" "v' = v[h := v ! (2 * h + 1)]"
      using 1(3) by (auto simp: sink_hole.simps [of h v])
    have "hole_heap (2 * h + 1) (v[h := v ! (2 * h + 1)])"
      using one child_cases by (intro sink_step_heap [OF 1(2)]) auto
    then show ?thesis using one eq others_move [of h v "2 * h + 1"] by simp
  next
    case leaf
    then show ?thesis using 1(2,3) by (auto simp: sink_hole.simps [of h v])
  qed
qed

section \<open>The queue\<close>

lemma is_heap_top:
  assumes "is_heap v"
  shows "i < length v \<Longrightarrow> v ! 0 \<le> v ! i"
proof (induction i rule: less_induct)
  case (less i)
  show ?case
  proof (cases "i = 0")
    case False
    then have "v ! ((i - 1) div 2) \<le> v ! i" using assms less.prems by (simp add: is_heap_def)
    moreover have "v ! 0 \<le> v ! ((i - 1) div 2)"
      using False less.prems parent_less [of i] by (intro less.IH) auto
    ultimately show ?thesis by (rule order_trans [rotated])
  qed simp
qed

lemma pq_push_mset: "mset (pq_push x v) = add_mset x (mset v)"
  by (simp add: pq_push_def push_hole_mset others_def)

lemma pq_push_heap:
  assumes "\<And>x y :: 'a::preorder. x \<le> y \<or> y \<le> x" and "is_heap v"
  shows "is_heap (pq_push (x :: 'a) v)"
  unfolding pq_push_def
proof (rule push_hole_heap [OF assms(1)])
  have "i - 1 < length v \<Longrightarrow> (i - 1) div 2 < length v" for i by auto
  then show "hole_heap (length v) (v @ [x])"
    using assms(2) parent_less by (auto simp: hole_heap_def is_heap_def nth_append)
  show "\<forall>i. 0 < i \<and> i < length (v @ [x]) \<and> (i - 1) div 2 = length v \<longrightarrow> x \<le> (v @ [x]) ! i" by auto
qed

lemma pq_pop_facts:
  assumes total: "\<And>x y :: 'a::preorder. x \<le> y \<or> y \<le> x" and heap: "is_heap (v :: 'a list)" and ne: "v \<noteq> []"
  shows "is_heap (pq_pop v) \<and> mset (pq_pop v) = mset v - {#pq_top v#}"
proof (cases "length v \<le> 1")
  case True
  then have "v = [pq_top v]" using ne by (cases v) (auto simp: pq_top_def)
  then show ?thesis using True by (metis diff_single_trivial add_mset_remove_trivial is_heap_def less_zeroE list.size(3) mset.simps pq_pop_def)
next
  case False
  let ?b = "butlast v"
  obtain h' v' where sink: "sink_hole 0 ?b = (h', v')" by fastforce
  have len: "length ?b > 0" using False by simp
  have "hole_heap 0 ?b"
    using heap False parent_less by (auto simp: hole_heap_def is_heap_def nth_butlast)
  from sink_hole_heap [OF total this sink] have
    S: "hole_heap h' v'" "length v' = length ?b" "others h' v' = others 0 ?b" "\<not> 2 * h' + 1 < length v'" by auto
  have pop: "pq_pop v = push_hole h' (last v) v'" using False sink by (simp add: pq_pop_def)
  have "is_heap (pq_pop v)"
    unfolding pop using S(1,4) child_cases by (intro push_hole_heap [OF total]) auto
  moreover have "mset (pq_pop v) = mset v - {#pq_top v#}"
  proof -
    have "mset v = add_mset (last v) (mset ?b)"
      using ne by (metis append_butlast_last_id mset.simps(2) mset_append union_mset_add_mset_right add_mset_add_single mset_single_iff_right)
    moreover have "pq_top v = ?b ! 0" using len by (simp add: pq_top_def nth_butlast)
    moreover have "?b ! 0 \<in># mset ?b" using len by simp
    ultimately show ?thesis
      using push_hole_mset [OF hole_heapD(3) [OF S(1)], of "last v"] S(3) by (simp add: pop others_def)
  qed
  ultimately show ?thesis by simp
qed

end
