(* ===== verification/Timer.thy ===== *)
theory Timer
  imports Loop_Channel Std_Heap "HOL-Library.Signed_Division"
begin

text \<open>
  \<open>Timer\<close> (\<open>include/kzevent/timer/timer.hpp\<close>, \<open>src/timer/timer.cpp\<close>): a heap of \<open>TimerUnit\<close>s
  served by one timer descriptor. A call posts a closure to the io thread (\<open>timer_closure\<close>, one
  constructor per lambda), the closure changes the heap and arms the descriptor, and the event
  callback hands the due callbacks to the heavy thread. A timer acts on its object and the loop
  together. Time points and durations are signed 64-bit counts of nanoseconds; an overflow is a fault.
\<close>

section \<open>Data\<close>

record 'u TimerUnit =
  tu_cb :: 'u
  tu_owner :: LifeChecker
  time_stamp :: int
  repeat_interval :: int
  timer_id :: u64

text \<open>\<open>TimerUnit::operator<\<close> and \<open>operator>\<close> compare time stamps only.\<close>

instantiation TimerUnit_ext :: (type, type) preorder
begin

definition less_eq_TimerUnit_ext :: "('a, 'b) TimerUnit_ext \<Rightarrow> ('a, 'b) TimerUnit_ext \<Rightarrow> bool" where
  "less_eq_TimerUnit_ext u v \<longleftrightarrow> time_stamp u \<le> time_stamp v"

definition less_TimerUnit_ext :: "('a, 'b) TimerUnit_ext \<Rightarrow> ('a, 'b) TimerUnit_ext \<Rightarrow> bool" where
  "less_TimerUnit_ext u v \<longleftrightarrow> time_stamp u < time_stamp v"

instance
  by standard (auto simp: less_eq_TimerUnit_ext_def less_TimerUnit_ext_def)

end

datatype 'u timer_closure =
    OnceClosure 'u LifeChecker u64 u64
  | RepeatClosure 'u LifeChecker u64 u64
  | CancelClosure u64
  | UserClosure 'u

datatype timer_callback = TimerEvent

type_synonym ('k, 'u) timer_loop_state = "('k, timer_callback, 'u timer_closure) Loop"

record 'u Timer =
  timer_queue :: "'u TimerUnit list"
  timer_id_start :: u64
  delete_timer_ids :: "u64 set"
  timer_channel :: LoopChannel
  started :: bool
  tm_self :: LifeChecker

section \<open>Operations\<close>

text \<open>A signed 64-bit result, and \<open>std::chrono::milliseconds(timeout_ms)\<close> as a duration in nanoseconds.\<close>

definition signed64 :: "int \<Rightarrow> fault + int" where
  "signed64 x = (if - (2 ^ 63) \<le> x \<and> x < 2 ^ 63 then Inr x else Inl SignedOverflow)"

definition milliseconds :: "u64 \<Rightarrow> fault + int" where
  "milliseconds ms = signed64 (sint ms * 1000000)"

definition make_timer_channel :: "'k os \<Rightarrow> ('k, 'cb, 't) Loop \<Rightarrow> LoopChannel option \<times> ('k, 'cb, 't) Loop" where
  "make_timer_channel os l =
     (case os_timerfd_create os (kern l) of
        (Inl err, k) \<Rightarrow> (None, write_log (LogSysError err) (l\<lparr>kern := k\<rparr>))
      | (Inr fd, k) \<Rightarrow> (let (ch, l') = construct_LoopChannel os fd (l\<lparr>kern := k\<rparr>) in (Some ch, l')))"

definition construct_Timer :: "'k os \<Rightarrow> LifeChecker \<Rightarrow> ('k, 'u) timer_loop_state \<Rightarrow>
    fault + 'u Timer \<times> ('k, 'u) timer_loop_state" where
  "construct_Timer os self l =
     (case make_timer_channel os l of
        (None, _) \<Rightarrow> Inl (Thrown ''make timer channel failed'')
      | (Some ch, l') \<Rightarrow> Inr (\<lparr>timer_queue = [], timer_id_start = 0, delete_timer_ids = {},
          timer_channel = ch, started = False, tm_self = self\<rparr>, l'))"

definition timer_start :: "'k os \<Rightarrow> 'u Timer \<Rightarrow> ('k, 'u) timer_loop_state \<Rightarrow>
    'u Timer \<times> ('k, 'u) timer_loop_state" where
  "timer_start os tm l =
     (if started tm then (tm, l)
      else let (ch, l') = update_event_cb os (tm_self tm) kRead kDefault TimerEvent (timer_channel tm) l
           in (tm\<lparr>started := True, timer_channel := ch\<rparr>, l'))"

definition timer_stop :: "'k os \<Rightarrow> 'u Timer \<Rightarrow> ('k, 'u) timer_loop_state \<Rightarrow>
    'u Timer \<times> ('k, 'u) timer_loop_state" where
  "timer_stop os tm l = (tm\<lparr>started := False\<rparr>, disable_event os (timer_channel tm) l)"

text \<open>The static factory, and the destructor with that of the channel it owns.\<close>

definition make_timer :: "'k os \<Rightarrow> LifeChecker \<Rightarrow> ('k, 'u) timer_loop_state \<Rightarrow>
    fault + 'u Timer \<times> ('k, 'u) timer_loop_state" where
  "make_timer os self l = and_then (construct_Timer os self l) (\<lambda>(tm, l'). Inr (timer_start os tm l'))"

definition destroy_Timer :: "'k os \<Rightarrow> 'u Timer \<Rightarrow> ('k, 'u) timer_loop_state \<Rightarrow> ('k, 'u) timer_loop_state" where
  "destroy_Timer os tm l = (let (tm', l') = timer_stop os tm l in destroy_LoopChannel os (timer_channel tm') l')"

text \<open>The next id, skipping the reserved 0: the id and the new \<open>timer_id_start_\<close>.\<close>

definition next_timer_id :: "u64 \<Rightarrow> u64 \<times> u64" where
  "next_timer_id s = (if s + 1 = 0 then (s + 2, s + 2) else (s + 1, s + 1))"

definition post_once_task :: "'k os \<Rightarrow> 'u \<Rightarrow> LifeChecker \<Rightarrow> u64 \<Rightarrow> 'u Timer \<Rightarrow> ('k, 'u) timer_loop_state \<Rightarrow>
    u64 \<times> 'u Timer \<times> ('k, 'u) timer_loop_state" where
  "post_once_task os cb owner timeout_ms tm l =
     (let (tid, start) = next_timer_id (timer_id_start tm)
      in (tid, tm\<lparr>timer_id_start := start\<rparr>,
          channel_post_io_task os (tm_self tm) (OnceClosure cb owner timeout_ms tid) (timer_channel tm) l))"

definition post_repeat_task :: "'k os \<Rightarrow> 'u \<Rightarrow> LifeChecker \<Rightarrow> u64 \<Rightarrow> 'u Timer \<Rightarrow> ('k, 'u) timer_loop_state \<Rightarrow>
    u64 \<times> 'u Timer \<times> ('k, 'u) timer_loop_state" where
  "post_repeat_task os cb owner timeout_ms tm l =
     (let (tid, start) = next_timer_id (timer_id_start tm)
      in (tid, tm\<lparr>timer_id_start := start\<rparr>,
          channel_post_io_task os (tm_self tm) (RepeatClosure cb owner timeout_ms tid) (timer_channel tm) l))"

definition cancel_task :: "'k os \<Rightarrow> u64 \<Rightarrow> 'u Timer \<Rightarrow> ('k, 'u) timer_loop_state \<Rightarrow> ('k, 'u) timer_loop_state" where
  "cancel_task os tid tm l = channel_post_io_task os (tm_self tm) (CancelClosure tid) (timer_channel tm) l"

text \<open>The delay that \<open>set_next_wake_time\<close> asks for, as seconds and nanoseconds.\<close>

definition wake_delay :: "int \<Rightarrow> int \<times> int" where
  "wake_delay ns =
     (let timeout_ms = ns sdiv 1000000
      in if timeout_ms \<le> 0 then (0, 1) else (timeout_ms sdiv 1000, timeout_ms smod 1000 * 1000000))"

definition set_next_wake_time :: "'k os \<Rightarrow> int \<Rightarrow> 'u Timer \<Rightarrow> ('k, 'u) timer_loop_state \<Rightarrow>
    fault + ('k, 'u) timer_loop_state" where
  "set_next_wake_time os time tm l =
     (let (now, k) = os_steady_now os (kern l)
      in and_then (signed64 (time - now)) (\<lambda>ns.
        let (fd, l1) = get_fd (timer_channel tm) (l\<lparr>kern := k\<rparr>)
        in case os_timerfd_settime os fd (wake_delay ns) (0, 0) (kern l1) of
             (Inl err, k2) \<Rightarrow> Inr (write_log (LogSysError err) (l1\<lparr>kern := k2\<rparr>))
           | (Inr _, k2) \<Rightarrow> Inr (l1\<lparr>kern := k2\<rparr>)))"

text \<open>
  The lambdas of \<open>post_once_task\<close> and \<open>post_repeat_task\<close>: they differ in the interval they
  store. The descriptor is armed when the new unit is at the top or as early as the top.
\<close>

definition insert_unit :: "'k os \<Rightarrow> 'u TimerUnit \<Rightarrow> 'u Timer \<Rightarrow> ('k, 'u) timer_loop_state \<Rightarrow>
    fault + 'u Timer \<times> ('k, 'u) timer_loop_state" where
  "insert_unit os u tm l =
     (let q = pq_push u (timer_queue tm); tm1 = tm\<lparr>timer_queue := q\<rparr>
      in if time_stamp (pq_top q) = time_stamp u
         then and_then (set_next_wake_time os (time_stamp (pq_top q)) tm1 l) (\<lambda>l1. Inr (tm1, l1))
         else Inr (tm1, l))"

definition once_closure :: "'k os \<Rightarrow> 'u \<Rightarrow> LifeChecker \<Rightarrow> u64 \<Rightarrow> u64 \<Rightarrow> 'u Timer \<Rightarrow> ('k, 'u) timer_loop_state \<Rightarrow>
    fault + 'u Timer \<times> ('k, 'u) timer_loop_state" where
  "once_closure os cb owner timeout_ms tid tm l =
     (let (now, k) = os_steady_now os (kern l)
      in and_then (milliseconds timeout_ms) (\<lambda>delay. and_then (signed64 (now + delay)) (\<lambda>stamp.
        insert_unit os \<lparr>tu_cb = cb, tu_owner = owner, time_stamp = stamp, repeat_interval = 0, timer_id = tid\<rparr>
          tm (l\<lparr>kern := k\<rparr>))))"

definition repeat_closure :: "'k os \<Rightarrow> 'u \<Rightarrow> LifeChecker \<Rightarrow> u64 \<Rightarrow> u64 \<Rightarrow> 'u Timer \<Rightarrow> ('k, 'u) timer_loop_state \<Rightarrow>
    fault + 'u Timer \<times> ('k, 'u) timer_loop_state" where
  "repeat_closure os cb owner timeout_ms tid tm l =
     and_then (milliseconds timeout_ms) (\<lambda>interval.
       let (now, k) = os_steady_now os (kern l)
       in and_then (signed64 (now + interval)) (\<lambda>stamp.
        insert_unit os \<lparr>tu_cb = cb, tu_owner = owner, time_stamp = stamp, repeat_interval = interval, timer_id = tid\<rparr>
          tm (l\<lparr>kern := k\<rparr>)))"

definition cancel_closure :: "u64 \<Rightarrow> 'u Timer \<Rightarrow> 'u Timer" where
  "cancel_closure tid tm = tm\<lparr>delete_timer_ids := insert tid (delete_timer_ids tm)\<rparr>"

text \<open>
  The loop of the event callback. A unit that is due is taken off the heap; a cancelled one is
  dropped, another is handed to the heavy thread after a periodic one was put back.
\<close>

definition hand_over :: "'u TimerUnit \<Rightarrow> 'u Timer \<Rightarrow> ('k, 'u) timer_loop_state \<Rightarrow> ('k, 'u) timer_loop_state" where
  "hand_over u tm l = channel_post_heavy_task (tu_owner u) (UserClosure (tu_cb u)) (timer_channel tm) l"

partial_function (option) fire_due :: "'k os \<Rightarrow> int \<Rightarrow> 'u Timer \<Rightarrow> ('k, 'u) timer_loop_state \<Rightarrow>
    (fault + 'u Timer \<times> ('k, 'u) timer_loop_state) option" where
  "fire_due os now tm l =
     (if timer_queue tm = [] then Some (Inr (tm, l))
      else
        let timer = pq_top (timer_queue tm); tm1 = tm\<lparr>timer_queue := pq_pop (timer_queue tm)\<rparr>
        in if time_stamp timer > now
           then Some (and_then (set_next_wake_time os (time_stamp timer) tm l) (\<lambda>l1. Inr (tm, l1)))
           else if timer_id timer \<in> delete_timer_ids tm
           then fire_due os now (tm1\<lparr>delete_timer_ids := delete_timer_ids tm1 - {timer_id timer}\<rparr>) l
           else if repeat_interval timer \<noteq> 0
           then (case os_steady_now os (kern l) of (t, k) \<Rightarrow>
             (case signed64 (t + repeat_interval timer) of
                Inl f \<Rightarrow> Some (Inl f)
              | Inr stamp \<Rightarrow>
                  fire_due os now (tm1\<lparr>timer_queue := pq_push (timer\<lparr>time_stamp := stamp\<rparr>) (timer_queue tm1)\<rparr>)
                    (hand_over timer tm (l\<lparr>kern := k\<rparr>))))
           else fire_due os now tm1 (hand_over timer tm l))"

definition timer_event :: "'k os \<Rightarrow> 'u Timer \<Rightarrow> ('k, 'u) timer_loop_state \<Rightarrow>
    (fault + 'u Timer \<times> ('k, 'u) timer_loop_state) option" where
  "timer_event os tm l =
     (let (fd, l0) = get_fd (timer_channel tm) l
      in case drain_counter os fd (kern l0) of
           None \<Rightarrow> None
         | Some (err, k) \<Rightarrow>
             if err \<noteq> EAGAIN then Some (Inl (SysFatal err))
             else if timer_queue tm = [] then Some (Inr (tm, l0\<lparr>kern := k\<rparr>))
             else (case os_steady_now os k of (now, k1) \<Rightarrow> fire_due os now tm (l0\<lparr>kern := k1\<rparr>)))"


section \<open>Invariant and lemmas\<close>

lemma unit_total: "(u :: 'u TimerUnit) \<le> v \<or> v \<le> u"
  by (auto simp: less_eq_TimerUnit_ext_def)

lemma pq_top_in: "v \<noteq> [] \<Longrightarrow> pq_top v \<in># mset v"
  by (simp add: pq_top_def)

interpretation tq: min_queue "is_heap :: 'u TimerUnit list \<Rightarrow> bool" mset pq_push pq_top pq_pop
proof
  fix q :: "'u TimerUnit list" and x
  assume heap: "is_heap q"
  show "is_heap (pq_push x q)" using pq_push_heap [OF unit_total heap] .
  show "mset (pq_push x q) = add_mset x (mset q)" by (rule pq_push_mset)
  show "pq_top q \<in># mset q" if "mset q \<noteq> {#}" using that by (intro pq_top_in) auto
  show "pq_top q \<le> x" if "x \<in># mset q"
    using that is_heap_top [OF heap] by (auto simp: in_set_conv_nth pq_top_def)
  show "is_heap (pq_pop q)" "mset (pq_pop q) = mset q - {#pq_top q#}" if "mset q \<noteq> {#}"
    using pq_pop_facts [OF unit_total heap] that by auto
qed

text \<open>
  The heap is in order, ids are unique, and times are in range: intervals below \<open>2^62\<close>
  nanoseconds and stamps that no addition of one to the clock can overflow.
\<close>

definition timer_inv :: "'u Timer \<Rightarrow> bool" where
  "timer_inv tm \<longleftrightarrow> is_heap (timer_queue tm) \<and> distinct (map timer_id (timer_queue tm)) \<and>
     (\<forall>u\<in>set (timer_queue tm). 0 \<le> repeat_interval u \<and> repeat_interval u < 2 ^ 62 \<and>
        0 \<le> time_stamp u \<and> time_stamp u < 2 ^ 63)"

text \<open>A unit without its time stamp, which is all that changes when a periodic unit is put back.\<close>

definition untimed :: "'u TimerUnit \<Rightarrow> 'u TimerUnit" where
  "untimed u = u\<lparr>time_stamp := 0\<rparr>"

text \<open>What one run of the callback at time \<open>now\<close> does to the timer and to the queue of the heavy thread.\<close>

definition fires :: "'k os \<Rightarrow> int \<Rightarrow> 'u Timer \<Rightarrow> ('k, 'u) timer_loop_state \<Rightarrow> 'u TimerUnit list \<Rightarrow>
    'u Timer \<Rightarrow> ('k, 'u) timer_loop_state \<Rightarrow> bool" where
  "fires os now tm l fired tm' l' \<longleftrightarrow>
     sorted (map time_stamp fired) \<and>
     mset fired = {#u \<in># mset (timer_queue tm). time_stamp u \<le> now \<and> timer_id u \<notin> delete_timer_ids tm#} \<and>
     heavy_buffer_queue l' = heavy_buffer_queue l @ map (\<lambda>u. WrapperTask (tu_owner u) (UserClosure (tu_cb u))) fired \<and>
     delete_timer_ids tm' = delete_timer_ids tm - timer_id ` {u \<in> set (timer_queue tm). time_stamp u \<le> now} \<and>
     image_mset untimed (mset (timer_queue tm')) =
       image_mset untimed {#u \<in># mset (timer_queue tm). now < time_stamp u#} +
       image_mset untimed {#u \<in># mset fired. repeat_interval u \<noteq> 0#} \<and>
     timer_inv tm' \<and> (\<forall>u\<in>set (timer_queue tm'). now < time_stamp u) \<and>
     (timer_queue tm' \<noteq> [] \<longrightarrow>
       (\<exists>l0. set_next_wake_time os (time_stamp (pq_top (timer_queue tm'))) tm' l0 = Inr l'))"

lemma signed64_Inr: "signed64 x = Inr y \<longleftrightarrow> y = x \<and> - (2 ^ 63) \<le> x \<and> x < 2 ^ 63"
  by (auto simp: signed64_def)

lemma signed64_small: "0 \<le> x \<Longrightarrow> x < 2 ^ 63 \<Longrightarrow> signed64 x = Inr x"
  by (simp add: signed64_def)

lemma get_fd_frame: "get_fd ch l = (fd, l1) \<Longrightarrow>
    heavy_buffer_queue l1 = heavy_buffer_queue l \<and> kern l1 = kern l \<and> io_buffer_queue l1 = io_buffer_queue l"
  by (auto simp: get_fd_def invalid_access_def split: if_splits)

lemma set_next_wake_time_frame:
  assumes "set_next_wake_time os time tm l = Inr l'"
  shows "heavy_buffer_queue l' = heavy_buffer_queue l"
proof -
  obtain now k where now: "os_steady_now os (kern l) = (now, k)" by fastforce
  obtain fd l1 where fd: "get_fd (timer_channel tm) (l\<lparr>kern := k\<rparr>) = (fd, l1)" by fastforce
  obtain r k2 where set: "os_timerfd_settime os fd (wake_delay (time - now)) (0, 0) (kern l1) = (r, k2)" by fastforce
  show ?thesis
    using assms now fd set get_fd_frame [OF fd]
    by (auto simp: set_next_wake_time_def signed64_def split: if_splits sum.splits)
qed

lemma hand_over_frame:
  "\<not> invalid_channel (timer_channel tm) \<Longrightarrow>
   heavy_buffer_queue (hand_over u tm l) = heavy_buffer_queue l @ [WrapperTask (tu_owner u) (UserClosure (tu_cb u))] \<and>
   kern (hand_over u tm l) = kern l"
  by (simp add: hand_over_def channel_post_heavy_task_def post_heavy_task_def wake_heavy_up_def)

text \<open>The invariant depends on the heap order and on the units only.\<close>

lemma distinct_ids_mset: "mset q = mset q' \<Longrightarrow> distinct (map timer_id q) \<longleftrightarrow> distinct (map timer_id q')"
  by (metis mset_eq_imp_distinct_iff mset_map)

lemma timer_inv_pop:
  assumes "timer_inv tm" and "timer_queue tm = q" and "q \<noteq> []"
  shows "mset q = add_mset (pq_top q) (mset (pq_pop q))" and "is_heap (pq_pop q)"
    and "distinct (map timer_id (pq_pop q))" and "timer_id (pq_top q) \<notin> timer_id ` set (pq_pop q)"
    and "\<forall>u\<in>set (pq_pop q). time_stamp (pq_top q) \<le> time_stamp u"
    and "0 \<le> repeat_interval (pq_top q) \<and> repeat_interval (pq_top q) < 2 ^ 62 \<and>
      0 \<le> time_stamp (pq_top q) \<and> time_stamp (pq_top q) < 2 ^ 63"
    and "\<forall>u\<in>set (pq_pop q). 0 \<le> repeat_interval u \<and> repeat_interval u < 2 ^ 62 \<and>
      0 \<le> time_stamp u \<and> time_stamp u < 2 ^ 63"
proof -
  have heap: "is_heap q" using assms by (simp add: timer_inv_def)
  show split: "mset q = add_mset (pq_top q) (mset (pq_pop q))"
    using tq.elems_split [OF heap] assms(3) by simp
  show "is_heap (pq_pop q)" using tq.pop_inv [OF heap] assms(3) by simp
  have "distinct (map timer_id (pq_top q # pq_pop q))"
    using assms(1,2) distinct_ids_mset [of q "pq_top q # pq_pop q"] split by (simp add: timer_inv_def)
  then show "distinct (map timer_id (pq_pop q))" "timer_id (pq_top q) \<notin> timer_id ` set (pq_pop q)" by simp_all
  have set: "set q = insert (pq_top q) (set (pq_pop q))"
    using split by (metis set_mset_add_mset_insert set_mset_mset)
  show "0 \<le> repeat_interval (pq_top q) \<and> repeat_interval (pq_top q) < 2 ^ 62 \<and>
      0 \<le> time_stamp (pq_top q) \<and> time_stamp (pq_top q) < 2 ^ 63"
    and "\<forall>u\<in>set (pq_pop q). 0 \<le> repeat_interval u \<and> repeat_interval u < 2 ^ 62 \<and>
      0 \<le> time_stamp u \<and> time_stamp u < 2 ^ 63"
    using assms set unfolding timer_inv_def by blast+
  show "\<forall>u\<in>set (pq_pop q). time_stamp (pq_top q) \<le> time_stamp u"
    using assms set tq.top_le [OF heap] by (auto simp: less_eq_TimerUnit_ext_def)
qed

text \<open>The four ways one turn of the loop goes.\<close>

lemma fires_rest:
  assumes inv: "timer_inv tm" and future: "\<forall>u\<in>set (timer_queue tm). now < time_stamp u"
    and l': "timer_queue tm \<noteq> [] \<Longrightarrow> set_next_wake_time os (time_stamp (pq_top (timer_queue tm))) tm l = Inr l'"
    and "timer_queue tm = [] \<Longrightarrow> l' = l"
  shows "fires os now tm l [] tm l'"
proof -
  have "{#u \<in># mset (timer_queue tm). now < time_stamp u#} = mset (timer_queue tm)"
    using future by (simp add: filter_mset_eq_conv)
  moreover have "{#u \<in># mset (timer_queue tm). time_stamp u \<le> now \<and> timer_id u \<notin> delete_timer_ids tm#} = {#}"
    using future by (auto simp: filter_empty_conv simp flip: mset_filter)
  moreover have "timer_id ` {u \<in> set (timer_queue tm). time_stamp u \<le> now} = {}" using future by auto
  moreover have "heavy_buffer_queue l' = heavy_buffer_queue l"
    using assms(3,4) set_next_wake_time_frame by blast
  ultimately show ?thesis using assms by (auto simp: fires_def)
qed


lemma fires_cancelled:
  assumes inv: "timer_inv tm" and q: "timer_queue tm = q" "q \<noteq> []"
    and due: "time_stamp (pq_top q) \<le> now" and del: "timer_id (pq_top q) \<in> delete_timer_ids tm"
    and rest: "fires os now (tm\<lparr>timer_queue := pq_pop q, delete_timer_ids := delete_timer_ids tm - {timer_id (pq_top q)}\<rparr>)
      l fired tm' l'"
  shows "fires os now tm l fired tm' l'"
proof -
  note pop = timer_inv_pop [OF inv q]
  have set: "set q = insert (pq_top q) (set (pq_pop q))"
    using pop(1) by (metis set_mset_add_mset_insert set_mset_mset)
  have "{#u \<in># mset (pq_pop q). time_stamp u \<le> now \<and> timer_id u \<notin> delete_timer_ids tm - {timer_id (pq_top q)}#} =
      {#u \<in># mset (pq_pop q). time_stamp u \<le> now \<and> timer_id u \<notin> delete_timer_ids tm#}"
    using pop(4) by (intro filter_mset_cong) (auto intro: rev_image_eqI)
  moreover have "delete_timer_ids tm - {timer_id (pq_top q)} - timer_id ` {u \<in> set (pq_pop q). time_stamp u \<le> now} =
      delete_timer_ids tm - timer_id ` {u \<in> set q. time_stamp u \<le> now}"
    using set due by auto
  ultimately show ?thesis using rest due del by (simp add: fires_def q pop(1))
qed

lemma fires_once:
  assumes inv: "timer_inv tm" and q: "timer_queue tm = q" "q \<noteq> []"
    and due: "time_stamp (pq_top q) \<le> now" and del: "timer_id (pq_top q) \<notin> delete_timer_ids tm"
    and once: "repeat_interval (pq_top q) = 0" and ch: "\<not> invalid_channel (timer_channel tm)"
    and rest: "fires os now (tm\<lparr>timer_queue := pq_pop q\<rparr>) (hand_over (pq_top q) tm l) fired tm' l'"
  shows "fires os now tm l (pq_top q # fired) tm' l'"
proof -
  note pop = timer_inv_pop [OF inv q]
  have set: "set q = insert (pq_top q) (set (pq_pop q))"
    using pop(1) by (metis set_mset_add_mset_insert set_mset_mset)
  have "set fired \<subseteq> set (pq_pop q)"
    using rest by (auto simp: fires_def simp flip: set_mset_mset)
  then have "sorted (map time_stamp (pq_top q # fired))" using rest pop(5) by (auto simp: fires_def)
  moreover have "delete_timer_ids tm - timer_id ` {u \<in> set (pq_pop q). time_stamp u \<le> now} =
      delete_timer_ids tm - timer_id ` {u \<in> set q. time_stamp u \<le> now}"
    using set due del by auto
  ultimately show ?thesis
    using rest due del once hand_over_frame [OF ch, of "pq_top q" l] by (simp add: fires_def q pop(1))
qed

lemma fires_repeat:
  assumes inv: "timer_inv tm" and q: "timer_queue tm = q" "q \<noteq> []"
    and due: "time_stamp (pq_top q) \<le> now" and del: "timer_id (pq_top q) \<notin> delete_timer_ids tm"
    and repeat: "repeat_interval (pq_top q) \<noteq> 0" and ch: "\<not> invalid_channel (timer_channel tm)"
    and stamp: "now < stamp"
    and rest: "fires os now (tm\<lparr>timer_queue := pq_push ((pq_top q)\<lparr>time_stamp := stamp\<rparr>) (pq_pop q)\<rparr>)
      (hand_over (pq_top q) tm (l\<lparr>kern := k\<rparr>)) fired tm' l'"
  shows "fires os now tm l (pq_top q # fired) tm' l'"
proof -
  let ?top = "(pq_top q)\<lparr>time_stamp := stamp\<rparr>"
  note pop = timer_inv_pop [OF inv q]
  have set: "set q = insert (pq_top q) (set (pq_pop q))"
    using pop(1) by (metis set_mset_add_mset_insert set_mset_mset)
  have push: "mset (pq_push ?top (pq_pop q)) = add_mset ?top (mset (pq_pop q))" by (rule pq_push_mset)
  have "set fired \<subseteq> set (pq_pop q)"
    using rest stamp by (auto simp: fires_def push simp flip: set_mset_mset)
  then have "sorted (map time_stamp (pq_top q # fired))" using rest pop(5) by (auto simp: fires_def)
  moreover have "set (pq_push ?top (pq_pop q)) = insert ?top (set (pq_pop q))"
    by (metis push set_mset_add_mset_insert set_mset_mset)
  then have "delete_timer_ids tm - timer_id ` {u \<in> set (pq_push ?top (pq_pop q)). time_stamp u \<le> now} =
      delete_timer_ids tm - timer_id ` {u \<in> set q. time_stamp u \<le> now}"
    using set due del stamp by auto
  moreover have "untimed ?top = untimed (pq_top q)" by (simp add: untimed_def)
  ultimately show ?thesis
    using rest due del repeat stamp hand_over_frame [OF ch, of "pq_top q" "l\<lparr>kern := k\<rparr>"]
    by (simp add: fires_def q pop(1) push)
qed

text \<open>Taking a due unit off, and putting a periodic one back after \<open>now\<close>, leaves one less that is due.\<close>

definition due_count :: "int \<Rightarrow> 'u Timer \<Rightarrow> nat" where
  "due_count now tm = length (filter (\<lambda>u. time_stamp u \<le> now) (timer_queue tm))"

lemma due_count_mset: "due_count now tm = size {#u \<in># mset (timer_queue tm). time_stamp u \<le> now#}"
  by (simp add: due_count_def flip: mset_filter)

lemma timer_inv_push:
  assumes inv: "timer_inv tm" and q: "timer_queue tm = q" "q \<noteq> []"
  shows "0 \<le> stamp \<Longrightarrow> stamp < 2 ^ 63 \<Longrightarrow>
      timer_inv (tm\<lparr>timer_queue := pq_push ((pq_top q)\<lparr>time_stamp := stamp\<rparr>) (pq_pop q)\<rparr>)"
    and "timer_inv (tm\<lparr>timer_queue := pq_pop q\<rparr>)"
proof -
  let ?top = "(pq_top q)\<lparr>time_stamp := stamp\<rparr>"
  note pop = timer_inv_pop [OF inv q]
  have push: "mset (pq_push ?top (pq_pop q)) = mset (?top # pq_pop q)" by (simp add: pq_push_mset)
  have "set (pq_push ?top (pq_pop q)) = insert ?top (set (pq_pop q))"
    using mset_eq_setD [OF push] by simp
  then show "timer_inv (tm\<lparr>timer_queue := pq_push ?top (pq_pop q)\<rparr>)" if "0 \<le> stamp" "stamp < 2 ^ 63"
    using that pop distinct_ids_mset [OF push] tq.push_inv [OF pop(2)] by (simp add: timer_inv_def)
  show "timer_inv (tm\<lparr>timer_queue := pq_pop q\<rparr>)" using pop by (simp add: timer_inv_def)
qed

lemma set_next_wake_time_total:
  assumes "clock_in_range os" and "0 \<le> time" and "time < 2 ^ 63"
  obtains l' where "set_next_wake_time os time tm l = Inr l'"
proof -
  obtain now k where now: "os_steady_now os (kern l) = (now, k)" by fastforce
  have "signed64 (time - now) = Inr (time - now)"
    using clock_in_rangeD [OF assms(1) now] assms(2,3) by (simp add: signed64_def)
  then show ?thesis using now that
    by (cases "set_next_wake_time os time tm l") (auto simp: set_next_wake_time_def split: prod.splits sum.splits)
qed

definition served :: "'k os \<Rightarrow> int \<Rightarrow> 'u Timer \<Rightarrow> ('k, 'u) timer_loop_state \<Rightarrow> bool" where
  "served os now tm l \<longleftrightarrow>
     (\<exists>tm' l' fired. fire_due os now tm l = Some (Inr (tm', l')) \<and> fires os now tm l fired tm' l')"

lemma servedI:
  "fire_due os now tm l = fire_due os now tm1 l1 \<Longrightarrow> served os now tm1 l1 \<Longrightarrow>
   (\<And>fired tm' l'. fires os now tm1 l1 fired tm' l' \<Longrightarrow> \<exists>fired'. fires os now tm l fired' tm' l') \<Longrightarrow>
   served os now tm l"
  by (fastforce simp: served_def)

lemma served_rest:
  assumes clock: "clock_in_range os" and inv: "timer_inv tm"
    and stop: "timer_queue tm \<noteq> [] \<Longrightarrow> now < time_stamp (pq_top (timer_queue tm))"
  shows "served os now tm l"
proof -
  have "u \<in> set (timer_queue tm) \<Longrightarrow> now < time_stamp u" for u
    using stop tq.top_le [of "timer_queue tm" u] inv by (cases "timer_queue tm = []")
      (auto simp: timer_inv_def less_eq_TimerUnit_ext_def)
  then have rest: "fires os now tm l [] tm l'"
    if "timer_queue tm = [] \<and> l' = l \<or> set_next_wake_time os (time_stamp (pq_top (timer_queue tm))) tm l = Inr l' \<and> timer_queue tm \<noteq> []" for l'
    using that fires_rest [OF inv, of now os l l'] by auto
  show ?thesis
  proof (cases "timer_queue tm = []")
    case True
    then show ?thesis using rest [of l] by (auto simp: served_def fire_due.simps [of os now tm])
  next
    case False
    then obtain l' where "set_next_wake_time os (time_stamp (pq_top (timer_queue tm))) tm l = Inr l'"
      using set_next_wake_time_total [OF clock, of "time_stamp (pq_top (timer_queue tm))" tm l]
        timer_inv_pop(6) [OF inv refl] by auto
    then show ?thesis using rest [of l'] stop False by (auto simp: served_def fire_due.simps [of os now tm] Let_def)
  qed
qed

lemma fire_due_returns:
  assumes clock: "clock_documented os clk" and range: "clock_in_range os"
  shows "timer_inv tm \<Longrightarrow> \<not> invalid_channel (timer_channel tm) \<Longrightarrow> now \<le> clk (kern l) \<Longrightarrow> served os now tm l"
proof (induction "due_count now tm" arbitrary: tm l rule: less_induct)
  case less
  note inv = less.prems(1) and ch = less.prems(2) and now = less.prems(3)
  let ?q = "timer_queue tm" and ?t = "pq_top (timer_queue tm)"
  show ?case
  proof (cases "?q = [] \<or> now < time_stamp ?t")
    case True
    then show ?thesis by (intro served_rest [OF range inv]) auto
  next
    case False
    then have ne: "?q \<noteq> []" and due: "time_stamp ?t \<le> now" by auto
    note pop = timer_inv_pop [OF inv refl ne] and keeps = timer_inv_push [OF inv refl ne]
    have fewer: "timer_queue tm1 = pq_pop ?q \<Longrightarrow> due_count now tm1 < due_count now tm" for tm1 :: "'b Timer"
      using pop(1) due by (simp add: due_count_mset)
    consider (cancelled) "timer_id ?t \<in> delete_timer_ids tm"
      | (once) "timer_id ?t \<notin> delete_timer_ids tm" "repeat_interval ?t = 0"
      | (repeat) "timer_id ?t \<notin> delete_timer_ids tm" "repeat_interval ?t \<noteq> 0"
      by blast
    then show ?thesis
    proof cases
      case cancelled
      let ?tm = "tm\<lparr>timer_queue := pq_pop ?q, delete_timer_ids := delete_timer_ids tm - {timer_id ?t}\<rparr>"
      have "served os now ?tm l"
        using keeps(2) ch now by (intro less.hyps fewer) (simp_all add: timer_inv_def)
      then show ?thesis
        by (rule servedI [rotated]) (use cancelled ne due in \<open>auto intro: fires_cancelled [OF inv refl ne due]
            simp: Let_def fire_due.simps [of os now tm]\<close>)
    next
      case once
      have "served os now (tm\<lparr>timer_queue := pq_pop ?q\<rparr>) (hand_over ?t tm l)"
        using keeps(2) ch now hand_over_frame [OF ch, of ?t l] by (intro less.hyps fewer) simp_all
      then show ?thesis
        by (rule servedI [rotated]) (use once ne due in \<open>auto intro: fires_once [OF inv refl ne due once ch]
            simp: Let_def fire_due.simps [of os now tm]\<close>)
    next
      case repeat
      obtain t k where t: "os_steady_now os (kern l) = (t, k)" by fastforce
      note clk = clock_documentedD [OF clock t]
      let ?s = "t + repeat_interval ?t"
      let ?tm = "tm\<lparr>timer_queue := pq_push (?t\<lparr>time_stamp := ?s\<rparr>) (pq_pop ?q)\<rparr>"
      let ?l = "hand_over ?t tm (l\<lparr>kern := k\<rparr>)"
      have stamp: "now < ?s" using pop(6) repeat(2) clk(1) now by simp
      have "due_count now ?tm < due_count now tm"
        using pop(1) due stamp by (simp add: due_count_mset pq_push_mset)
      moreover have "now \<le> clk (kern ?l)" using hand_over_frame [OF ch, of ?t "l\<lparr>kern := k\<rparr>"] clk now by simp
      moreover have s: "0 \<le> ?s" "?s < 2 ^ 63" using pop(6) clock_in_rangeD [OF range t] by auto
      ultimately have S: "served os now ?tm ?l" using keeps(1) ch by (intro less.hyps) simp_all
      have "fire_due os now tm l = fire_due os now ?tm ?l"
        using repeat ne due t s by (simp add: Let_def fire_due.simps [of os now tm] signed64_def)
      then show ?thesis using S by (rule servedI) (auto intro: fires_repeat [OF inv refl ne due repeat ch stamp])
    qed
  qed
qed


lemma timer_event_serves:
  assumes "counter_documented os cnt" and "clock_documented os clk" and "clock_in_range os"
    and "timer_inv tm" and "\<not> invalid_channel (timer_channel tm)"
  obtains k now k1 tm' l' fired where
    "drain_counter os (ch_fd (timer_channel tm)) (kern l) = Some (EAGAIN, k)" "os_steady_now os k = (now, k1)"
    "timer_event os tm l = Some (Inr (tm', l'))" "fires os now tm l fired tm' l'"
proof -
  obtain k where drain: "drain_counter os (ch_fd (timer_channel tm)) (kern l) = Some (EAGAIN, k)"
    using drain_counter_returns [OF assms(1)] by blast
  obtain now k1 where now: "os_steady_now os k = (now, k1)" by fastforce
  have fd: "get_fd (timer_channel tm) l = (ch_fd (timer_channel tm), l)" using assms(5) by (simp add: get_fd_def)
  have frame: "fires os now tm (l\<lparr>kern := k'\<rparr>) fired tm' l' = fires os now tm l fired tm' l'" for k' fired tm' l'
    by (simp add: fires_def)
  show ?thesis
  proof (cases "timer_queue tm = []")
    case True
    then have "timer_event os tm l = Some (Inr (tm, l\<lparr>kern := k\<rparr>))" by (simp add: timer_event_def fd drain)
    moreover have "fires os now tm (l\<lparr>kern := k\<rparr>) [] tm (l\<lparr>kern := k\<rparr>)"
      using True assms(4) by (intro fires_rest) auto
    ultimately show ?thesis using that drain now by (auto simp: frame)
  next
    case False
    have "served os now tm (l\<lparr>kern := k1\<rparr>)"
      using clock_documentedD [OF assms(2) now] assms(4,5) by (intro fire_due_returns [OF assms(2,3)]) auto
    then show ?thesis
      using that drain now False by (auto simp: served_def timer_event_def fd frame)
  qed
qed

text \<open>Division of C++ truncates: on non-negative values it is that of HOL.\<close>

lemma sdiv_nonneg: "0 \<le> k \<Longrightarrow> 0 < l \<Longrightarrow> k sdiv l = k div (l :: int)"
  by (cases "k = 0") (auto simp: signed_divide_int_def)

lemma smod_nonneg: "0 \<le> k \<Longrightarrow> 0 < l \<Longrightarrow> k smod l = k mod (l :: int)"
  by (cases "k = 0") (auto simp: signed_modulo_int_def)

lemma sdiv_nonpos: "k \<le> 0 \<Longrightarrow> 0 < l \<Longrightarrow> k sdiv l \<le> (0 :: int)"
  by (cases "k = 0") (auto simp: signed_divide_int_def pos_imp_zdiv_nonneg_iff)

text \<open>The ids a sequence of posts returns; each request says whether it is periodic.\<close>

fun post_ids :: "'k os \<Rightarrow> (bool \<times> 'u \<times> LifeChecker \<times> u64) list \<Rightarrow> 'u Timer \<Rightarrow> ('k, 'u) timer_loop_state \<Rightarrow> u64 list" where
  "post_ids os [] tm l = []"
| "post_ids os ((periodic, cb, owner, ms) # reqs) tm l =
     (case (if periodic then post_repeat_task else post_once_task) os cb owner ms tm l of
        (tid, tm', l') \<Rightarrow> tid # post_ids os reqs tm' l')"

lemma post_ids_count:
  "timer_id_start tm = of_nat n \<Longrightarrow> n + length reqs < 2 ^ 64 \<Longrightarrow>
   post_ids os reqs tm l = map of_nat [Suc n..<Suc (n + length reqs)]"
proof (induction reqs arbitrary: n tm l)
  case (Cons r reqs)
  obtain periodic cb owner ms where r: "r = (periodic, cb, owner, ms)" by (cases r)
  have ne: "of_nat n + (1 :: u64) \<noteq> 0"
    using of_nat_u64_eq [of "Suc n" 0] Cons.prems(2) by (simp add: add.commute)
  have tid: "next_timer_id (timer_id_start tm) = (of_nat (Suc n), of_nat (Suc n))"
    using ne Cons.prems(1) by (simp add: next_timer_id_def add.commute)
  have "post_ids os reqs (tm\<lparr>timer_id_start := of_nat (Suc n)\<rparr>) l' = map of_nat [Suc (Suc n)..<Suc (Suc n + length reqs)]" for l'
    using Cons.prems(2) by (intro Cons.IH) simp_all
  then show ?case
    using upt_conv_Cons [of "Suc n" "Suc (n + length (r # reqs))"]
    by (simp add: r post_repeat_task_def post_once_task_def tid del: upt_Suc)
qed simp

lemma milliseconds_small:
  assumes "unat ms * 1000000 < 2 ^ 62"
  shows "milliseconds ms = Inr (int (unat ms) * 1000000)"
proof -
  define n where "n = unat ms"
  have small: "int n * 1000000 < 2 ^ 62"
    using int_less_pow [OF assms] by (simp only: of_nat_numeral n_def)
  then have "int n < 2 ^ 63" by simp
  moreover have "uint ms = int n" by (simp add: n_def)
  ultimately have "sint ms = int n" using sint_u64_small [of ms] by (simp only:)
  moreover have "0 \<le> int n * 1000000" by simp
  ultimately show ?thesis using small unfolding milliseconds_def n_def [symmetric]
    by (simp add: signed64_small)
qed

lemma insert_unit_facts:
  assumes "clock_in_range os" and inv: "timer_inv tm" and "timer_id u \<notin> timer_id ` set (timer_queue tm)"
    and u: "0 \<le> repeat_interval u" "repeat_interval u < 2 ^ 62" "0 \<le> time_stamp u" "time_stamp u < 2 ^ 63"
  defines "tm' \<equiv> tm\<lparr>timer_queue := pq_push u (timer_queue tm)\<rparr>"
  shows "\<exists>l'. insert_unit os u tm l = Inr (tm', l') \<and>
    (if \<forall>v\<in>set (timer_queue tm). time_stamp u \<le> time_stamp v
     then set_next_wake_time os (time_stamp u) tm' l = Inr l' else l' = l)"
    and "timer_inv tm'"
proof -
  let ?q = "pq_push u (timer_queue tm)"
  have heap: "is_heap (timer_queue tm)" using inv by (simp add: timer_inv_def)
  have m: "mset ?q = mset (u # timer_queue tm)" by (simp add: pq_push_mset)
  have set: "set ?q = insert u (set (timer_queue tm))" using mset_eq_setD [OF m] by simp
  have top: "pq_top ?q \<in> set ?q" "\<And>v. v \<in> set ?q \<Longrightarrow> time_stamp (pq_top ?q) \<le> time_stamp v"
    using tq.top_in [OF tq.push_inv [OF heap, of u]] tq.top_le [OF tq.push_inv [OF heap, of u]]
    by (simp_all add: less_eq_TimerUnit_ext_def set pq_push_mset)
  then have first: "time_stamp (pq_top ?q) = time_stamp u \<longleftrightarrow> (\<forall>v\<in>set (timer_queue tm). time_stamp u \<le> time_stamp v)"
    unfolding set by (metis insert_iff order_antisym order_refl)
  obtain l' where l': "set_next_wake_time os (time_stamp u) tm' l = Inr l'"
    by (rule set_next_wake_time_total [OF assms(1) u(3,4)])
  have "insert_unit os u tm l = (if time_stamp (pq_top ?q) = time_stamp u then Inr (tm', l') else Inr (tm', l))"
    using l' by (simp add: insert_unit_def Let_def tm'_def)
  then show "\<exists>l'. insert_unit os u tm l = Inr (tm', l') \<and>
    (if \<forall>v\<in>set (timer_queue tm). time_stamp u \<le> time_stamp v
     then set_next_wake_time os (time_stamp u) tm' l = Inr l' else l' = l)"
    unfolding first using l' by simp
  show "timer_inv tm'"
    using inv u assms(3) set tq.push_inv [OF heap] distinct_ids_mset [OF m] by (auto simp: timer_inv_def tm'_def)
qed

section \<open>Properties\<close>

text \<open>
  C3. The timer callback. It returns, with a clock that does not go back and times in range.
  The callbacks it hands to the heavy thread are those of exactly the units that are due and not
  cancelled, each once, ordered by time stamp. Afterwards the heap holds the units that were not
  due and, with a later stamp, the periodic ones that fired; nothing in it is due. A cancellation
  is consumed by the unit it meets, and if a unit is left the descriptor is armed for the earliest.
\<close>

theorem timer_callback_serves_due:
  assumes "counter_documented os cnt" and "clock_documented os clk" and "clock_in_range os"
    and "timer_inv tm" and "\<not> invalid_channel (timer_channel tm)"
  shows "\<exists>k now k1 tm' l' fired.
    drain_counter os (ch_fd (timer_channel tm)) (kern l) = Some (EAGAIN, k) \<and> os_steady_now os k = (now, k1) \<and>
    timer_event os tm l = Some (Inr (tm', l')) \<and>
    sorted (map time_stamp fired) \<and>
    mset fired = {#u \<in># mset (timer_queue tm). time_stamp u \<le> now \<and> timer_id u \<notin> delete_timer_ids tm#} \<and>
    heavy_buffer_queue l' = heavy_buffer_queue l @ map (\<lambda>u. WrapperTask (tu_owner u) (UserClosure (tu_cb u))) fired \<and>
    image_mset untimed (mset (timer_queue tm')) =
      image_mset untimed {#u \<in># mset (timer_queue tm). now < time_stamp u#} +
      image_mset untimed {#u \<in># mset fired. repeat_interval u \<noteq> 0#} \<and>
    (\<forall>u\<in>set (timer_queue tm'). now < time_stamp u) \<and>
    delete_timer_ids tm' = delete_timer_ids tm - timer_id ` {u \<in> set (timer_queue tm). time_stamp u \<le> now} \<and>
    (timer_queue tm' \<noteq> [] \<longrightarrow>
      (\<exists>l0. set_next_wake_time os (time_stamp (pq_top (timer_queue tm'))) tm' l0 = Inr l')) \<and>
    timer_inv tm'"
proof -
  obtain k now k1 tm' l' fired where
    "drain_counter os (ch_fd (timer_channel tm)) (kern l) = Some (EAGAIN, k)" "os_steady_now os k = (now, k1)"
    "timer_event os tm l = Some (Inr (tm', l'))" and "fires os now tm l fired tm' l'"
    by (rule timer_event_serves [OF assms, of l])
  then show ?thesis
    unfolding fires_def
    by (intro exI [of _ k] exI [of _ now] exI [of _ k1] exI [of _ tm'] exI [of _ l'] exI [of _ fired]) simp
qed

text \<open>A timer with a due unit, a cancelled one and one in the future, at time 10.\<close>

definition demo_unit :: "string \<Rightarrow> int \<Rightarrow> u64 \<Rightarrow> string TimerUnit" where
  "demo_unit cb stamp tid = \<lparr>tu_cb = cb, tu_owner = 7, time_stamp = stamp, repeat_interval = 0, timer_id = tid\<rparr>"

definition demo_timer :: "string Timer" where
  "demo_timer = \<lparr>timer_queue = [demo_unit ''a'' 5 1, demo_unit ''b'' 6 2, demo_unit ''c'' 20 3],
     timer_id_start = 3, delete_timer_ids = {2, 9}, timer_channel = demo_channel, started = True, tm_self = 8\<rparr>"

definition demo_timer_loop :: "(kstate, string) timer_loop_state" where
  "demo_timer_loop = make_Loop 3 4 (k_init\<lparr>k_clock := 10\<rparr>) {7, 8}"

lemma demo_timer_ok: "timer_inv demo_timer" "\<not> invalid_channel (timer_channel demo_timer)"
  by (auto simp: timer_inv_def demo_timer_def demo_unit_def is_heap_def less_Suc_eq less_eq_TimerUnit_ext_def
      invalid_channel_def demo_channel_def numeral_eq_Suc)

definition ref_os_late :: "kstate os" where
  "ref_os_late = ref_os\<lparr>os_steady_now := (\<lambda>k. (10, k\<lparr>k_clock := 10\<rparr>))\<rparr>"

lemma ref_os_late_ok: "counter_documented ref_os_late k_count" "clock_documented ref_os_late (\<lambda>k. min 10 (k_clock k))"
  "clock_in_range ref_os_late"
  using ref_os_counter by (auto simp: counter_documented_def ref_os_late_def clock_documented_def clock_in_range_def)

theorem timer_callback_serves_due_witness:
  "\<exists>tm' l'. timer_event ref_os_late demo_timer demo_timer_loop = Some (Inr (tm', l')) \<and>
     heavy_buffer_queue l' = [WrapperTask 7 (UserClosure ''a'')] \<and> delete_timer_ids tm' = {9}"
proof -
  have now: "os_steady_now ref_os_late k = (now, k1) \<Longrightarrow> now = 10" for k now k1 by (auto simp: ref_os_late_def)
  have "mset fired = {#demo_unit ''a'' 5 1#} \<Longrightarrow> fired = [demo_unit ''a'' 5 1]" for fired by simp
  moreover have "{#u \<in># mset (timer_queue demo_timer). time_stamp u \<le> 10 \<and> timer_id u \<notin> delete_timer_ids demo_timer#} =
      {#demo_unit ''a'' 5 1#}" by (simp add: demo_timer_def demo_unit_def)
  moreover have "timer_id ` {u \<in> set (timer_queue demo_timer). time_stamp u \<le> 10} = {1, 2}"
  proof -
    have "{u \<in> set (timer_queue demo_timer). time_stamp u \<le> 10} = {demo_unit ''a'' 5 1, demo_unit ''b'' 6 2}"
      by (auto simp: demo_timer_def demo_unit_def)
    then show ?thesis by (simp add: demo_unit_def)
  qed
  moreover have "heavy_buffer_queue demo_timer_loop = []" "delete_timer_ids demo_timer - {1, 2} = {9}"
    by (auto simp: demo_timer_loop_def make_Loop_def demo_timer_def)
  ultimately show ?thesis
    using timer_callback_serves_due [OF ref_os_late_ok demo_timer_ok, of demo_timer_loop] now
    by (auto simp: demo_unit_def)
qed

text \<open>
  Arming. The delay that \<open>set_next_wake_time\<close> programs is a legal, non-zero \<open>timespec\<close> (zero
  would disarm the descriptor), never later than the requested point, and less than a
  millisecond early.
\<close>

theorem wake_delay_arms:
  "case wake_delay ns of (sec, nsec) \<Rightarrow>
     0 \<le> sec \<and> 0 \<le> nsec \<and> nsec < 1000000000 \<and> (sec, nsec) \<noteq> (0, 0) \<and>
     sec * 1000000000 + nsec \<le> max 1 ns \<and> ns - 1000000 < sec * 1000000000 + nsec"
proof (cases "ns sdiv 1000000 \<le> 0")
  case True
  then have "ns < 1000000"
    using sdiv_nonneg [of ns 1000000] by (cases "0 \<le> ns") auto
  then show ?thesis using True by (simp add: wake_delay_def)
next
  case False
  then have "0 < ns" using sdiv_nonpos [of ns 1000000] by (cases "0 < ns") auto
  define m where "m = ns div 1000000"
  have m: "ns sdiv 1000000 = m" "0 < m" "m sdiv 1000 = m div 1000" "m smod 1000 = m mod 1000"
    using False \<open>0 < ns\<close> sdiv_nonneg [of ns 1000000] sdiv_nonneg [of m 1000] smod_nonneg [of m 1000]
    by (auto simp: m_def)
  have delay: "wake_delay ns = (m div 1000, m mod 1000 * 1000000)"
    using m by (simp add: wake_delay_def)
  have sum: "m div 1000 * 1000000000 + m mod 1000 * 1000000 = m * 1000000"
    using div_mult_mod_eq [of m 1000] by linarith
  have "m * 1000000 \<le> ns" "ns - 1000000 < m * 1000000"
    using div_mult_mod_eq [of ns 1000000] pos_mod_bound [of 1000000 ns] pos_mod_sign [of 1000000 ns]
    by (auto simp: m_def)
  moreover have "m mod 1000 = 0 \<Longrightarrow> m div 1000 \<noteq> 0" using m(2) div_mult_mod_eq [of m 1000] by auto
  ultimately show ?thesis
    using m(2) sum \<open>0 < ns\<close> pos_mod_bound [of 1000 m] by (auto simp: delay pos_imp_zdiv_nonneg_iff)
qed


text \<open>
  Ids. However a fresh timer is used, the first \<open>2^64 - 1\<close> posts, one-shot or periodic, return
  different ids, and none returns the reserved 0.
\<close>

theorem timer_ids_unique:
  assumes "timer_id_start tm = 0" and "length reqs < 2 ^ 64"
  shows "distinct (post_ids os reqs tm l) \<and> 0 \<notin> set (post_ids os reqs tm l)"
proof -
  have ids: "post_ids os reqs tm l = map of_nat [1..<Suc (length reqs)]"
    using post_ids_count [of tm 0 reqs os l] assms by simp
  have "inj_on (of_nat :: nat \<Rightarrow> u64) {0..<2 ^ 64}"
    by (auto simp: inj_on_def of_nat_u64_eq)
  then have "distinct (map of_nat [0..<Suc (length reqs)] :: u64 list)"
    using assms(2) by (auto simp: distinct_map simp del: upt_Suc intro: inj_on_subset)
  then show ?thesis unfolding ids by (simp add: upt_conv_Cons del: upt_Suc)
qed

theorem timer_ids_unique_witness:
  "distinct (post_ids ref_os [(False, ''a'', 7, 5), (True, ''b'', 7, 6)] (demo_timer\<lparr>timer_id_start := 0\<rparr>) demo_timer_loop)"
  using timer_ids_unique [of "demo_timer\<lparr>timer_id_start := 0\<rparr>" "[(False, ''a'', 7, 5), (True, ''b'', 7, 6)]" ref_os demo_timer_loop]
  by simp

text \<open>
  Posting. The closure of a one-shot or periodic post with a fresh id and a delay below
  \<open>2^62\<close> nanoseconds returns, adds the one unit to the heap with the stamp now plus delay, keeps
  the invariant, and arms the descriptor for that stamp when no unit is earlier.
\<close>

theorem posted_unit_enters_heap:
  assumes "clock_in_range os" and "timer_inv tm" and "tid \<notin> timer_id ` set (timer_queue tm)"
    and "unat ms * 1000000 < 2 ^ 62" and "os_steady_now os (kern l) = (now, k)"
    and "(closure, interval) = (if periodic then (repeat_closure, int (unat ms) * 1000000) else (once_closure, 0))"
  shows "let u = \<lparr>tu_cb = cb, tu_owner = own, time_stamp = now + int (unat ms) * 1000000, repeat_interval = interval,
        timer_id = tid\<rparr>; tm' = tm\<lparr>timer_queue := pq_push u (timer_queue tm)\<rparr>
    in (\<exists>l'. closure os cb own ms tid tm l = Inr (tm', l') \<and>
        (if \<forall>v\<in>set (timer_queue tm). time_stamp u \<le> time_stamp v
         then set_next_wake_time os (time_stamp u) tm' (l\<lparr>kern := k\<rparr>) = Inr l' else l' = l\<lparr>kern := k\<rparr>)) \<and>
       timer_inv tm' \<and> mset (timer_queue tm') = add_mset u (mset (timer_queue tm))"
proof -
  define u where "u = \<lparr>tu_cb = cb, tu_owner = own, time_stamp = now + int (unat ms) * 1000000,
    repeat_interval = interval, timer_id = tid\<rparr>"
  note now = clock_in_rangeD [OF assms(1,5)]
  define d where "d = int (unat ms) * 1000000"
  have d: "0 \<le> d" "d < 2 ^ 62"
    using int_less_pow [OF assms(4)] by (simp_all only: of_nat_numeral d_def)
  have ms: "milliseconds ms = Inr d" using milliseconds_small [OF assms(4)] by (simp only: d_def)
  have s: "signed64 (now + d) = Inr (now + d)" using now d by (intro signed64_small) auto
  have c: "closure os cb own ms tid tm l = insert_unit os u tm (l\<lparr>kern := k\<rparr>)"
    using assms(5,6) ms s by (cases periodic) (simp_all add: once_closure_def repeat_closure_def d_def u_def)
  have fresh: "timer_id u \<notin> timer_id ` set (timer_queue tm)" using assms(3) by (simp add: u_def)
  have bounds: "0 \<le> repeat_interval u" "repeat_interval u < 2 ^ 62"
    using assms(6) d by (cases periodic; simp add: d_def u_def)+
  have "time_stamp u = now + d" by (simp add: u_def d_def)
  then have stamp: "0 \<le> time_stamp u" "time_stamp u < 2 ^ 63" using now d by auto
  note facts = insert_unit_facts [OF assms(1,2) fresh bounds stamp]
  show ?thesis
    unfolding Let_def u_def [symmetric] c by (intro conjI facts) (simp add: pq_push_mset)
qed

theorem posted_unit_enters_heap_witness:
  "\<exists>l'. repeat_closure ref_os_late ''d'' 7 3 4 demo_timer demo_timer_loop =
     Inr (demo_timer\<lparr>timer_queue := pq_push \<lparr>tu_cb = ''d'', tu_owner = 7, time_stamp = 3000010,
       repeat_interval = 3000000, timer_id = 4\<rparr> (timer_queue demo_timer)\<rparr>, l')"
proof -
  have fresh: "4 \<notin> timer_id ` set (timer_queue demo_timer)" by (simp add: demo_timer_def demo_unit_def)
  have now: "os_steady_now ref_os_late (kern demo_timer_loop) = (10, kern demo_timer_loop)"
    by (simp add: ref_os_late_def demo_timer_loop_def make_Loop_def k_init_def)
  from posted_unit_enters_heap [OF ref_os_late_ok(3) demo_timer_ok(1) fresh, of 3 demo_timer_loop 10 _
      repeat_closure "3000000" True "''d''" 7] now
  show ?thesis by (auto simp: Let_def)
qed

text \<open>
  A period of zero is not a period: the closure of \<open>post_repeat_task\<close> with 0 milliseconds does
  what the closure of \<open>post_once_task\<close> does, so the callback runs once and the unit is gone.
\<close>

theorem zero_period_fires_once:
  "repeat_closure os cb own 0 tid tm l = once_closure os cb own 0 tid tm l"
  by (simp add: repeat_closure_def once_closure_def milliseconds_def signed64_def split: prod.splits)

text \<open>
  Cancelling a unit that has already fired, or an id that never existed, leaves its id in
  \<open>delete_timer_ids_\<close> for good: no run of the callback removes an id that no unit has.
\<close>

theorem stale_cancellation_stays:
  assumes "counter_documented os cnt" and "clock_documented os clk" and "clock_in_range os"
    and "timer_inv tm" and "\<not> invalid_channel (timer_channel tm)"
    and "tid \<notin> timer_id ` set (timer_queue tm)"
  shows "\<exists>tm' l'. timer_event os (cancel_closure tid tm) l = Some (Inr (tm', l')) \<and> tid \<in> delete_timer_ids tm'"
proof -
  have "timer_inv (cancel_closure tid tm)" "\<not> invalid_channel (timer_channel (cancel_closure tid tm))"
    using assms(4,5) by (simp_all add: cancel_closure_def timer_inv_def)
  from timer_event_serves [OF assms(1-3) this, of l] obtain now tm' l' fired where
    "timer_event os (cancel_closure tid tm) l = Some (Inr (tm', l'))" "fires os now (cancel_closure tid tm) l fired tm' l'"
    by metis
  then show ?thesis using assms(6) by (auto simp: fires_def cancel_closure_def)
qed

theorem stale_cancellation_stays_witness:
  "\<exists>tm' l'. timer_event ref_os_late (cancel_closure 4 demo_timer) demo_timer_loop = Some (Inr (tm', l')) \<and>
     4 \<in> delete_timer_ids tm'"
proof -
  have "4 \<notin> timer_id ` set (timer_queue demo_timer)" by (simp add: demo_timer_def demo_unit_def)
  from stale_cancellation_stays [OF ref_os_late_ok demo_timer_ok this] show ?thesis by blast
qed

end
