(* ===== verification/Inet_Addr.thy ===== *)
theory Inet_Addr
  imports Interfaces Loop_Core
begin

text \<open>
  \<open>InetAddr\<close> (\<open>include/kzevent/net/inet.hpp\<close>, \<open>src/net/inet.cpp\<close>). A \<open>sockaddr_storage\<close> is a value
  of \<open>sockaddr\<close>, one constructor per address family, with the fields of \<open>sockaddr_in\<close>, \<open>sockaddr_in6\<close> and
  \<open>sockaddr_un\<close> (\<open>sun_path\<close> has 108 characters and starts after 2 bytes). A \<open>std::string\<close> is a
  \<open>string\<close>. A factory returns the address, or \<open>nullopt\<close> with what it logged.
  \<open>inet_pton\<close>, \<open>inet_ntop\<close> and \<open>std::hash\<close> are parameters.
\<close>

section \<open>Data\<close>

record InetAddr =
  addr_storage :: sockaddr
  socklen :: nat

definition sizeof_sockaddr_in :: nat where "sizeof_sockaddr_in = 16"
definition sizeof_sockaddr_in6 :: nat where "sizeof_sockaddr_in6 = 28"
definition sun_path_offset :: nat where "sun_path_offset = 2"
definition sun_path_size :: nat where "sun_path_size = 108"

definition NUL :: char where "NUL = CHR 0x00"

lemmas sock_sizes = sizeof_sockaddr_in_def sizeof_sockaddr_in6_def sun_path_offset_def sun_path_size_def

text \<open>\<open>htons\<close> and \<open>ntohs\<close> on a little-endian machine.\<close>

definition htons :: "u16 \<Rightarrow> u16" where
  "htons w = push_bit 8 w OR drop_bit 8 w"

definition ntohs :: "u16 \<Rightarrow> u16" where
  "ntohs w = push_bit 8 w OR drop_bit 8 w"

datatype 'a pton_result = PtonOk 'a | PtonInvalid | PtonError errno

text \<open>The library functions the sources call; \<open>inet_ntop\<close> fails with an error number.\<close>

record inet_lib =
  pton4 :: "string \<Rightarrow> u32 pton_result"
  pton6 :: "string \<Rightarrow> string pton_result"
  ntop4 :: "u32 \<Rightarrow> errno + string"
  ntop6 :: "string \<Rightarrow> errno + string"
  hash_u16 :: "u16 \<Rightarrow> u64"
  hash_u32 :: "u32 \<Rightarrow> u64"
  hash_view :: "string \<Rightarrow> u64"

section \<open>Comparison and hash\<close>

definition addr_eq :: "InetAddr \<Rightarrow> InetAddr \<Rightarrow> bool" where
  "addr_eq a b =
     (if sa_family (addr_storage a) \<noteq> sa_family (addr_storage b) then False
      else case (addr_storage a, addr_storage b) of
        (SockIn pa ia, SockIn pb ib) \<Rightarrow> pa = pb \<and> ia = ib
      | (SockIn6 pa fa ia sa, SockIn6 pb fb ib sb) \<Rightarrow> pa = pb \<and> ia = ib
      | (SockUn xa, SockUn xb) \<Rightarrow>
          (if socklen a \<noteq> socklen b then False
           else if socklen a \<le> sun_path_offset then False
           else take (socklen a - sun_path_offset) xa = take (socklen a - sun_path_offset) xb)
      | _ \<Rightarrow> False)"

definition addr_neq :: "InetAddr \<Rightarrow> InetAddr \<Rightarrow> bool" where
  "addr_neq a b = (\<not> addr_eq a b)"

definition hash_combine :: "u64 \<Rightarrow> u64 \<Rightarrow> u64" where
  "hash_combine seed v = seed XOR (v + 0x9e3779b9 + push_bit 6 seed + drop_bit 2 seed)"

definition addr_hash :: "inet_lib \<Rightarrow> InetAddr \<Rightarrow> u64" where
  "addr_hash lib a =
     (let seed = hash_combine 0 (hash_u16 lib (sa_family (addr_storage a)))
      in case addr_storage a of
           SockIn port ip \<Rightarrow> hash_combine (hash_combine seed (hash_u32 lib ip)) (hash_u16 lib port)
         | SockIn6 port flow ip scope \<Rightarrow> hash_combine (hash_combine seed (hash_view lib ip)) (hash_u16 lib port)
         | SockUn path \<Rightarrow>
             (if socklen a > sun_path_offset
              then hash_combine seed (hash_view lib (take (socklen a - sun_path_offset) path)) else seed)
         | SockUnspec fam \<Rightarrow> 0)"

section \<open>Factories\<close>

text \<open>\<open>Inl (Some e)\<close>: \<open>std::nullopt\<close> after logging \<open>e\<close>; \<open>Inl None\<close>: \<open>std::nullopt\<close>.\<close>

type_synonym made_addr = "log_entry option + InetAddr"

text \<open>What \<open>c_str()\<close> shows.\<close>

definition c_str :: "string \<Rightarrow> string" where
  "c_str s = takeWhile (\<lambda>c. c \<noteq> NUL) s"

definition make_ipv4 :: "inet_lib \<Rightarrow> string \<Rightarrow> u16 \<Rightarrow> made_addr" where
  "make_ipv4 lib ip port =
     (case pton4 lib (c_str ip) of
        PtonInvalid \<Rightarrow> Inl (Some (LogError (''invalid ipv4 address: '' @ c_str ip)))
      | PtonError err \<Rightarrow> Inl (Some (LogSysError err))
      | PtonOk a \<Rightarrow> Inr \<lparr>addr_storage = SockIn (htons port) a, socklen = sizeof_sockaddr_in\<rparr>)"

definition make_ipv6 :: "inet_lib \<Rightarrow> string \<Rightarrow> u16 \<Rightarrow> u32 \<Rightarrow> made_addr" where
  "make_ipv6 lib ip port scope_id =
     (case pton6 lib (c_str ip) of
        PtonInvalid \<Rightarrow> Inl (Some (LogError (''invalid ipv6 address: '' @ c_str ip)))
      | PtonError err \<Rightarrow> Inl (Some (LogSysError err))
      | PtonOk a \<Rightarrow> Inr \<lparr>addr_storage = SockIn6 (htons port) 0 a scope_id, socklen = sizeof_sockaddr_in6\<rparr>)"

definition make_unix :: "string \<Rightarrow> made_addr" where
  "make_unix path =
     (if NUL \<in> set path then Inl (Some (LogError ''unix socket name/path contains NUL''))
      else if path = [] then Inl (Some (LogError ''unix socket name/path is empty''))
      else if length path + 1 > sun_path_size
      then Inl (Some (LogError (''unix socket path too long: '' @ c_str path)))
      else Inr \<lparr>addr_storage = SockUn ((overwrite (replicate sun_path_size NUL) 0 path)[length path := NUL]),
                socklen = sun_path_offset + length path + 1\<rparr>)"

definition make_abstract :: "string \<Rightarrow> made_addr" where
  "make_abstract name =
     (if NUL \<in> set name then Inl (Some (LogError ''unix socket name/path contains NUL''))
      else if name = [] then Inl (Some (LogError ''unix socket name/path is empty''))
      else if length name + 1 > sun_path_size
      then Inl (Some (LogError (''abstract socket name too long: '' @ c_str name)))
      else Inr \<lparr>addr_storage = SockUn (overwrite ((replicate sun_path_size NUL)[0 := NUL]) 1 name),
                socklen = sun_path_offset + 1 + length name\<rparr>)"

text \<open>\<open>while (!s.empty() && s.back() == '\0') s.pop_back();\<close>\<close>

fun trim_nul_rev :: "string \<Rightarrow> string" where
  "trim_nul_rev [] = []"
| "trim_nul_rev (c # s) = (if c = NUL then trim_nul_rev s else c # s)"

definition trim_nul :: "string \<Rightarrow> string" where
  "trim_nul s = rev (trim_nul_rev (rev s))"

definition make_from_sockaddr :: "sockaddr option \<Rightarrow> nat \<Rightarrow> made_addr" where
  "make_from_sockaddr addr len =
     (case addr of
        None \<Rightarrow> Inl (Some (LogError ''null sockaddr''))
      | Some sa \<Rightarrow>
          (case sa of
             SockIn port ip \<Rightarrow>
               (if len < sizeof_sockaddr_in then Inl (Some (LogError ''invalid sockaddr_in length''))
                else Inr \<lparr>addr_storage = SockIn port ip, socklen = sizeof_sockaddr_in\<rparr>)
           | SockIn6 port flow ip scope \<Rightarrow>
               (if len < sizeof_sockaddr_in6 then Inl (Some (LogError ''invalid sockaddr_in6 length''))
                else Inr \<lparr>addr_storage = SockIn6 port flow ip scope, socklen = sizeof_sockaddr_in6\<rparr>)
           | SockUn path \<Rightarrow>
               (if len \<le> sun_path_offset \<or> len > sun_path_offset + sun_path_size
                then Inl (Some (LogError ''unix socket name/path is empty or too long''))
                else let sun_len = len - sun_path_offset
                     in if path ! 0 = NUL then make_abstract (trim_nul (take (sun_len - 1) (drop 1 path)))
                        else make_unix (trim_nul (take sun_len path)))
           | SockUnspec fam \<Rightarrow> Inl None))"

section \<open>Information\<close>

definition get_sockaddr :: "InetAddr \<Rightarrow> sockaddr" where
  "get_sockaddr a = addr_storage a"

definition get_socklen :: "InetAddr \<Rightarrow> nat" where
  "get_socklen a = socklen a"

text \<open>The string, with what was logged when \<open>inet_ntop\<close> failed.\<close>

definition get_ip_or_path :: "inet_lib \<Rightarrow> InetAddr \<Rightarrow> string \<times> log_entry option" where
  "get_ip_or_path lib a =
     (case addr_storage a of
        SockIn port ip \<Rightarrow>
          (case ntop4 lib ip of Inl err \<Rightarrow> ([], Some (LogSysError err)) | Inr s \<Rightarrow> (c_str s, None))
      | SockIn6 port flow ip scope \<Rightarrow>
          (case ntop6 lib ip of Inl err \<Rightarrow> ([], Some (LogSysError err)) | Inr s \<Rightarrow> (c_str s, None))
      | SockUn path \<Rightarrow>
          (if socklen a \<le> sun_path_offset then ([], None)
           else let sun_len = socklen a - sun_path_offset
                in if path ! 0 = NUL then (''@'' @ take (sun_len - 1) (drop 1 path), None)
                   else (c_str path, None))
      | SockUnspec fam \<Rightarrow> ([], None))"

definition get_port :: "InetAddr \<Rightarrow> u16" where
  "get_port a =
     (case addr_storage a of
        SockIn port ip \<Rightarrow> ntohs port
      | SockIn6 port flow ip scope \<Rightarrow> ntohs port
      | _ \<Rightarrow> 0)"

text \<open>The test of the TCP and UDP factories.\<close>

definition is_inet :: "InetAddr \<Rightarrow> bool" where
  "is_inet a \<longleftrightarrow> sa_family (get_sockaddr a) = AF_INET \<or> sa_family (get_sockaddr a) = AF_INET6"

section \<open>Lemmas\<close>

text \<open>What the factories make, and what a round trip through the kernel keeps.\<close>

definition valid_addr :: "InetAddr \<Rightarrow> bool" where
  "valid_addr a =
     (case addr_storage a of
        SockIn port ip \<Rightarrow> socklen a = sizeof_sockaddr_in
      | SockIn6 port flow ip scope \<Rightarrow> socklen a = sizeof_sockaddr_in6
      | SockUn path \<Rightarrow> make_from_sockaddr (Some (SockUn path)) (socklen a) = Inr a
      | SockUnspec fam \<Rightarrow> False)"

lemma ntohs_htons [simp]: "ntohs (htons w) = w"
proof (rule bit_word_eqI)
  fix n assume "n < LENGTH(16)"
  then have "n < 16" by simp
  then show "bit (ntohs (htons w)) n = bit w n"
    by (auto simp: ntohs_def htons_def bit_simps)
qed

lemma trim_nul_rev_clean: "s = [] \<or> hd s \<noteq> NUL \<Longrightarrow> trim_nul_rev (replicate n NUL @ s) = s"
  by (induction n) (cases s; simp)+

lemma trim_nul_pad: "NUL \<notin> set s \<Longrightarrow> trim_nul (s @ replicate n NUL) = s"
proof -
  assume "NUL \<notin> set s"
  then have "rev s = [] \<or> hd (rev s) \<noteq> NUL"
    by (metis hd_in_set set_rev)
  from trim_nul_rev_clean [OF this, of n] show ?thesis by (simp add: trim_nul_def)
qed

lemma unix_path: "length path < sun_path_size \<Longrightarrow>
    (overwrite (replicate sun_path_size NUL) 0 path)[length path := NUL] =
    path @ replicate (sun_path_size - length path) NUL"
  by (simp add: overwrite_def list_update_append flip: drop_replicate)
    (metis diff_is_0_eq drop_replicate list_update_id list_update_nonempty not_less nth_replicate zero_less_diff)


lemma abstract_path: "length name < n \<Longrightarrow>
    overwrite ((replicate n NUL)[0 := NUL]) (Suc 0) name = NUL # name @ replicate (n - Suc (length name)) NUL"
  by (cases n) (simp_all add: overwrite_def)

lemma make_unix_Inr:
  "make_unix path = Inr a \<longleftrightarrow> NUL \<notin> set path \<and> path \<noteq> [] \<and> length path < sun_path_size \<and>
     a = \<lparr>addr_storage = SockUn (path @ replicate (sun_path_size - length path) NUL),
          socklen = sun_path_offset + length path + 1\<rparr>"
  by (auto simp: make_unix_def unix_path split: if_splits)

lemma make_abstract_Inr:
  "make_abstract name = Inr a \<longleftrightarrow> NUL \<notin> set name \<and> name \<noteq> [] \<and> length name < sun_path_size \<and>
     a = \<lparr>addr_storage = SockUn (NUL # name @ replicate (sun_path_size - 1 - length name) NUL),
          socklen = sun_path_offset + 1 + length name\<rparr>"
  by (auto simp: make_abstract_def abstract_path split: if_splits)

lemma make_ip_Inr:
  "make_ipv4 lib ip port = Inr a \<longleftrightarrow> (\<exists>x. pton4 lib (c_str ip) = PtonOk x \<and>
     a = \<lparr>addr_storage = SockIn (htons port) x, socklen = sizeof_sockaddr_in\<rparr>)"
  "make_ipv6 lib ip port scope = Inr a \<longleftrightarrow> (\<exists>x. pton6 lib (c_str ip) = PtonOk x \<and>
     a = \<lparr>addr_storage = SockIn6 (htons port) 0 x scope, socklen = sizeof_sockaddr_in6\<rparr>)"
  by (auto simp: make_ipv4_def make_ipv6_def split: pton_result.splits)

lemma take_pad: "length s \<le> n \<Longrightarrow> n \<le> length s + k \<Longrightarrow> take n (s @ replicate k c) = s @ replicate (n - length s) c"
  by (simp add: take_replicate)

text \<open>A path or name comes back from any length between its own and the whole structure.\<close>

lemma unix_from_sockaddr:
  assumes "make_unix path = Inr a" and "get_socklen a \<le> len" and "len \<le> sun_path_offset + sun_path_size"
  shows "make_from_sockaddr (Some (get_sockaddr a)) len = Inr a"
proof -
  note facts = assms(1) [unfolded make_unix_Inr]
  define n where "n = len - sun_path_offset"
  have n: "length path + 1 \<le> n" "n \<le> sun_path_size" "\<not> len \<le> sun_path_offset" "len = sun_path_offset + n"
    using assms(2,3) facts by (auto simp: get_socklen_def n_def)
  have "take n (path @ replicate (sun_path_size - length path) NUL) = path @ replicate (n - length path) NUL"
    using n facts by (intro take_pad) auto
  moreover have "(path @ replicate (sun_path_size - length path) NUL) ! 0 \<noteq> NUL"
    using facts by (cases path) auto
  ultimately show ?thesis
    using n facts trim_nul_pad [of path "n - length path"] assms(1)
    by (simp add: make_from_sockaddr_def get_sockaddr_def n_def [symmetric] Let_def)
qed

lemma abstract_from_sockaddr:
  assumes "make_abstract name = Inr a" and "get_socklen a \<le> len" and "len \<le> sun_path_offset + sun_path_size"
  shows "make_from_sockaddr (Some (get_sockaddr a)) len = Inr a"
proof -
  note facts = assms(1) [unfolded make_abstract_Inr]
  define n where "n = len - sun_path_offset"
  have n: "length name + 1 \<le> n" "n \<le> sun_path_size" "\<not> len \<le> sun_path_offset" "len = sun_path_offset + n"
    using assms(2,3) facts by (auto simp: get_socklen_def n_def)
  have "take (n - 1) (name @ replicate (sun_path_size - 1 - length name) NUL) = name @ replicate (n - 1 - length name) NUL"
    using n facts by (intro take_pad) auto
  then show ?thesis
    using n facts trim_nul_pad [of name "n - 1 - length name"] assms(1)
    by (simp add: make_from_sockaddr_def get_sockaddr_def n_def [symmetric] Let_def)
qed

lemma factory_from_sockaddr:
  assumes "make_ipv4 lib ip port = Inr a \<or> make_ipv6 lib ip port scope = Inr a \<or>
      make_unix path = Inr a \<or> make_abstract path = Inr a"
    and "get_socklen a \<le> len" and "len \<le> sun_path_offset + sun_path_size"
  shows "make_from_sockaddr (Some (get_sockaddr a)) len = Inr a"
  using assms(1)
proof (elim disjE)
  assume "make_ipv4 lib ip port = Inr a"
  then show ?thesis using assms(2) by (auto simp: make_ip_Inr make_from_sockaddr_def get_sockaddr_def get_socklen_def)
next
  assume "make_ipv6 lib ip port scope = Inr a"
  then show ?thesis using assms(2) by (auto simp: make_ip_Inr make_from_sockaddr_def get_sockaddr_def get_socklen_def)
qed (use assms(2,3) in \<open>auto intro: unix_from_sockaddr abstract_from_sockaddr\<close>)

text \<open>A valid unix address was made by one of the two factories.\<close>

lemma valid_unix_cases:
  assumes "valid_addr a" and "addr_storage a = SockUn s"
  obtains (path) p where "make_unix p = Inr a" | (abstract) p where "make_abstract p = Inr a"
  using assms by (auto simp: valid_addr_def make_from_sockaddr_def Let_def split: if_splits)

lemma valid_unix_socklen: "valid_addr a \<Longrightarrow> addr_storage a = SockUn s \<Longrightarrow> sun_path_offset < socklen a"
  by (erule (1) valid_unix_cases) (auto simp: make_unix_Inr make_abstract_Inr)

lemma unix_addr_valid:
  assumes "make_unix p = Inr a \<or> make_abstract p = Inr a"
  shows "valid_addr a" and "get_socklen a \<le> sun_path_offset + sun_path_size"
    and "\<exists>path. get_sockaddr a = SockUn path \<and> length path = sun_path_size"
proof -
  show len: "get_socklen a \<le> sun_path_offset + sun_path_size"
    using assms by (auto simp: make_unix_Inr make_abstract_Inr get_socklen_def)
  show path: "\<exists>path. get_sockaddr a = SockUn path \<and> length path = sun_path_size"
    using assms by (auto simp: make_unix_Inr make_abstract_Inr get_sockaddr_def)
  have "make_from_sockaddr (Some (get_sockaddr a)) (get_socklen a) = Inr a"
    using assms unix_from_sockaddr [OF _ order_refl len] abstract_from_sockaddr [OF _ order_refl len] by blast
  then show "valid_addr a" using path by (auto simp: valid_addr_def get_sockaddr_def get_socklen_def)
qed

lemma received_unix: "make_from_sockaddr (Some (SockUn path)) len = Inr a \<Longrightarrow> \<exists>p. make_unix p = Inr a \<or> make_abstract p = Inr a"
  by (auto simp: make_from_sockaddr_def Let_def split: if_splits)

lemma received_addr_valid: "make_from_sockaddr sa len = Inr a \<Longrightarrow> valid_addr a"
proof (cases sa)
  case (Some s)
  assume "make_from_sockaddr sa len = Inr a"
  then show ?thesis
  proof (cases s)
    case (SockUn path)
    then show ?thesis using Some \<open>make_from_sockaddr sa len = Inr a\<close> received_unix unix_addr_valid(1) by blast
  qed (auto simp: Some make_from_sockaddr_def valid_addr_def split: if_splits)
qed (simp add: make_from_sockaddr_def)

interpretation addr_key: hashed_key valid_addr addr_eq "addr_hash lib" for lib
proof
  fix a b c :: InetAddr
  assume a: "valid_addr a"
  show "addr_eq a a"
  proof (cases "addr_storage a")
    case (SockUn s)
    then show ?thesis using valid_unix_socklen [OF a SockUn] by (simp add: addr_eq_def)
  qed (use a in \<open>simp_all add: addr_eq_def valid_addr_def\<close>)
  show "addr_eq b a" if "addr_eq a b"
    using that by (cases "addr_storage a"; cases "addr_storage b") (auto simp: addr_eq_def split: if_splits)
  show "addr_eq a c" if "addr_eq a b" "addr_eq b c"
    using that by (cases "addr_storage a"; cases "addr_storage b"; cases "addr_storage c")
      (auto simp: addr_eq_def split: if_splits)
  show "addr_hash lib a = addr_hash lib b" if "addr_eq a b"
    using that by (cases "addr_storage a"; cases "addr_storage b")
      (auto simp: addr_eq_def addr_hash_def split: if_splits)
qed

section \<open>Properties\<close>

text \<open>
  C21. Round trip through the kernel. An address made by any factory, read back by
  \<open>make_from_sockaddr\<close> from its \<open>sockaddr\<close> with its own length or with any longer one up to
  that of \<open>sockaddr_un\<close> (as the kernel may report it, padded with NULs), is the same address.
\<close>

theorem address_survives_kernel:
  assumes "make_ipv4 lib ip port = Inr a \<or> make_ipv6 lib ip port scope = Inr a \<or>
      make_unix path = Inr a \<or> make_abstract path = Inr a"
    and "get_socklen a \<le> len" and "len \<le> 110"
  shows "make_from_sockaddr (Some (get_sockaddr a)) len = Inr a \<and> valid_addr a"
proof -
  have len: "len \<le> sun_path_offset + sun_path_size" using assms(3) by (simp add: sock_sizes)
  moreover have "get_socklen a \<le> sun_path_offset + sun_path_size" using assms(2) len by simp
  ultimately have "make_from_sockaddr (Some (get_sockaddr a)) len = Inr a"
    "make_from_sockaddr (Some (get_sockaddr a)) (get_socklen a) = Inr a"
    using factory_from_sockaddr [OF assms(1)] assms(2) by auto
  moreover from this(2) have "valid_addr a"
    using assms(1) by (auto simp: valid_addr_def get_sockaddr_def get_socklen_def make_ip_Inr split: sockaddr.splits)
      (auto simp: make_unix_Inr make_abstract_Inr)
  ultimately show ?thesis by simp
qed

definition demo_lib :: inet_lib where
  "demo_lib = \<lparr>pton4 = (\<lambda>s. if s = ''1.2.3.4'' then PtonOk 0x04030201 else PtonInvalid),
     pton6 = (\<lambda>s. if s = ''::'' then PtonOk (replicate 16 NUL) else PtonInvalid),
     ntop4 = (\<lambda>ip. if ip = 0x04030201 then Inr ''1.2.3.4'' else Inl (EOTHER 28)),
     ntop6 = (\<lambda>ip. if ip = replicate 16 NUL then Inr ''::'' else Inl (EOTHER 28)),
     hash_u16 = ucast, hash_u32 = ucast, hash_view = (\<lambda>s. of_nat (length s))\<rparr>"

definition demo_name :: InetAddr where
  "demo_name = \<lparr>addr_storage = SockUn (NUL # ''bus'' @ replicate 104 NUL), socklen = 6\<rparr>"

lemma demo_name_made: "make_abstract ''bus'' = Inr demo_name"
  by (simp add: make_abstract_Inr demo_name_def sock_sizes NUL_def)

theorem address_survives_kernel_witness:
  "make_from_sockaddr (Some (get_sockaddr demo_name)) 110 = Inr demo_name"
proof -
  have "make_ipv4 demo_lib [] 0 = Inr demo_name \<or> make_ipv6 demo_lib [] 0 0 = Inr demo_name \<or>
      make_unix ''bus'' = Inr demo_name \<or> make_abstract ''bus'' = Inr demo_name"
    using demo_name_made by blast
  from address_survives_kernel [OF this, of 110] show ?thesis by (simp add: demo_name_def get_socklen_def)
qed

text \<open>
  C19. Typing. Every address a factory makes, and every one read from a \<open>sockaddr\<close> of the kernel, is well
  formed: one of the three families, the length of that family (for a unix socket at most that of
  \<open>sockaddr_un\<close>, with a path array of exactly 108 characters), and nothing is ever made from
  another family.
\<close>

theorem addresses_well_formed:
  assumes "make_ipv4 lib text port = Inr a \<or> make_ipv6 lib text port scope = Inr a \<or> make_unix text = Inr a \<or>
      make_abstract text = Inr a \<or> make_from_sockaddr sa len = Inr a"
  shows "valid_addr a \<and>
    (case get_sockaddr a of
       SockIn p i \<Rightarrow> get_socklen a = 16
     | SockIn6 p f i s \<Rightarrow> get_socklen a = 28
     | SockUn path \<Rightarrow> 3 < get_socklen a \<and> get_socklen a \<le> 110 \<and> length path = 108
     | SockUnspec fam \<Rightarrow> False)"
proof -
  have v: "valid_addr a" using assms
  proof (elim disjE)
    assume "make_from_sockaddr sa len = Inr a"
    then show ?thesis by (rule received_addr_valid)
  next
    assume "make_unix text = Inr a"
    then show ?thesis using unix_addr_valid(1) by blast
  next
    assume "make_abstract text = Inr a"
    then show ?thesis using unix_addr_valid(1) by blast
  qed (auto simp: make_ip_Inr valid_addr_def)
  show ?thesis
  proof (cases "get_sockaddr a")
    case (SockUn path)
    then have "make_from_sockaddr (Some (SockUn path)) (socklen a) = Inr a" using v by (simp add: valid_addr_def get_sockaddr_def)
    then obtain p where p: "make_unix p = Inr a \<or> make_abstract p = Inr a" using received_unix by blast
    have "3 < get_socklen a"
      using p by (auto simp: make_unix_Inr make_abstract_Inr get_socklen_def sun_path_offset_def)
    then show ?thesis using v SockUn unix_addr_valid(2,3) [OF p] by (simp add: sock_sizes)
  qed (use v in \<open>simp_all add: valid_addr_def get_sockaddr_def get_socklen_def sock_sizes\<close>)
qed

theorem addresses_well_formed_witness: "valid_addr demo_name \<and> 3 < get_socklen demo_name"
proof -
  obtain path where "get_sockaddr demo_name = SockUn path" using unix_addr_valid(3) demo_name_made by blast
  then show ?thesis using addresses_well_formed [of demo_lib "''bus''" 0 demo_name 0 None 0] demo_name_made by simp
qed

text \<open>
  Addresses are proper keys of \<open>std::unordered_map\<close>: for valid addresses, whatever hash
  functions the library provides, a lookup that only scans the bucket of its key finds what a
  scan of all entries finds, and equal addresses find the same entry.
\<close>

theorem address_lookup_correct:
  assumes "valid_addr k" and "valid_addr k'" and "addr_eq k k'" and "list_all (\<lambda>(a, v). valid_addr a) entries"
  shows "find (\<lambda>(a, v). addr_eq k a) (filter (\<lambda>(a, v). unat (addr_hash lib a) mod n = unat (addr_hash lib k) mod n) entries) =
    find (\<lambda>(a, v). addr_eq k' a) entries"
  using addr_key.bucket_find [OF assms(1,4), of lib n] addr_key.find_respects_eq [OF assms] by simp

theorem address_lookup_correct_witness:
  "find (\<lambda>(a, v). addr_eq demo_name a) (filter (\<lambda>(a, v). unat (addr_hash demo_lib a) mod 7 =
     unat (addr_hash demo_lib demo_name) mod 7) [(demo_name, True)]) = Some (demo_name, True)"
proof -
  have "make_from_sockaddr (Some (get_sockaddr demo_name)) (get_socklen demo_name) = Inr demo_name"
    using abstract_from_sockaddr [OF demo_name_made] by (simp add: demo_name_def get_socklen_def sock_sizes)
  then have v: "valid_addr demo_name"
    by (simp add: valid_addr_def get_sockaddr_def get_socklen_def) (simp add: demo_name_def)
  have eq: "addr_eq demo_name demo_name" by (simp add: addr_eq_def demo_name_def sock_sizes)
  have "list_all (\<lambda>(a, v). valid_addr a) [(demo_name, True)]" using v by simp
  from address_lookup_correct [OF v v eq this, of demo_lib 7] show ?thesis using eq by simp
qed

text \<open>
  Names of unix sockets. Two paths, or two abstract names, give equal addresses only if they
  are the same string; a path never equals an abstract name; and \<open>get_ip_or_path\<close> gives the path
  back, or the name after an \<open>@\<close>.
\<close>

theorem unix_names_are_identity:
  assumes "make_unix p = Inr a" and "make_unix q = Inr b" and "make_abstract n = Inr c" and "make_abstract m = Inr d"
  shows "(addr_eq a b \<longleftrightarrow> p = q) \<and> (addr_eq c d \<longleftrightarrow> n = m) \<and> \<not> addr_eq a c \<and> \<not> addr_eq c a \<and>
    get_ip_or_path lib a = (p, None) \<and> get_ip_or_path lib c = (''@'' @ n, None) \<and> get_port a = 0"
proof -
  note A = assms(1) [unfolded make_unix_Inr] and B = assms(2) [unfolded make_unix_Inr]
  note C = assms(3) [unfolded make_abstract_Inr] and D = assms(4) [unfolded make_abstract_Inr]
  have pad: "take (Suc (length x)) (x @ replicate (sun_path_size - length x) NUL) = x @ [NUL]"
    if "length x < sun_path_size" for x
    using that take_pad [of x "Suc (length x)" "sun_path_size - length x" NUL] by simp
  have ab: "addr_eq a b \<longleftrightarrow> p = q"
  proof (cases "length p = length q")
    case True
    then show ?thesis using A B pad [of p] pad [of q] by (simp add: addr_eq_def)
  next
    case False
    then show ?thesis using A B by (auto simp: addr_eq_def)
  qed
  have cd: "addr_eq c d \<longleftrightarrow> n = m" using C D by (auto simp: addr_eq_def)
  have "hd p \<noteq> NUL" using A by (metis hd_in_set)
  then have ac: "\<not> addr_eq a c" "\<not> addr_eq c a"
    using A C by (cases p; auto simp: addr_eq_def split: if_splits)+
  have "c_str (p @ replicate k NUL) = p" for k
    using A by (simp add: c_str_def takeWhile_append2) (auto simp: takeWhile_append takeWhile_eq_Nil_iff)
  moreover have "(p @ xs) ! 0 \<noteq> NUL" for xs using \<open>hd p \<noteq> NUL\<close> A by (cases p) auto
  ultimately have "get_ip_or_path lib a = (p, None)" using A by (simp add: get_ip_or_path_def)
  moreover have "get_ip_or_path lib c = (''@'' @ n, None)" using C by (simp add: get_ip_or_path_def)
  ultimately show ?thesis using ab cd ac A by (simp add: get_port_def)
qed

theorem unix_names_are_identity_witness:
  "\<exists>a c. make_unix ''@bus'' = Inr a \<and> make_abstract ''bus'' = Inr c \<and> \<not> addr_eq a c \<and>
     get_ip_or_path demo_lib a = (''@bus'', None) \<and> get_ip_or_path demo_lib c = (''@bus'', None)"
proof -
  obtain a where a: "make_unix ''@bus'' = Inr a" by (simp add: make_unix_def sock_sizes NUL_def)
  from unix_names_are_identity [OF a a demo_name_made demo_name_made, of demo_lib] a demo_name_made
  show ?thesis by auto
qed

text \<open>
  \<open>inet_pton\<close> and \<open>inet_ntop\<close>: what the one prints has no NUL and the other reads it back.
\<close>

definition inet_documented :: "inet_lib \<Rightarrow> bool" where
  "inet_documented lib \<longleftrightarrow>
     (\<forall>ip s. ntop4 lib ip = Inr s \<longrightarrow> NUL \<notin> set s \<and> pton4 lib s = PtonOk ip) \<and>
     (\<forall>ip s. ntop6 lib ip = Inr s \<longrightarrow> NUL \<notin> set s \<and> pton6 lib s = PtonOk ip)"

lemma c_str_id: "NUL \<notin> set s \<Longrightarrow> c_str s = s"
  by (auto simp: c_str_def takeWhile_eq_all_conv)

text \<open>
  Printing and parsing. The text and the port of an IPv4 or IPv6 address, given to the factory
  again (with the scope id), make the same address; the port is the one it was made with.
\<close>

theorem ip_text_roundtrip:
  assumes "inet_documented lib" and "get_ip_or_path lib a = (s, None)"
  shows "(make_ipv4 lib ip port = Inr a \<longrightarrow> make_ipv4 lib s (get_port a) = Inr a \<and> get_port a = port) \<and>
    (make_ipv6 lib ip port scope = Inr a \<longrightarrow> make_ipv6 lib s (get_port a) scope = Inr a \<and> get_port a = port)"
  using assms
  by (auto simp: make_ip_Inr get_ip_or_path_def get_port_def inet_documented_def c_str_id split: sum.splits)

theorem ip_text_roundtrip_witness:
  "\<exists>a. make_ipv4 demo_lib ''1.2.3.4'' 80 = Inr a \<and> get_port a = 80 \<and>
     make_ipv4 demo_lib (fst (get_ip_or_path demo_lib a)) 80 = Inr a"
proof -
  have doc: "inet_documented demo_lib"
    by (auto simp: inet_documented_def demo_lib_def NUL_def split: if_splits)
  have c: "c_str ''1.2.3.4'' = ''1.2.3.4''" by (simp add: c_str_def NUL_def)
  obtain a where a: "make_ipv4 demo_lib ''1.2.3.4'' 80 = Inr a" "addr_storage a = SockIn (htons 80) 0x04030201"
    using c by (simp add: make_ipv4_def demo_lib_def)
  then have "get_ip_or_path demo_lib a = (''1.2.3.4'', None)"
    using c by (simp add: get_ip_or_path_def demo_lib_def)
  with ip_text_roundtrip [OF doc this, of "''1.2.3.4''" 80 0] a show ?thesis by auto
qed

text \<open>
  IPv6 scopes are not compared: addresses made from the same text and port with different
  scope ids are equal and have the same hash, though the \<open>sockaddr\<close>s name different links.
\<close>

theorem ipv6_scopes_conflated:
  assumes "make_ipv6 lib ip port s1 = Inr a" and "make_ipv6 lib ip port s2 = Inr b" and "s1 \<noteq> s2"
  shows "addr_eq a b \<and> addr_hash lib a = addr_hash lib b \<and> get_sockaddr a \<noteq> get_sockaddr b"
  using assms by (auto simp: make_ip_Inr addr_eq_def addr_hash_def get_sockaddr_def)

theorem ipv6_scopes_conflated_witness:
  "\<exists>a b. make_ipv6 demo_lib ''::'' 80 1 = Inr a \<and> make_ipv6 demo_lib ''::'' 80 2 = Inr b \<and> addr_eq a b \<and>
     get_sockaddr a \<noteq> get_sockaddr b"
proof -
  have c: "c_str ''::'' = ''::''" by (simp add: c_str_def NUL_def)
  obtain a b where "make_ipv6 demo_lib ''::'' 80 1 = Inr a" "make_ipv6 demo_lib ''::'' 80 2 = Inr b"
    using c by (simp add: make_ipv6_def demo_lib_def)
  with ipv6_scopes_conflated [OF this] show ?thesis by auto
qed

end
