(* ===== verification/Channel_Factory.thy ===== *)
theory Channel_Factory
  imports Loop_Channel Inet_Addr
begin

text \<open>
  The channel factories of \<open>src/net/inet.cpp\<close>: a descriptor is handed to a \<open>LoopChannel\<close> as soon as
  it exists, and every later call that fails returns \<open>nullopt\<close>, which destroys the channel. The
  result is the channel or \<open>None\<close>, and the loop.
\<close>

section \<open>Operations\<close>

text \<open>The calls after the channel was made, in order; the first failure is logged and ends the factory.\<close>

fun setup_channel :: "'k os \<Rightarrow> ('k \<Rightarrow> unit sysret \<times> 'k) list \<Rightarrow> LoopChannel \<Rightarrow> ('k, 'cb, 't) Loop \<Rightarrow>
    LoopChannel option \<times> ('k, 'cb, 't) Loop" where
  "setup_channel os [] ch l =
     (let (ret, ch') = move_LoopChannel ch in (Some ret, destroy_LoopChannel os ch' l))"
| "setup_channel os (call # calls) ch l =
     (case call (kern l) of
        (Inl err, k) \<Rightarrow> (None, destroy_LoopChannel os ch (write_log (LogSysError err) (l\<lparr>kern := k\<rparr>)))
      | (Inr _, k) \<Rightarrow> setup_channel os calls ch (l\<lparr>kern := k\<rparr>))"

text \<open>\<open>socket\<close>, then the channel, then the calls that configure it.\<close>

definition open_channel :: "'k os \<Rightarrow> ('k \<Rightarrow> fd sysret \<times> 'k) \<Rightarrow> (fd \<Rightarrow> ('k \<Rightarrow> unit sysret \<times> 'k) list) \<Rightarrow>
    ('k, 'cb, 't) Loop \<Rightarrow> LoopChannel option \<times> ('k, 'cb, 't) Loop" where
  "open_channel os open_fd calls l =
     (case open_fd (kern l) of
        (Inl err, k) \<Rightarrow> (None, write_log (LogSysError err) (l\<lparr>kern := k\<rparr>))
      | (Inr fd, k) \<Rightarrow> (let (ch, l1) = construct_LoopChannel os fd (l\<lparr>kern := k\<rparr>) in setup_channel os (calls fd) ch l1))"

definition make_dgram_channel :: "'k os \<Rightarrow> InetAddr \<Rightarrow> ('k, 'cb, 't) Loop \<Rightarrow>
    LoopChannel option \<times> ('k, 'cb, 't) Loop" where
  "make_dgram_channel os addr l =
     (let fam = sa_family (get_sockaddr addr)
      in open_channel os (os_socket os fam False) (\<lambda>fd.
        (if fam = AF_INET6 then [os_setsockopt os fd IPV6_V6ONLY] else []) @
        (if fam = AF_INET then [os_setsockopt os fd SO_BROADCAST] else []) @
        [os_bind os fd (get_sockaddr addr) (get_socklen addr)]) l)"

text \<open>\<open>err\<close> is the \<open>errno\<close> that \<open>sys_error::error\<close> finds when the descriptor is -1.\<close>

definition make_stream_session_channel :: "'k os \<Rightarrow> errno \<Rightarrow> fd \<Rightarrow> ('k, 'cb, 't) Loop \<Rightarrow>
    LoopChannel option \<times> ('k, 'cb, 't) Loop" where
  "make_stream_session_channel os err fd l =
     (if fd = -1 then (None, write_log (LogSysError err) l)
      else let (ch, l1) = construct_LoopChannel os fd l in setup_channel os [] ch l1)"

definition make_stream_server_channel :: "'k os \<Rightarrow> InetAddr \<Rightarrow> ('k, 'cb, 't) Loop \<Rightarrow>
    LoopChannel option \<times> ('k, 'cb, 't) Loop" where
  "make_stream_server_channel os addr l =
     (let fam = sa_family (get_sockaddr addr)
      in open_channel os (os_socket os fam True) (\<lambda>fd.
        [os_setsockopt os fd SO_REUSEADDR] @
        (if fam = AF_INET6 then [os_setsockopt os fd IPV6_V6ONLY] else []) @
        [os_bind os fd (get_sockaddr addr) (get_socklen addr), os_listen os fd]) l)"

definition make_stream_client_channel :: "'k os \<Rightarrow> InetAddr \<Rightarrow> ('k, 'cb, 't) Loop \<Rightarrow>
    LoopChannel option \<times> ('k, 'cb, 't) Loop" where
  "make_stream_client_channel os addr l =
     (let fam = sa_family (get_sockaddr addr)
      in open_channel os (os_socket os fam True) (\<lambda>fd.
        (if fam = AF_INET6 then [os_setsockopt os fd IPV6_V6ONLY] else []) @
        [os_bind os fd (get_sockaddr addr) (get_socklen addr)]) l)"

text \<open>A duration in milliseconds as \<open>tv_sec\<close> and \<open>tv_nsec\<close>.\<close>

definition timespec_of :: "u64 \<Rightarrow> int \<times> int" where
  "timespec_of ms = (uint (ms div 1000), uint (ms mod 1000 * 1000000))"

definition make_net_timer_channel :: "'k os \<Rightarrow> u64 \<Rightarrow> u64 \<Rightarrow> ('k, 'cb, 't) Loop \<Rightarrow>
    LoopChannel option \<times> ('k, 'cb, 't) Loop" where
  "make_net_timer_channel os timeout_ms repeat_ms l =
     open_channel os (os_timerfd_create os) (\<lambda>fd.
       if timeout_ms = 0 then []
       else [os_timerfd_settime os fd (timespec_of timeout_ms)
               (if repeat_ms \<noteq> 0 then timespec_of repeat_ms else (0, 0))]) l"

definition reset_timer_fd :: "'k os \<Rightarrow> fd \<Rightarrow> u64 \<Rightarrow> 'k \<Rightarrow> bool \<times> 'k" where
  "reset_timer_fd os fd timeout_ms k =
     (case os_timerfd_settime os fd (timespec_of timeout_ms) (0, 0) k of
        (Inl _, k') \<Rightarrow> (False, k') | (Inr _, k') \<Rightarrow> (True, k'))"

section \<open>Lemmas\<close>

text \<open>
  What a factory leaves behind, by what the call that opens a descriptor returned: without a
  descriptor nothing but a line of the log; a descriptor is either registered and handed over in the
  channel, or registered and unregistered (which closes it) after an error that was logged.
\<close>

definition owns_result :: "fd sysret \<Rightarrow> ('k, 'cb, 't) Loop \<Rightarrow> LoopChannel option \<times> ('k, 'cb, 't) Loop \<Rightarrow> bool" where
  "owns_result opened l res \<longleftrightarrow>
     (case opened of
        Inl e \<Rightarrow> fst res = None \<and> io_buffer_queue (snd res) = io_buffer_queue l \<and>
          elog (snd res) = elog l @ [LogSysError e]
      | Inr fd \<Rightarrow>
          (case fst res of
             None \<Rightarrow> io_buffer_queue (snd res) = io_buffer_queue l @ [RegisterTask fd, UnregisterTask fd] \<and>
               (\<exists>pre e post. elog (snd res) = elog l @ pre @ LogSysError e # post)
           | Some ch \<Rightarrow> io_buffer_queue (snd res) = io_buffer_queue l @ [RegisterTask fd] \<and> ch_fd ch = fd \<and>
               \<not> invalid_channel ch \<and> get_event_info ch = (kDefault, kDefault)))"

lemma post_io_logs: "\<exists>more. elog (post_io_task os t l) = elog l @ more"
  by (auto simp: post_io_task_def wake_io_up_def write_log_def split: prod.splits sum.splits)

lemma setup_channel_owns:
  assumes "0 \<le> fd" and "ch = \<lparr>in_loop = True, ch_fd = fd, event_types = kDefault, event_modes = kDefault\<rparr>"
  shows "io_buffer_queue l = io_buffer_queue l0 @ [RegisterTask fd] \<Longrightarrow> elog l = elog l0 @ pre \<Longrightarrow>
    owns_result (Inr fd) l0 (setup_channel os calls ch l)"
proof (induction calls arbitrary: l)
  case Nil
  then show ?case using assms
    by (simp add: owns_result_def move_LoopChannel_def destroy_LoopChannel_def invalid_channel_def get_event_info_def)
next
  case (Cons call calls)
  obtain r k where r: "call (kern l) = (r, k)" by fastforce
  show ?case
  proof (cases r)
    case (Inl err)
    let ?l = "write_log (LogSysError err) (l\<lparr>kern := k\<rparr>)"
    obtain more where "elog (post_io_task os (UnregisterTask fd) ?l) = elog ?l @ more" using post_io_logs by blast
    then show ?thesis using Cons.prems assms r Inl
      by (simp add: owns_result_def destroy_LoopChannel_def unregister_fd_def write_log_def) blast
  next
    case (Inr u)
    then show ?thesis using Cons.IH [of "l\<lparr>kern := k\<rparr>"] Cons.prems r by simp
  qed
qed

lemma registered_owns:
  assumes "0 \<le> fd"
  shows "owns_result (Inr fd) l (setup_channel os calls
    \<lparr>in_loop = True, ch_fd = fd, event_types = kDefault, event_modes = kDefault\<rparr> (register_fd os fd (l\<lparr>kern := k\<rparr>)))"
proof -
  obtain more where "elog (post_io_task os (RegisterTask fd) (l\<lparr>kern := k\<rparr>)) = elog l @ more"
    using post_io_logs [of os "RegisterTask fd" "l\<lparr>kern := k\<rparr>"] by auto
  then show ?thesis
    using setup_channel_owns [OF assms refl, of "register_fd os fd (l\<lparr>kern := k\<rparr>)" l more] by (simp add: register_fd_def)
qed

lemma open_channel_owns:
  assumes "\<And>k fd. fst (open_fd k) = Inr fd \<Longrightarrow> 0 \<le> fd"
  shows "owns_result (fst (open_fd (kern l))) l (open_channel os open_fd calls l)"
proof -
  obtain r k where r: "open_fd (kern l) = (r, k)" by fastforce
  show ?thesis
  proof (cases r)
    case (Inl err)
    then show ?thesis using r by (simp add: open_channel_def owns_result_def write_log_def)
  next
    case (Inr fd)
    then have "0 \<le> fd" using assms [of "kern l" fd] r by simp
    from registered_owns [OF this] show ?thesis using r Inr by (simp add: open_channel_def construct_LoopChannel_def)
  qed
qed

section \<open>Properties\<close>

text \<open>
  C24. No factory leaks a descriptor. If the call that opens it fails, nothing is posted and the error is
  logged. A descriptor that was opened is registered with the loop at once; then either it is the
  descriptor of the channel returned, which is valid and watches nothing yet, or a later call failed,
  an error is logged, and the descriptor's removal, which closes it, is posted.
\<close>

theorem factories_never_leak:
  assumes "fds_nonneg os" and "0 \<le> fd \<or> fd = -1"
  shows "\<forall>(opened, res) \<in>
      {(fst (os_socket os (sa_family (get_sockaddr addr)) False (kern l)), make_dgram_channel os addr l),
       (fst (os_socket os (sa_family (get_sockaddr addr)) True (kern l)), make_stream_server_channel os addr l),
       (fst (os_socket os (sa_family (get_sockaddr addr)) True (kern l)), make_stream_client_channel os addr l),
       (fst (os_timerfd_create os (kern l)), make_net_timer_channel os timeout_ms repeat_ms l),
       (if fd = -1 then Inl err else Inr fd, make_stream_session_channel os err fd l)}.
    (case opened of
       Inl e \<Rightarrow> fst res = None \<and> io_buffer_queue (snd res) = io_buffer_queue l \<and> elog (snd res) = elog l @ [LogSysError e]
     | Inr fd \<Rightarrow>
         (case fst res of
            None \<Rightarrow> io_buffer_queue (snd res) = io_buffer_queue l @ [RegisterTask fd, UnregisterTask fd] \<and>
              (\<exists>pre e post. elog (snd res) = elog l @ pre @ LogSysError e # post)
          | Some ch \<Rightarrow> io_buffer_queue (snd res) = io_buffer_queue l @ [RegisterTask fd] \<and> ch_fd ch = fd \<and>
              \<not> invalid_channel ch \<and> get_event_info ch = (kDefault, kDefault)))"
proof -
  have "owns_result (fst (os_socket os (sa_family (get_sockaddr addr)) False (kern l))) l (make_dgram_channel os addr l)"
    "owns_result (fst (os_socket os (sa_family (get_sockaddr addr)) True (kern l))) l (make_stream_server_channel os addr l)"
    "owns_result (fst (os_socket os (sa_family (get_sockaddr addr)) True (kern l))) l (make_stream_client_channel os addr l)"
    "owns_result (fst (os_timerfd_create os (kern l))) l (make_net_timer_channel os timeout_ms repeat_ms l)"
    using assms(1) unfolding make_dgram_channel_def make_stream_server_channel_def make_stream_client_channel_def
      make_net_timer_channel_def Let_def fds_nonneg_def by (blast intro: open_channel_owns)+
  moreover have "owns_result (if fd = -1 then Inl err else Inr fd) l (make_stream_session_channel os err fd l)"
  proof (cases "fd = -1")
    case True
    then show ?thesis by (simp add: make_stream_session_channel_def owns_result_def write_log_def)
  next
    case False
    then show ?thesis using assms(2) registered_owns [of fd l os "[]" "kern l"]
      by (simp add: make_stream_session_channel_def construct_LoopChannel_def del: setup_channel.simps)
  qed
  ultimately show ?thesis by (simp add: owns_result_def del: split_paired_All)
qed

text \<open>A server channel whose \<open>bind\<close> fails.\<close>

definition busy_os :: "kstate os" where
  "busy_os = ref_os\<lparr>os_bind := (\<lambda>fd sa len k. (Inl EACCES, k))\<rparr>"

theorem factories_never_leak_witness:
  "\<exists>fd. fst (os_socket busy_os AF_UNIX True (kern demo_loop)) = Inr fd \<and>
    fst (make_stream_server_channel busy_os demo_name demo_loop) = None \<and>
    io_buffer_queue (snd (make_stream_server_channel busy_os demo_name demo_loop)) = [RegisterTask fd, UnregisterTask fd]"
proof -
  have fds: "fds_nonneg busy_os" using ref_os_fds by (simp add: fds_nonneg_def busy_os_def)
  have "(0 :: fd) \<le> 5 \<or> (5 :: fd) = -1" by simp
  note P = factories_never_leak [OF fds this, of demo_name demo_loop 0 0 EINTR]
  have fam: "sa_family (get_sockaddr demo_name) = AF_UNIX" "AF_UNIX \<noteq> AF_INET6" "io_buffer_queue demo_loop = []"
    by (simp_all add: demo_name_def get_sockaddr_def demo_loop_def AF_UNIX_def AF_INET6_def)
  obtain fd k where s: "os_socket busy_os AF_UNIX True (kern demo_loop) = (Inr fd, k)"
    by (simp add: busy_os_def ref_os_def k_open_fd_def k_fresh_def demo_loop_def k_init_def)
  have "fst (make_stream_server_channel busy_os demo_name demo_loop) = None"
    using s fam by (simp add: make_stream_server_channel_def open_channel_def construct_LoopChannel_def split: prod.splits sum.splits)
      (simp add: busy_os_def)
  with P s fam show ?thesis by (intro exI [of _ fd]) auto
qed

end
