(* ===== verification/Stream_IO.thy ===== *)
theory Stream_IO
  imports Loop_Channel Stream_Buffer "HOL-Library.Sublist"
begin

text \<open>
  The stream functions of \<open>src/net/inet.cpp\<close> and \<open>include/kzevent/net/inet.hpp\<close>: one read into the
  free tail of a buffer and a spill array, one write from a buffer or from a container, the loops
  of the event callbacks that read, write and split, and the closure of \<open>post_send_task\<close>,
  which sessions and clients share. A buffer, its channel and the loop are passed and returned.
\<close>

section \<open>One system call\<close>

datatype IoStatus = kSuccess | kTryAgain | kDisconnected | kIoError

text \<open>\<open>send\<close> of a container: the value it returned and what it means.\<close>

definition stream_send_data :: "'k os \<Rightarrow> LoopChannel \<Rightarrow> byte list \<Rightarrow> ('k, 'cb, 't) Loop \<Rightarrow>
    (int \<times> IoStatus) \<times> ('k, 'cb, 't) Loop" where
  "stream_send_data os ch bytes l =
     (let (fd, l0) = get_fd ch l
      in case os_send os fd bytes (kern l0) of
           (Inl err, k) \<Rightarrow>
             if err = EAGAIN then ((-1, kTryAgain), l0\<lparr>kern := k\<rparr>)
             else if err = EPIPE then ((-1, kDisconnected), l0\<lparr>kern := k\<rparr>)
             else ((-1, kIoError), write_log (LogSysError err) (l0\<lparr>kern := k\<rparr>))
         | (Inr n, k) \<Rightarrow> ((int n, kSuccess), l0\<lparr>kern := k\<rparr>))"

definition stream_send :: "'k os \<Rightarrow> LoopChannel \<Rightarrow> StreamBuffer \<Rightarrow> ('k, 'cb, 't) Loop \<Rightarrow>
    IoStatus \<times> StreamBuffer \<times> ('k, 'cb, 't) Loop" where
  "stream_send os ch buf l =
     (let (fd, l0) = get_fd ch l
      in case os_send os fd (sb_contents buf) (kern l0) of
           (Inl err, k) \<Rightarrow>
             if err = EAGAIN then (kTryAgain, buf, l0\<lparr>kern := k\<rparr>)
             else if err = EPIPE then (kDisconnected, buf, l0\<lparr>kern := k\<rparr>)
             else (kIoError, buf, write_log (LogSysError err) (l0\<lparr>kern := k\<rparr>))
         | (Inr n, k) \<Rightarrow> (kSuccess, sb_pop (int n) buf, l0\<lparr>kern := k\<rparr>))"

definition UINT16_MAX :: nat where "UINT16_MAX = 65535"

definition stream_recv :: "'k os \<Rightarrow> LoopChannel \<Rightarrow> StreamBuffer \<Rightarrow> ('k, 'cb, 't) Loop \<Rightarrow>
    IoStatus \<times> StreamBuffer \<times> ('k, 'cb, 't) Loop" where
  "stream_recv os ch buf l =
     (let buf_space = sb_space buf; (fd, l0) = get_fd ch l
      in case os_readv os fd (nat buf_space + UINT16_MAX) (kern l0) of
           (Inl err, k) \<Rightarrow>
             if err = EAGAIN then (kTryAgain, buf, l0\<lparr>kern := k\<rparr>)
             else if err = ECONNRESET then (kDisconnected, buf, l0\<lparr>kern := k\<rparr>)
             else (kIoError, buf, write_log (LogSysError err) (l0\<lparr>kern := k\<rparr>))
         | (Inr bytes, k) \<Rightarrow>
             if bytes = [] then (kDisconnected, buf, l0\<lparr>kern := k\<rparr>)
             else if int (length bytes) > buf_space
             then (kSuccess, sb_insert (drop (nat buf_space) bytes)
                     (sb_push buf_space (sb_fill (take (nat buf_space) bytes) buf)), l0\<lparr>kern := k\<rparr>)
             else (kSuccess, sb_push (int (length bytes)) (sb_fill bytes buf), l0\<lparr>kern := k\<rparr>))"

section \<open>The loops of the callbacks\<close>

text \<open>
  Reading until the socket has nothing more: whether the peer is gone, and the buffer.
\<close>

partial_function (option) recv_loop :: "'k os \<Rightarrow> LoopChannel \<Rightarrow> StreamBuffer \<Rightarrow> ('k, 'cb, 't) Loop \<Rightarrow>
    (bool \<times> StreamBuffer \<times> ('k, 'cb, 't) Loop) option" where
  "recv_loop os ch buf l =
     (case stream_recv os ch buf l of (status, buf', l') \<Rightarrow>
        (case status of
           kSuccess \<Rightarrow> recv_loop os ch buf' l'
         | kTryAgain \<Rightarrow> Some (False, buf', l')
         | kDisconnected \<Rightarrow> Some (True, buf', l')
         | kIoError \<Rightarrow> Some (False, sb_clear buf', l')))"

text \<open>
  Writing until the buffer is empty, when the write event is given up, or the socket takes no
  more. An error clears the receive buffer, as the source has it.
\<close>

partial_function (option) send_loop :: "'k os \<Rightarrow> LoopChannel \<Rightarrow> StreamBuffer \<Rightarrow> StreamBuffer \<Rightarrow> ('k, 'cb, 't) Loop \<Rightarrow>
    (bool \<times> LoopChannel \<times> StreamBuffer \<times> StreamBuffer \<times> ('k, 'cb, 't) Loop) option" where
  "send_loop os ch sbuf rbuf l =
     (case stream_send os ch sbuf l of (status, sbuf', l') \<Rightarrow>
        (case status of
           kSuccess \<Rightarrow>
             if sb_empty sbuf'
             then let (old_types, old_modes) = get_event_info ch;
                      (ch', l2) = update_event os (event_and old_types (event_not kWrite)) old_modes ch l'
                  in Some (False, ch', sbuf', rbuf, l2)
             else send_loop os ch sbuf' rbuf l'
         | kTryAgain \<Rightarrow> Some (False, ch, sbuf', rbuf, l')
         | kDisconnected \<Rightarrow> Some (True, ch, sbuf', rbuf, l')
         | kIoError \<Rightarrow> Some (False, ch, sbuf', sb_clear rbuf, l')))"

text \<open>
  Splitting what has been received into frames: \<open>on_split\<close> says how long the next frame is,
  \<open>on_fragment\<close> gets it. A length beyond the buffer reads past it.
\<close>

partial_function (option) split_loop :: "(byte list \<Rightarrow> 'w \<Rightarrow> int \<times> 'w) \<Rightarrow> (byte list \<Rightarrow> 'w \<Rightarrow> 'w) \<Rightarrow>
    StreamBuffer \<Rightarrow> 'w \<Rightarrow> (fault + StreamBuffer \<times> 'w) option" where
  "split_loop on_split on_fragment buf w =
     (case on_split (sb_contents buf) w of (consume_len, w1) \<Rightarrow>
        if consume_len \<le> 0 then Some (Inr (buf, w1))
        else if consume_len > sb_size buf then Some (Inl (OutOfRange consume_len))
        else split_loop on_split on_fragment (sb_pop consume_len buf)
               (on_fragment (take (nat consume_len) (sb_contents buf)) w1))"

section \<open>Sending\<close>

text \<open>The rest of a message waits in the buffer, and the write event is asked for.\<close>

definition queue_and_watch :: "'k os \<Rightarrow> byte list \<Rightarrow> LoopChannel \<Rightarrow> StreamBuffer \<Rightarrow> ('k, 'cb, 't) Loop \<Rightarrow>
    LoopChannel \<times> StreamBuffer \<times> ('k, 'cb, 't) Loop" where
  "queue_and_watch os bytes ch sbuf l =
     (let (old_types, old_modes) = get_event_info ch;
          (ch', l') = update_event os (event_or old_types kWrite) old_modes ch l
      in (ch', sb_insert bytes sbuf, l'))"

text \<open>
  The closure of \<open>post_send_task\<close>: \<open>waiting\<close> is the condition under which the message must
  queue (a session: bytes are waiting; a client: also when it is not connected).
\<close>

definition send_or_queue :: "'k os \<Rightarrow> bool \<Rightarrow> byte list \<Rightarrow> LoopChannel \<Rightarrow> StreamBuffer \<Rightarrow> ('k, 'cb, 't) Loop \<Rightarrow>
    LoopChannel \<times> StreamBuffer \<times> ('k, 'cb, 't) Loop" where
  "send_or_queue os waiting bytes ch sbuf l =
     (if waiting then (ch, sb_insert bytes sbuf, l)
      else case stream_send_data os ch bytes l of ((ret, status), l') \<Rightarrow>
        (case status of
           kSuccess \<Rightarrow>
             if ret = int (length bytes) then (ch, sbuf, l')
             else queue_and_watch os (drop (nat ret) bytes) ch sbuf l'
         | kTryAgain \<Rightarrow> queue_and_watch os bytes ch sbuf l'
         | kDisconnected \<Rightarrow> (ch, sbuf, l')
         | kIoError \<Rightarrow> (ch, sbuf, l')))"


section \<open>Lemmas\<close>

lemma get_fd_valid: "\<not> invalid_channel ch \<Longrightarrow> get_fd ch l = (ch_fd ch, l)"
  by (simp add: get_fd_def)

lemma space_nonneg: "sb_invar buf \<Longrightarrow> 0 \<le> sb_space buf"
  by (simp add: sb_invar_def sb_space_def)

text \<open>Scatter reading appends: the bytes that fit, in place, and the spilled ones after them.\<close>

lemma scatter_appends:
  assumes inv: "sb_invar buf" and big: "int (length bytes) > sb_space buf"
  defines "buf' \<equiv> sb_insert (drop (nat (sb_space buf)) bytes)
    (sb_push (sb_space buf) (sb_fill (take (nat (sb_space buf)) bytes) buf))"
  shows "sb_invar buf'" and "sb_contents buf' = sb_contents buf @ bytes"
proof -
  let ?n = "nat (sb_space buf)"
  have len: "int (length (take ?n bytes)) = sb_space buf"
    using space_nonneg [OF inv] big by simp
  then have fits: "int (length (take ?n bytes)) \<le> sb_space buf" by simp
  note fill = sb_fill_push [OF inv fits, unfolded len]
  show "sb_invar buf'" unfolding buf'_def by (rule sb_insert_invar [OF fill(1)])
  show "sb_contents buf' = sb_contents buf @ bytes"
    unfolding buf'_def by (simp add: sb_insert_contents [OF fill(1)] fill(2))
qed

text \<open>A call changes the kernel only; one that failed for good also logs its error.\<close>

definition io_step :: "bool \<Rightarrow> ('k, 'cb, 't) Loop \<Rightarrow> ('k, 'cb, 't) Loop \<Rightarrow> bool" where
  "io_step failed l l' \<longleftrightarrow> (\<exists>k err. l' = (if failed then write_log (LogSysError err) (l\<lparr>kern := k\<rparr>) else l\<lparr>kern := k\<rparr>))"

lemma io_stepI:
  "io_step False l (l\<lparr>kern := k\<rparr>)" "io_step True l (write_log (LogSysError err) (l\<lparr>kern := k\<rparr>))"
  by (auto simp: io_step_def)

lemma io_stepD:
  assumes "io_step failed l l'"
  shows "events l' = events l" "live l' = live l" "io_buffer_queue l' = io_buffer_queue l"
    "heavy_buffer_queue l' = heavy_buffer_queue l"
    "failed \<Longrightarrow> \<exists>err. elog l' = elog l @ [LogSysError err]" "\<not> failed \<Longrightarrow> elog l' = elog l"
  using assms by (auto simp: io_step_def split: if_splits)

lemma io_step_trans: "io_step False l l1 \<Longrightarrow> io_step failed l1 l2 \<Longrightarrow> io_step failed l l2"
  unfolding io_step_def by (cases failed) (force, auto)

lemma stream_recv_effect:
  assumes doc: "stream_documented os inbox sent" and inv: "sb_invar buf" and ch: "\<not> invalid_channel ch"
    and recv: "stream_recv os ch buf l = (status, buf', l')"
  shows "sb_invar buf'" and "sent (kern l') = sent (kern l)"
    and "status = kSuccess \<Longrightarrow> \<exists>bytes. bytes \<noteq> [] \<and> sb_contents buf' = sb_contents buf @ bytes \<and>
      inbox (kern l) (ch_fd ch) = bytes @ inbox (kern l') (ch_fd ch)"
    and "status \<noteq> kSuccess \<Longrightarrow> buf' = buf \<and> inbox (kern l') (ch_fd ch) = inbox (kern l) (ch_fd ch)"
    and "io_step (status = kIoError) l l'"
proof -
  obtain r k where r: "os_readv os (ch_fd ch) (nat (sb_space buf) + UINT16_MAX) (kern l) = (r, k)" by fastforce
  note D = readv_documentedD [OF doc r]
  note unf = recv [unfolded stream_recv_def get_fd_valid [OF ch] Let_def prod.case r]
  have "sb_invar buf' \<and> sent (kern l') = sent (kern l) \<and>
    (status = kSuccess \<longrightarrow> (\<exists>bytes. bytes \<noteq> [] \<and> sb_contents buf' = sb_contents buf @ bytes \<and>
      inbox (kern l) (ch_fd ch) = bytes @ inbox (kern l') (ch_fd ch))) \<and>
    (status \<noteq> kSuccess \<longrightarrow> buf' = buf \<and> inbox (kern l') (ch_fd ch) = inbox (kern l) (ch_fd ch)) \<and>
    io_step (status = kIoError) l l'"
  proof (cases r)
    case (Inl err)
    then show ?thesis using unf D(1,2) inv by (auto split: if_splits intro: io_stepI)
  next
    case (Inr bytes)
    note D' = D(4) [OF Inr]
    consider "bytes = []" | "bytes \<noteq> []" "int (length bytes) > sb_space buf" | "bytes \<noteq> []" "int (length bytes) \<le> sb_space buf"
      by linarith
    then show ?thesis
    proof cases
      case 1
      then show ?thesis using unf Inr D(1) D' inv by (auto intro: io_stepI)
    next
      case 2
      then show ?thesis using unf Inr D(1) D' scatter_appends [OF inv 2(2)] by (auto intro: io_stepI)
    next
      case 3
      then show ?thesis using unf Inr D(1) D' sb_fill_push [OF inv 3(2)] by (auto intro: io_stepI)
    qed
  qed
  then show "sb_invar buf'" "sent (kern l') = sent (kern l)"
    "status = kSuccess \<Longrightarrow> \<exists>bytes. bytes \<noteq> [] \<and> sb_contents buf' = sb_contents buf @ bytes \<and>
      inbox (kern l) (ch_fd ch) = bytes @ inbox (kern l') (ch_fd ch)"
    "status \<noteq> kSuccess \<Longrightarrow> buf' = buf \<and> inbox (kern l') (ch_fd ch) = inbox (kern l) (ch_fd ch)"
    "io_step (status = kIoError) l l'"
    by blast+
qed


text \<open>
  A run of \<open>readv\<close> calls that succeed, and the call that ends it: nothing is left, the peer is gone (end
  of file or a reset), or another error.
\<close>

datatype read_end = Drained | PeerGone | ReadFailed errno

inductive reads :: "'k os \<Rightarrow> fd \<Rightarrow> 'k \<Rightarrow> byte list \<Rightarrow> read_end \<Rightarrow> 'k \<Rightarrow> bool" for os :: "'k os" and fd where
  drained: "os_readv os fd cap k = (Inl EAGAIN, k') \<Longrightarrow> reads os fd k [] Drained k'"
| closed: "os_readv os fd cap k = (Inr [], k') \<Longrightarrow> 0 < cap \<Longrightarrow> reads os fd k [] PeerGone k'"
| reset: "os_readv os fd cap k = (Inl ECONNRESET, k') \<Longrightarrow> reads os fd k [] PeerGone k'"
| failed: "os_readv os fd cap k = (Inl err, k') \<Longrightarrow> err \<noteq> EAGAIN \<Longrightarrow> err \<noteq> ECONNRESET \<Longrightarrow>
    reads os fd k [] (ReadFailed err) k'"
| more: "os_readv os fd cap k = (Inr bs, k1) \<Longrightarrow> bs \<noteq> [] \<Longrightarrow> reads os fd k1 bytes e k' \<Longrightarrow>
    reads os fd k (bs @ bytes) e k'"

text \<open>What the end of the reading does to the loop, and to the bytes that were received.\<close>

definition after_reads :: "read_end \<Rightarrow> ('k, 'cb, 't) Loop \<Rightarrow> ('k, 'cb, 't) Loop" where
  "after_reads e l = (case e of ReadFailed err \<Rightarrow> write_log (LogSysError err) l | _ \<Rightarrow> l)"

definition kept_bytes :: "read_end \<Rightarrow> byte list \<Rightarrow> byte list" where
  "kept_bytes e bytes = (case e of ReadFailed err \<Rightarrow> [] | _ \<Rightarrow> bytes)"

lemma recv_loop_reads:
  assumes doc: "stream_documented os inbox sent" and ch: "\<not> invalid_channel ch"
  shows "sb_invar buf \<Longrightarrow> \<exists>bytes e k buf'. reads os (ch_fd ch) (kern l) bytes e k \<and>
    recv_loop os ch buf l = Some (e = PeerGone, buf', after_reads e (l\<lparr>kern := k\<rparr>)) \<and> sb_invar buf' \<and>
    sb_contents buf' = kept_bytes e (sb_contents buf @ bytes) \<and> sent k = sent (kern l) \<and>
    inbox (kern l) (ch_fd ch) = bytes @ inbox k (ch_fd ch)"
proof (induction "length (inbox (kern l) (ch_fd ch))" arbitrary: buf l rule: less_induct)
  case less
  let ?cap = "nat (sb_space buf) + UINT16_MAX"
  obtain r k where r: "os_readv os (ch_fd ch) ?cap (kern l) = (r, k)" by fastforce
  obtain status buf1 l1 where s: "stream_recv os ch buf l = (status, buf1, l1)" by (cases "stream_recv os ch buf l")
  note E = stream_recv_effect [OF doc less.prems ch s] and D = readv_documentedD [OF doc r]
  note unf = s [unfolded stream_recv_def get_fd_valid [OF ch] Let_def prod.case r]
  have cap: "0 < ?cap" by (simp add: UINT16_MAX_def)
  show ?case
  proof (cases r)
    case (Inl err)
    define e where "e = (if err = EAGAIN then Drained else if err = ECONNRESET then PeerGone else ReadFailed err)"
    have "reads os (ch_fd ch) (kern l) [] e k"
      using r Inl by (auto simp: e_def intro: reads.intros)
    moreover have "recv_loop os ch buf l = Some (e = PeerGone, if e = ReadFailed err then sb_clear buf else buf,
        after_reads e (l\<lparr>kern := k\<rparr>))"
      using s unf Inl by (auto simp: recv_loop.simps [of os ch buf] e_def after_reads_def split: if_splits)
    ultimately show ?thesis
      using Inl less.prems sb_clear_correct [OF less.prems] D(1,2)
      by (intro exI [of _ "[]"] exI [of _ e] exI [of _ k]) (auto simp: e_def kept_bytes_def)
  next
    case (Inr bs)
    show ?thesis
    proof (cases "bs = []")
      case True
      then have "reads os (ch_fd ch) (kern l) [] PeerGone k" using r Inr cap by (auto intro: reads.closed)
      moreover have "stream_recv os ch buf l = (kDisconnected, buf, l\<lparr>kern := k\<rparr>)" using s unf Inr True by auto
      then have "recv_loop os ch buf l = Some (True, buf, l\<lparr>kern := k\<rparr>)" by (simp add: recv_loop.simps [of os ch buf])
      ultimately show ?thesis using Inr True less.prems D(1) D(4) [OF Inr]
        by (intro exI [of _ "[]"] exI [of _ PeerGone] exI [of _ k] exI [of _ buf]) (simp add: kept_bytes_def after_reads_def)
    next
      case False
      then have st: "status = kSuccess" "l1 = l\<lparr>kern := k\<rparr>" using unf Inr by (auto split: if_splits)
      obtain bs' where bs': "sb_contents buf1 = sb_contents buf @ bs'" "inbox (kern l) (ch_fd ch) = bs' @ inbox (kern l1) (ch_fd ch)"
        using E(3) [OF st(1)] by blast
      have eq: "bs' = bs" using bs'(2) D(4) [OF Inr] st(2) by simp
      have "length (inbox (kern l1) (ch_fd ch)) < length (inbox (kern l) (ch_fd ch))" using bs'(2) eq False by simp
      from less.hyps [OF this E(1)] obtain bytes e k' buf' where R: "reads os (ch_fd ch) (kern l1) bytes e k'"
        "recv_loop os ch buf1 l1 = Some (e = PeerGone, buf', after_reads e (l1\<lparr>kern := k'\<rparr>))" "sb_invar buf'"
        "sb_contents buf' = kept_bytes e (sb_contents buf1 @ bytes)" "sent k' = sent (kern l1)"
        "inbox (kern l1) (ch_fd ch) = bytes @ inbox k' (ch_fd ch)" by blast
      have "reads os (ch_fd ch) (kern l) (bs @ bytes) e k'"
        using reads.more r Inr False R(1) st(2) by fastforce
      moreover have "recv_loop os ch buf l = Some (e = PeerGone, buf', after_reads e (l\<lparr>kern := k'\<rparr>))"
        using s st R(2) by (simp add: recv_loop.simps [of os ch buf])
      ultimately show ?thesis using R(3-6) bs' eq st(2) D(1)
        by (intro exI [of _ "bs @ bytes"] exI [of _ e] exI [of _ k'] exI [of _ buf']) simp
    qed
  qed
qed

lemma recv_loop_returns:
  assumes doc: "stream_documented os inbox sent" and ch: "\<not> invalid_channel ch" and inv: "sb_invar buf"
  shows "\<exists>gone buf' l' bytes. recv_loop os ch buf l = Some (gone, buf', l') \<and> sb_invar buf' \<and>
    sent (kern l') = sent (kern l) \<and> inbox (kern l) (ch_fd ch) = bytes @ inbox (kern l') (ch_fd ch) \<and>
    (io_step False l l' \<and> sb_contents buf' = sb_contents buf @ bytes \<or>
     io_step True l l' \<and> \<not> gone \<and> sb_contents buf' = [])"
proof -
  from recv_loop_reads [OF doc ch inv, of l] obtain bytes e k buf' where R:
    "recv_loop os ch buf l = Some (e = PeerGone, buf', after_reads e (l\<lparr>kern := k\<rparr>))" "sb_invar buf'"
    "sb_contents buf' = kept_bytes e (sb_contents buf @ bytes)" "sent k = sent (kern l)"
    "inbox (kern l) (ch_fd ch) = bytes @ inbox k (ch_fd ch)" by blast
  then show ?thesis
    by (cases e) (auto simp: after_reads_def kept_bytes_def io_step_def)
qed

text \<open>One write: what the kernel has taken and what is left in the buffer are what was there.\<close>

lemma stream_send_effect:
  assumes doc: "stream_documented os inbox sent" and inv: "sb_invar buf" and ch: "\<not> invalid_channel ch"
    and send: "stream_send os ch buf l = (status, buf', l')"
  shows "sb_invar buf'" and "inbox (kern l') = inbox (kern l)"
    and "sent (kern l') (ch_fd ch) @ sb_contents buf' = sent (kern l) (ch_fd ch) @ sb_contents buf"
    and "status = kSuccess \<Longrightarrow> sb_contents buf' = [] \<or> length (sb_contents buf') < length (sb_contents buf)"
    and "status \<noteq> kSuccess \<Longrightarrow> buf' = buf" and "io_step (status = kIoError) l l'"
proof -
  obtain r k where r: "os_send os (ch_fd ch) (sb_contents buf) (kern l) = (r, k)" by fastforce
  note D = send_documentedD [OF doc r]
  note unf = send [unfolded stream_send_def get_fd_valid [OF ch] Let_def prod.case r]
  have "sb_invar buf' \<and> inbox (kern l') = inbox (kern l) \<and>
    sent (kern l') (ch_fd ch) @ sb_contents buf' = sent (kern l) (ch_fd ch) @ sb_contents buf \<and>
    (status = kSuccess \<longrightarrow> sb_contents buf' = [] \<or> length (sb_contents buf') < length (sb_contents buf)) \<and>
    (status \<noteq> kSuccess \<longrightarrow> buf' = buf) \<and> io_step (status = kIoError) l l'"
  proof (cases r)
    case (Inl err)
    then show ?thesis using unf D(1,2) inv by (auto split: if_splits intro: io_stepI)
  next
    case (Inr n)
    then show ?thesis
      using unf D(1) D(3-5) [OF Inr] sb_pop_invar [OF inv, of "int n"] sb_pop_contents [OF inv, of "int n"]
      by (cases "sb_contents buf = []") (auto intro: io_stepI)
  qed
  then show "sb_invar buf'" "inbox (kern l') = inbox (kern l)"
    "sent (kern l') (ch_fd ch) @ sb_contents buf' = sent (kern l) (ch_fd ch) @ sb_contents buf"
    "status = kSuccess \<Longrightarrow> sb_contents buf' = [] \<or> length (sb_contents buf') < length (sb_contents buf)"
    "status \<noteq> kSuccess \<Longrightarrow> buf' = buf" "io_step (status = kIoError) l l'"
    by blast+
qed

text \<open>Bytes wait only while the write event is watched.\<close>

definition watch_ok :: "LoopChannel \<Rightarrow> StreamBuffer \<Rightarrow> bool" where
  "watch_ok ch sbuf \<longleftrightarrow> sb_contents sbuf \<noteq> [] \<longrightarrow> has_event (event_types ch) kWrite"

lemma watch_write: "has_event (event_or t kWrite) kWrite"
  unfolding has_event_bit event_or_def by (simp add: bit_or_iff kWrite_def bit_push_bit_iff)

lemma update_event_channel:
  assumes "\<not> invalid_channel ch" and "update_event os types modes ch l = (ch', l')"
  shows "ch_fd ch' = ch_fd ch" "\<not> invalid_channel ch'" "event_types ch' = types"
    "l' = enable_fd os (ch_fd ch) types modes l"
  using assms by (auto simp: update_event_def invalid_channel_def)

text \<open>Posting to the loop does not touch the sockets.\<close>

definition wake_silent :: "'k os \<Rightarrow> ('k \<Rightarrow> 'a) \<Rightarrow> bool" where
  "wake_silent os f \<longleftrightarrow> (\<forall>fd v k r k'. os_counter_write os fd v k = (r, k') \<longrightarrow> f k' = f k)"

lemma post_io_silent: "wake_silent os f \<Longrightarrow> f (kern (post_io_task os t l)) = f (kern l)"
  by (auto simp: wake_silent_def post_io_task_def wake_io_up_def split: prod.splits sum.splits)

lemma send_loop_ends:
  assumes doc: "stream_documented os inbox sent" and wake: "wake_silent os sent" and ch: "\<not> invalid_channel ch"
  shows "sb_invar sbuf \<Longrightarrow> (b \<longrightarrow> watch_ok ch sbuf) \<Longrightarrow> \<exists>gone ch' sbuf' rbuf' l'.
    send_loop os ch sbuf rbuf l = Some (gone, ch', sbuf', rbuf', l') \<and> sb_invar sbuf' \<and> (b \<longrightarrow> watch_ok ch' sbuf') \<and>
    ch_fd ch' = ch_fd ch \<and> \<not> invalid_channel ch' \<and> rbuf' \<in> {rbuf, sb_clear rbuf} \<and>
    sent (kern l') (ch_fd ch) @ sb_contents sbuf' = sent (kern l) (ch_fd ch) @ sb_contents sbuf"
proof (induction "length (sb_contents sbuf)" arbitrary: sbuf l rule: less_induct)
  case less
  obtain status sbuf1 l1 where s: "stream_send os ch sbuf l = (status, sbuf1, l1)" by (cases "stream_send os ch sbuf l")
  note E = stream_send_effect [OF doc less.prems(1) ch s]
  obtain ch2 l2 where u: "update_event os (event_and (event_types ch) (event_not kWrite)) (event_modes ch) ch l1 = (ch2, l2)"
    by fastforce
  note U = update_event_channel [OF ch u]
  consider (gone) "status \<noteq> kSuccess" | (sent) "status = kSuccess" "sb_contents sbuf1 = []"
    | (more) "status = kSuccess" "sb_contents sbuf1 \<noteq> []" by blast
  then show ?case
  proof cases
    case gone
    then have "send_loop os ch sbuf rbuf l =
        Some (status = kDisconnected, ch, sbuf1, if status = kIoError then sb_clear rbuf else rbuf, l1)"
      using s by (cases status) (simp_all add: send_loop.simps [of os ch sbuf])
    then show ?thesis using E gone less.prems ch by auto
  next
    case sent
    then have "send_loop os ch sbuf rbuf l = Some (False, ch2, sbuf1, rbuf, l2)"
      using s u sb_empty_iff [OF E(1)] by (simp add: send_loop.simps [of os ch sbuf] get_event_info_def)
    moreover have "sent (kern l2) = sent (kern l1)"
      using post_io_silent [OF wake] by (simp add: U(4) enable_fd_def)
    ultimately show ?thesis using E U sent by (auto simp: watch_ok_def)
  next
    case more
    then have "length (sb_contents sbuf1) < length (sb_contents sbuf)" using E(4) by auto
    moreover from this have "b \<longrightarrow> watch_ok ch sbuf1" using less.prems(2) by (auto simp: watch_ok_def)
    ultimately have "\<exists>gone ch' sbuf' rbuf' l'.
      send_loop os ch sbuf1 rbuf l1 = Some (gone, ch', sbuf', rbuf', l') \<and> sb_invar sbuf' \<and> (b \<longrightarrow> watch_ok ch' sbuf') \<and>
      ch_fd ch' = ch_fd ch \<and> \<not> invalid_channel ch' \<and> rbuf' \<in> {rbuf, sb_clear rbuf} \<and>
      sent (kern l') (ch_fd ch) @ sb_contents sbuf' = sent (kern l1) (ch_fd ch) @ sb_contents sbuf1"
      using less.hyps E(1) by blast
    moreover have "send_loop os ch sbuf rbuf l = send_loop os ch sbuf1 rbuf l1"
      using s more sb_empty_iff [OF E(1)] by (simp add: send_loop.simps [of os ch sbuf])
    ultimately show ?thesis using E(3) by metis
  qed
qed

lemmas send_loop_returns = send_loop_ends [where b = True, simplified]

lemma stream_send_data_effect:
  assumes doc: "stream_documented os inbox sent" and ch: "\<not> invalid_channel ch"
    and send: "stream_send_data os ch bytes l = ((ret, status), l')"
  shows "status = kSuccess \<Longrightarrow> 0 \<le> ret \<and> nat ret \<le> length bytes \<and>
      sent (kern l') (ch_fd ch) = sent (kern l) (ch_fd ch) @ take (nat ret) bytes"
    and "status \<noteq> kSuccess \<Longrightarrow> sent (kern l') = sent (kern l)"
    and "status = kTryAgain \<or> status = kSuccess \<or> (\<exists>err. err \<noteq> EAGAIN \<and> fst (os_send os (ch_fd ch) bytes (kern l)) = Inl err)"
proof -
  obtain r k where r: "os_send os (ch_fd ch) bytes (kern l) = (r, k)" by fastforce
  note D = send_documentedD [OF doc r]
  note unf = send [unfolded stream_send_data_def get_fd_valid [OF ch] Let_def prod.case r]
  show "status = kSuccess \<Longrightarrow> 0 \<le> ret \<and> nat ret \<le> length bytes \<and>
      sent (kern l') (ch_fd ch) = sent (kern l) (ch_fd ch) @ take (nat ret) bytes"
    using unf D(3,5) by (cases r) (auto split: if_splits)
  show "status \<noteq> kSuccess \<Longrightarrow> sent (kern l') = sent (kern l)"
    using unf D(2) by (cases r) (auto split: if_splits)
  show "status = kTryAgain \<or> status = kSuccess \<or> (\<exists>err. err \<noteq> EAGAIN \<and> fst (os_send os (ch_fd ch) bytes (kern l)) = Inl err)"
    using unf r by (cases r) (auto split: if_splits)
qed

lemma queue_and_watch_effect:
  assumes wake: "wake_silent os sent" and ch: "\<not> invalid_channel ch" and inv: "sb_invar sbuf"
    and q: "queue_and_watch os bytes ch sbuf l = (ch', sbuf', l')"
  shows "sb_invar sbuf'" "sb_contents sbuf' = sb_contents sbuf @ bytes" "watch_ok ch' sbuf'"
    "ch_fd ch' = ch_fd ch" "\<not> invalid_channel ch'" "sent (kern l') = sent (kern l)"
proof -
  obtain ch2 l2 where u: "update_event os (event_or (event_types ch) kWrite) (event_modes ch) ch l = (ch2, l2)" by fastforce
  note U = update_event_channel [OF ch u]
  have eq: "ch' = ch2" "l' = l2" "sbuf' = sb_insert bytes sbuf"
    using q u by (simp_all add: queue_and_watch_def get_event_info_def)
  show "sb_invar sbuf'" "sb_contents sbuf' = sb_contents sbuf @ bytes"
    by (simp_all add: eq sb_insert_invar [OF inv] sb_insert_contents [OF inv])
  show "watch_ok ch' sbuf'" "ch_fd ch' = ch_fd ch" "\<not> invalid_channel ch'"
    using U by (simp_all add: eq watch_ok_def watch_write)
  show "sent (kern l') = sent (kern l)"
    using post_io_silent [OF wake] by (simp add: eq U(4) enable_fd_def)
qed

text \<open>A message is sent and queued behind what waits, whole and in order, or the socket refused it whole.\<close>

lemma send_or_queue_kept:
  assumes doc: "stream_documented os inbox sent" and wake: "wake_silent os sent" and ch: "\<not> invalid_channel ch"
    and inv: "sb_invar sbuf" and watch: "b \<longrightarrow> watch_ok ch sbuf" and w: "waiting = (\<not> sb_empty sbuf)"
    and q: "send_or_queue os waiting bytes ch sbuf l = (ch', sbuf', l')"
  shows "sb_invar sbuf' \<and> (b \<longrightarrow> watch_ok ch' sbuf') \<and> ch_fd ch' = ch_fd ch \<and> \<not> invalid_channel ch' \<and>
    (sent (kern l') (ch_fd ch) @ sb_contents sbuf' = sent (kern l) (ch_fd ch) @ sb_contents sbuf @ bytes \<or>
     sent (kern l') (ch_fd ch) @ sb_contents sbuf' = sent (kern l) (ch_fd ch) @ sb_contents sbuf \<and>
     (\<exists>err k. err \<noteq> EAGAIN \<and> fst (os_send os (ch_fd ch) bytes k) = Inl err))"
proof (cases waiting)
  case True
  then have "ch' = ch" "sbuf' = sb_insert bytes sbuf" "l' = l" using q by (simp_all add: send_or_queue_def)
  moreover have "sb_contents sbuf \<noteq> []" using True w sb_empty_iff [OF inv] by simp
  ultimately show ?thesis
    using watch ch by (simp add: sb_insert_invar [OF inv] sb_insert_contents [OF inv] watch_ok_def)
next
  case False
  then have none: "sb_contents sbuf = []" using w sb_empty_iff [OF inv] by simp
  obtain ret status l1 where s: "stream_send_data os ch bytes l = ((ret, status), l1)"
    by (metis prod.exhaust)
  note S = stream_send_data_effect [OF doc ch s]
  consider (all) "status = kSuccess" "ret = int (length bytes)" | (part) "status = kSuccess" "ret \<noteq> int (length bytes)"
    | (full) "status = kTryAgain" | (lost) "status = kDisconnected \<or> status = kIoError" by (cases status) auto
  then show ?thesis
  proof cases
    case all
    then have "ch' = ch" "sbuf' = sbuf" "l' = l1" using q False s by (simp_all add: send_or_queue_def)
    then show ?thesis using S(1) all inv watch ch none by auto
  next
    case part
    then have "queue_and_watch os (drop (nat ret) bytes) ch sbuf l1 = (ch', sbuf', l')"
      using q False s by (simp add: send_or_queue_def)
    from queue_and_watch_effect [OF wake ch inv this] S(1) [OF part(1)] none show ?thesis by simp
  next
    case full
    then have "queue_and_watch os bytes ch sbuf l1 = (ch', sbuf', l')"
      using q False s by (simp add: send_or_queue_def)
    from queue_and_watch_effect [OF wake ch inv this] S(2) full none show ?thesis by simp
  next
    case lost
    then have "ch' = ch" "sbuf' = sbuf" "l' = l1" using q False s by (auto simp: send_or_queue_def)
    then show ?thesis using S(2,3) lost inv watch ch none by auto
  qed
qed

lemmas send_or_queue_effect = send_or_queue_kept [where b = True, simplified]

text \<open>The world after the frames were handed over, one after the other.\<close>

fun deliver :: "(byte list \<Rightarrow> 'w \<Rightarrow> int \<times> 'w) \<Rightarrow> (byte list \<Rightarrow> 'w \<Rightarrow> 'w) \<Rightarrow> byte list \<Rightarrow> byte list list \<Rightarrow> 'w \<Rightarrow> 'w" where
  "deliver on_split on_fragment bytes [] w = snd (on_split bytes w)"
| "deliver on_split on_fragment bytes (f # fs) w =
     deliver on_split on_fragment (drop (length f) bytes) fs (on_fragment f (snd (on_split bytes w)))"

text \<open>Each frame is as long as \<open>on_split\<close> said, and \<open>on_split\<close> had no further one to claim.\<close>

fun cut_by :: "(byte list \<Rightarrow> 'w \<Rightarrow> int \<times> 'w) \<Rightarrow> (byte list \<Rightarrow> 'w \<Rightarrow> 'w) \<Rightarrow> byte list \<Rightarrow> byte list list \<Rightarrow> 'w \<Rightarrow> bool" where
  "cut_by on_split on_fragment bytes [] w \<longleftrightarrow> fst (on_split bytes w) \<le> 0"
| "cut_by on_split on_fragment bytes (f # fs) w \<longleftrightarrow> fst (on_split bytes w) = int (length f) \<and>
     cut_by on_split on_fragment (drop (length f) bytes) fs (on_fragment f (snd (on_split bytes w)))"

lemma split_loop_returns:
  assumes bound: "\<And>bytes w. fst (on_split bytes w) \<le> int (length bytes)"
  shows "sb_invar buf \<Longrightarrow> \<exists>frames buf' w'. split_loop on_split on_fragment buf w = Some (Inr (buf', w')) \<and> sb_invar buf' \<and>
    sb_contents buf = concat frames @ sb_contents buf' \<and> [] \<notin> set frames \<and>
    w' = deliver on_split on_fragment (sb_contents buf) frames w \<and> cut_by on_split on_fragment (sb_contents buf) frames w"
proof (induction "length (sb_contents buf)" arbitrary: buf w rule: less_induct)
  case less
  obtain n w1 where split: "on_split (sb_contents buf) w = (n, w1)" by fastforce
  have size: "sb_size buf = int (length (sb_contents buf))" using length_sb_contents [OF less.prems] by simp
  have n: "n \<le> int (length (sb_contents buf))" using bound [of "sb_contents buf" w] split by simp
  show ?case
  proof (cases "n \<le> 0")
    case True
    then have "split_loop on_split on_fragment buf w = Some (Inr (buf, w1))"
      using split by (simp add: split_loop.simps [of on_split on_fragment buf])
    then show ?thesis using less.prems split True
      by (intro exI [of _ "[]"] exI [of _ buf] exI [of _ w1]) simp
  next
    case False
    let ?buf = "sb_pop n buf" and ?f = "take (nat n) (sb_contents buf)"
    have pop: "sb_invar ?buf" "sb_contents ?buf = drop (nat n) (sb_contents buf)"
      using False less.prems by (simp_all add: sb_pop_invar sb_pop_contents)
    have f: "?f \<noteq> []" "length ?f = nat n" using False n by auto
    have "length (sb_contents ?buf) < length (sb_contents buf)" using pop(2) False n by simp
    from less.hyps [OF this pop(1), of "on_fragment ?f w1"] obtain frames buf' w' where
      R: "split_loop on_split on_fragment ?buf (on_fragment ?f w1) = Some (Inr (buf', w'))" "sb_invar buf'"
      "sb_contents ?buf = concat frames @ sb_contents buf'" "[] \<notin> set frames"
      "w' = deliver on_split on_fragment (sb_contents ?buf) frames (on_fragment ?f w1)"
      "cut_by on_split on_fragment (sb_contents ?buf) frames (on_fragment ?f w1)" by blast
    have "split_loop on_split on_fragment buf w = Some (Inr (buf', w'))"
      using R(1) split False n size by (simp add: split_loop.simps [of on_split on_fragment buf])
    moreover have "sb_contents buf = concat (?f # frames) @ sb_contents buf'"
      using R(3) pop(2) append_take_drop_id [of "nat n" "sb_contents buf"] by simp
    moreover have "w' = deliver on_split on_fragment (sb_contents buf) (?f # frames) w"
      using R(5) pop(2) f split by simp
    moreover have "cut_by on_split on_fragment (sb_contents buf) (?f # frames) w"
      using R(6) pop(2) f split False by simp
    ultimately show ?thesis using R f by (intro exI [of _ "?f # frames"] exI [of _ buf'] exI [of _ w']) auto
  qed
qed

text \<open>What a splitter that only looks at the bytes cuts a stream into: frames, and a rest that it leaves.\<close>

fun cut :: "(byte list \<Rightarrow> int) \<Rightarrow> byte list \<Rightarrow> byte list list \<times> byte list" where
  "cut sp bytes =
     (if sp bytes \<le> 0 \<or> sp bytes > int (length bytes) then ([], bytes)
      else case cut sp (drop (nat (sp bytes)) bytes) of (frames, rest) \<Rightarrow> (take (nat (sp bytes)) bytes # frames, rest))"

declare cut.simps [simp del]

lemma cut_concat: "concat (fst (cut sp bytes)) @ snd (cut sp bytes) = bytes"
proof (induction sp bytes rule: cut.induct)
  case (1 sp bytes)
  then show ?case by (subst (1 2) cut.simps) (auto split: prod.splits)
qed

lemma cut_byD:
  assumes pure: "\<And>bytes w. on_split bytes w = (sp bytes, w)"
  shows "cut_by on_split on_fragment (concat frames @ rest) frames w \<Longrightarrow> [] \<notin> set frames \<Longrightarrow>
    cut sp (concat frames @ rest) = (frames, rest)"
proof -
  have on: "on_split = (\<lambda>bytes w. (sp bytes, w))" using pure by blast
  show "cut_by on_split on_fragment (concat frames @ rest) frames w \<Longrightarrow> [] \<notin> set frames \<Longrightarrow>
    cut sp (concat frames @ rest) = (frames, rest)"
    unfolding on
  proof (induction frames arbitrary: w)
    case (Cons f frames)
    have "sp (f @ concat frames @ rest) = int (length f)" "f \<noteq> []" using Cons.prems by auto
    moreover have "cut sp (concat frames @ rest) = (frames, rest)" using Cons.IH [of "on_fragment f w"] Cons.prems by simp
    ultimately show ?case by (simp add: cut.simps [of sp "f @ concat frames @ rest"])
  qed (simp add: cut.simps)
qed

text \<open>What a stream end goes through: messages are posted, and the socket becomes writable.\<close>

datatype send_op = PostMsg "byte list" | Writable

fun send_run :: "'k os \<Rightarrow> send_op list \<Rightarrow> LoopChannel \<times> StreamBuffer \<times> StreamBuffer \<times> ('k, 'cb, 't) Loop \<Rightarrow>
    (LoopChannel \<times> StreamBuffer \<times> StreamBuffer \<times> ('k, 'cb, 't) Loop) option" where
  "send_run os [] st = Some st"
| "send_run os (PostMsg bytes # ops) (ch, sbuf, rbuf, l) =
     (case send_or_queue os (\<not> sb_empty sbuf) bytes ch sbuf l of
        (ch', sbuf', l') \<Rightarrow> send_run os ops (ch', sbuf', rbuf, l'))"
| "send_run os (Writable # ops) (ch, sbuf, rbuf, l) =
     (case send_loop os ch sbuf rbuf l of
        None \<Rightarrow> None
      | Some (gone, ch', sbuf', rbuf', l') \<Rightarrow> send_run os ops (ch', sbuf', rbuf', l'))"

fun messages :: "send_op list \<Rightarrow> byte list list" where
  "messages [] = []"
| "messages (PostMsg bytes # ops) = bytes # messages ops"
| "messages (Writable # ops) = messages ops"

definition send_never_fails :: "'k os \<Rightarrow> fd \<Rightarrow> bool" where
  "send_never_fails os fd \<longleftrightarrow> (\<forall>bytes k err. fst (os_send os fd bytes k) = Inl err \<longrightarrow> err = EAGAIN)"

text \<open>What the kernel took and what waits, after messages \<open>ms\<close> were posted.\<close>

definition stream_of :: "('k \<Rightarrow> fd \<Rightarrow> byte list) \<Rightarrow> fd \<Rightarrow> StreamBuffer \<Rightarrow> ('k, 'cb, 't) Loop \<Rightarrow> byte list" where
  "stream_of sent fd sbuf l = sent (kern l) fd @ sb_contents sbuf"

definition in_order :: "'k os \<Rightarrow> fd \<Rightarrow> byte list \<Rightarrow> byte list list \<Rightarrow> byte list \<Rightarrow> bool" where
  "in_order os fd before ms after \<longleftrightarrow> (\<exists>accepted. subseq accepted ms \<and>
     (send_never_fails os fd \<longrightarrow> accepted = ms) \<and> after = before @ concat accepted)"

lemma in_order_kept: "mid = before @ bytes \<Longrightarrow> in_order os fd mid ms after \<Longrightarrow> in_order os fd before (bytes # ms) after"
  unfolding in_order_def by (metis append.assoc concat.simps(2) subseq_Cons2)

lemma in_order_dropped:
  "\<not> send_never_fails os fd \<Longrightarrow> in_order os fd before ms after \<Longrightarrow> in_order os fd before (bytes # ms) after"
  unfolding in_order_def by blast

lemma send_run_order:
  assumes doc: "stream_documented os inbox sent" and wake: "wake_silent os sent"
  shows "\<not> invalid_channel ch \<Longrightarrow> sb_invar sbuf \<Longrightarrow> watch_ok ch sbuf \<Longrightarrow> \<exists>ch' sbuf' rbuf' l'.
    send_run os ops (ch, sbuf, rbuf, l) = Some (ch', sbuf', rbuf', l') \<and> watch_ok ch' sbuf' \<and>
    in_order os (ch_fd ch) (stream_of sent (ch_fd ch) sbuf l) (messages ops) (stream_of sent (ch_fd ch) sbuf' l')"
proof (induction ops arbitrary: ch sbuf rbuf l)
  case Nil
  have "in_order os fd before [] before" for fd before by (auto simp: in_order_def intro!: exI [of _ "[]"])
  then show ?case using Nil by simp
next
  case (Cons op ops)
  show ?case
  proof (cases op)
    case (PostMsg bytes)
    obtain ch1 sbuf1 l1 where q: "send_or_queue os (\<not> sb_empty sbuf) bytes ch sbuf l = (ch1, sbuf1, l1)"
      by (metis prod.exhaust)
    note E = send_or_queue_effect [OF doc wake Cons.prems refl q]
    have st: "\<not> invalid_channel ch1" "sb_invar sbuf1" "watch_ok ch1 sbuf1" and fd: "ch_fd ch1 = ch_fd ch"
      using E by auto
    from Cons.IH [OF st, of rbuf l1] obtain ch' sbuf' rbuf' l' where
      R: "send_run os ops (ch1, sbuf1, rbuf, l1) = Some (ch', sbuf', rbuf', l')" "watch_ok ch' sbuf'"
      "in_order os (ch_fd ch) (stream_of sent (ch_fd ch) sbuf1 l1) (messages ops) (stream_of sent (ch_fd ch) sbuf' l')"
      unfolding fd by blast
    have "stream_of sent (ch_fd ch) sbuf1 l1 = stream_of sent (ch_fd ch) sbuf l @ bytes \<or>
        stream_of sent (ch_fd ch) sbuf1 l1 = stream_of sent (ch_fd ch) sbuf l \<and> \<not> send_never_fails os (ch_fd ch)"
      using E by (auto simp: stream_of_def send_never_fails_def)
    then have "in_order os (ch_fd ch) (stream_of sent (ch_fd ch) sbuf l) (messages (op # ops)) (stream_of sent (ch_fd ch) sbuf' l')"
      using R(3) PostMsg by (auto intro: in_order_kept in_order_dropped)
    then show ?thesis using R(1,2) q PostMsg by simp
  next
    case Writable
    from send_loop_returns [OF doc wake Cons.prems(1-3), of rbuf l] obtain gone ch1 sbuf1 rbuf1 l1 where
      S: "send_loop os ch sbuf rbuf l = Some (gone, ch1, sbuf1, rbuf1, l1)" "sb_invar sbuf1" "watch_ok ch1 sbuf1"
      "ch_fd ch1 = ch_fd ch" "\<not> invalid_channel ch1"
      "stream_of sent (ch_fd ch) sbuf1 l1 = stream_of sent (ch_fd ch) sbuf l" unfolding stream_of_def by blast
    from Cons.IH [OF S(5,2,3), of rbuf1 l1] S(1) show ?thesis unfolding S(4,6) Writable by simp
  qed
qed

section \<open>Properties\<close>

text \<open>
  Receiving. The read loop of the event callback returns, and unless a read fails for good,
  everything that has arrived up to where it stopped is appended to the receive buffer in order,
  also when a read is larger than the free tail of the buffer. A failed read logs its error and
  empties the buffer.
\<close>

theorem recv_loop_drains_socket:
  assumes "stream_documented os inbox sent" and "\<not> invalid_channel ch" and "sb_invar buf"
  shows "\<exists>gone buf' l' bytes. recv_loop os ch buf l = Some (gone, buf', l') \<and> sb_invar buf' \<and>
    inbox (kern l) (ch_fd ch) = bytes @ inbox (kern l') (ch_fd ch) \<and>
    (elog l' = elog l \<and> sb_contents buf' = sb_contents buf @ bytes \<or>
     (\<exists>err. elog l' = elog l @ [LogSysError err]) \<and> \<not> gone \<and> sb_contents buf' = [])"
proof -
  obtain gone buf' l' bytes where R: "recv_loop os ch buf l = Some (gone, buf', l')" "sb_invar buf'"
    "inbox (kern l) (ch_fd ch) = bytes @ inbox (kern l') (ch_fd ch)"
    and C: "io_step False l l' \<and> sb_contents buf' = sb_contents buf @ bytes \<or>
     io_step True l l' \<and> \<not> gone \<and> sb_contents buf' = []"
    using recv_loop_returns [OF assms, of l] by blast
  from C have "elog l' = elog l \<and> sb_contents buf' = sb_contents buf @ bytes \<or>
     (\<exists>err. elog l' = elog l @ [LogSysError err]) \<and> \<not> gone \<and> sb_contents buf' = []"
    using io_stepD(5) [of True l l'] io_stepD(6) [of False l l'] by blast
  with R show ?thesis by blast
qed

definition demo_stream_loop :: "(kstate, string, string) Loop" where
  "demo_stream_loop = demo_loop\<lparr>kern := k_init\<lparr>k_inbox := (\<lambda>_. [])(5 := [1, 2, 3]), k_room := (\<lambda>_. 2)\<rparr>\<rparr>"

lemma demo_channel_valid: "\<not> invalid_channel demo_channel"
  by (simp add: invalid_channel_def demo_channel_def)

theorem recv_loop_drains_socket_witness:
  "\<exists>gone buf' l' bytes. recv_loop ref_os demo_channel (make_StreamBuffer 2) demo_stream_loop = Some (gone, buf', l') \<and>
     [1, 2, 3] = bytes @ k_inbox (kern l') 5 \<and> sb_invar buf'"
  using recv_loop_drains_socket [OF ref_os_stream demo_channel_valid sb_invar_make, of 2 demo_stream_loop]
  by (auto simp: demo_stream_loop_def demo_channel_def)

text \<open>
  C7. Sending. Over any sequence of posted messages and writable events the sequence returns, and
  what the kernel has taken, followed by what waits in the send buffer, is what was there followed
  by whole messages in the order of posting. A message is left out only when the socket refused
  it with an error other than \<open>EAGAIN\<close>. Whenever bytes wait, the write event is watched.
\<close>

theorem messages_sent_in_order:
  assumes "stream_documented os inbox sent" and "wake_silent os sent"
    and "\<not> invalid_channel ch" and "sb_invar sbuf" and "watch_ok ch sbuf"
  shows "\<exists>ch' sbuf' rbuf' l' accepted.
    send_run os ops (ch, sbuf, rbuf, l) = Some (ch', sbuf', rbuf', l') \<and>
    subseq accepted (messages ops) \<and> (send_never_fails os (ch_fd ch) \<longrightarrow> accepted = messages ops) \<and>
    sent (kern l') (ch_fd ch) @ sb_contents sbuf' = sent (kern l) (ch_fd ch) @ sb_contents sbuf @ concat accepted \<and>
    (sb_contents sbuf' \<noteq> [] \<longrightarrow> has_event (event_types ch') kWrite)"
proof -
  obtain ch' sbuf' rbuf' l' where R: "send_run os ops (ch, sbuf, rbuf, l) = Some (ch', sbuf', rbuf', l')"
    "watch_ok ch' sbuf'"
    and O: "in_order os (ch_fd ch) (stream_of sent (ch_fd ch) sbuf l) (messages ops) (stream_of sent (ch_fd ch) sbuf' l')"
    using send_run_order [OF assms, of ops rbuf l] by blast
  from O obtain accepted where "subseq accepted (messages ops)"
    "send_never_fails os (ch_fd ch) \<longrightarrow> accepted = messages ops"
    "stream_of sent (ch_fd ch) sbuf' l' = stream_of sent (ch_fd ch) sbuf l @ concat accepted"
    unfolding in_order_def by blast
  with R show ?thesis
    by (intro exI [of _ ch'] exI [of _ sbuf'] exI [of _ rbuf'] exI [of _ l'] exI [of _ accepted])
      (simp add: watch_ok_def stream_of_def)
qed

theorem messages_sent_in_order_witness:
  "\<exists>ch' sbuf' rbuf' l'. send_run ref_os [PostMsg [1, 2, 3], PostMsg [4]]
      (demo_channel, make_StreamBuffer 8, make_StreamBuffer 8, demo_stream_loop) = Some (ch', sbuf', rbuf', l') \<and>
    k_sent (kern l') 5 @ sb_contents sbuf' = [1, 2, 3, 4]"
proof -
  have wake: "wake_silent ref_os k_sent" by (auto simp: wake_silent_def ref_os_def)
  have watch: "watch_ok demo_channel (make_StreamBuffer 8)" by (simp add: watch_ok_def)
  have fine: "send_never_fails ref_os 5"
    by (auto simp: send_never_fails_def ref_os_def k_send_def Let_def split: if_splits)
  from messages_sent_in_order [OF ref_os_stream wake demo_channel_valid sb_invar_make watch,
      of "[PostMsg [1, 2, 3], PostMsg [4]]" "make_StreamBuffer 8" demo_stream_loop]
  show ?thesis using fine by (auto simp: demo_stream_loop_def demo_channel_def k_init_def)
qed

text \<open>
  Splitting. If \<open>on_split\<close> never claims more than the buffer holds, the split loop ends; the
  frames it hands over are not empty and, followed by what stays in the buffer, are the bytes that
  were buffered; each frame is as long as \<open>on_split\<close> said on seeing the bytes from it on.
\<close>

theorem split_loop_delivers_frames:
  assumes "\<And>bytes w. fst (on_split bytes w) \<le> int (length bytes)" and "sb_invar buf"
  shows "\<exists>frames buf' w'. split_loop on_split on_fragment buf w = Some (Inr (buf', w')) \<and> sb_invar buf' \<and>
    sb_contents buf = concat frames @ sb_contents buf' \<and> [] \<notin> set frames \<and>
    w' = deliver on_split on_fragment (sb_contents buf) frames w \<and> cut_by on_split on_fragment (sb_contents buf) frames w"
  using split_loop_returns [OF assms] .

theorem split_loop_delivers_frames_witness:
  "\<exists>frames buf' w'. split_loop (\<lambda>bytes w. (min 2 (int (length bytes)), w)) (\<lambda>f w. w @ [f])
      (sb_insert [1, 2, 3] (make_StreamBuffer 8)) [] = Some (Inr (buf', w')) \<and>
    [1, 2, 3] = concat frames @ sb_contents buf'"
proof -
  have "sb_invar (sb_insert [1, 2, 3] (make_StreamBuffer 8))" by (simp add: sb_insert_invar)
  from split_loop_delivers_frames [OF _ this, of "\<lambda>bytes w. (min 2 (int (length bytes)), w)" "\<lambda>f w. w @ [f]" "[]"]
  show ?thesis by (auto simp: sb_insert_contents)
qed

end
