(* ===== verification/Stream_Session.thy ===== *)
theory Stream_Session
  imports Stream_IO Channel_Factory
begin

text \<open>
  \<open>StreamServerSocket::StreamSession\<close> (\<open>include/kzevent/net/inet.hpp\<close>, \<open>src/net/inet.cpp\<close>): one accepted
  connection. The virtual functions of its server are a record of functions; they see the
  session and may act on the loop (post, log), not on the session's buffers.
\<close>

section \<open>State\<close>

record StreamSession =
  recv_buf :: StreamBuffer
  send_buf :: StreamBuffer
  user_context :: "nat option"
  ss_server :: LifeChecker
  session_channel :: LoopChannel
  ss_self :: LifeChecker

text \<open>The closures and callbacks of the sessions, by the session they capture.\<close>

datatype stream_closure =
    SessionSend LifeChecker "byte list"
  | SessionErase LifeChecker
  | FragmentTask LifeChecker "byte list"
  | UserTask nat

datatype stream_callback = SessionEvent LifeChecker | ServerEvent LifeChecker

type_synonym 'k stream_loop = "('k, stream_callback, stream_closure) Loop"

record 'k session_handler =
  on_split :: "StreamSession \<Rightarrow> byte list \<Rightarrow> 'k stream_loop \<Rightarrow> int \<times> 'k stream_loop"
  on_fragment :: "StreamSession \<Rightarrow> byte list \<Rightarrow> 'k stream_loop \<Rightarrow> 'k stream_loop"
  on_session_error :: "errno \<Rightarrow> StreamSession \<Rightarrow> 'k stream_loop \<Rightarrow> 'k stream_loop"
  on_disconnect :: "StreamSession \<Rightarrow> 'k stream_loop \<Rightarrow> 'k stream_loop"

section \<open>Operations\<close>

definition construct_StreamSession :: "'k os \<Rightarrow> errno \<Rightarrow> LifeChecker \<Rightarrow> LifeChecker \<Rightarrow> fd \<Rightarrow> 'k stream_loop \<Rightarrow>
    fault + StreamSession \<times> 'k stream_loop" where
  "construct_StreamSession os err self server fd l =
     (case make_stream_session_channel os err fd l of
        (None, _) \<Rightarrow> Inl (Thrown ''make udp channel failed'')
      | (Some ch, l') \<Rightarrow>
          Inr (\<lparr>recv_buf = make_StreamBuffer UINT16_MAX, send_buf = make_StreamBuffer UINT16_MAX, user_context = None,
                ss_server = server, session_channel = fst (move_LoopChannel ch), ss_self = self\<rparr>, l'))"

definition set_user_context :: "nat option \<Rightarrow> StreamSession \<Rightarrow> StreamSession" where
  "set_user_context ctx ss = ss\<lparr>user_context := ctx\<rparr>"

definition get_user_context :: "StreamSession \<Rightarrow> nat option" where
  "get_user_context ss = user_context ss"

definition session_post_send_task :: "'k os \<Rightarrow> byte list \<Rightarrow> StreamSession \<Rightarrow> 'k stream_loop \<Rightarrow> 'k stream_loop" where
  "session_post_send_task os bytes ss l =
     channel_post_io_task os (ss_self ss) (SessionSend (ss_self ss) bytes) (session_channel ss) l"

definition session_post_heavy_task :: "nat \<Rightarrow> StreamSession \<Rightarrow> 'k stream_loop \<Rightarrow> 'k stream_loop" where
  "session_post_heavy_task task ss l = channel_post_heavy_task (ss_self ss) (UserTask task) (session_channel ss) l"

text \<open>The closure of \<open>post_send_task\<close>.\<close>

definition session_send_closure :: "'k os \<Rightarrow> byte list \<Rightarrow> StreamSession \<Rightarrow> 'k stream_loop \<Rightarrow>
    StreamSession \<times> 'k stream_loop" where
  "session_send_closure os bytes ss l =
     (if ss_server ss \<notin> live l then (ss, l)
      else case send_or_queue os (\<not> sb_empty (send_buf ss)) bytes (session_channel ss) (send_buf ss) l of
        (ch, sbuf, l') \<Rightarrow> (ss\<lparr>session_channel := ch, send_buf := sbuf\<rparr>, l'))"

text \<open>The three kinds of event, on whether the peer is gone, the session and the loop.\<close>

definition session_read :: "'k os \<Rightarrow> EventType \<Rightarrow> StreamSession \<Rightarrow> 'k stream_loop \<Rightarrow>
    (bool \<times> StreamSession \<times> 'k stream_loop) option" where
  "session_read os types ss l =
     (if has_event types kRead
      then case recv_loop os (session_channel ss) (recv_buf ss) l of
             None \<Rightarrow> None | Some (gone, rbuf, l') \<Rightarrow> Some (gone, ss\<lparr>recv_buf := rbuf\<rparr>, l')
      else Some (False, ss, l))"

definition session_write :: "'k os \<Rightarrow> EventType \<Rightarrow> bool \<times> StreamSession \<times> 'k stream_loop \<Rightarrow>
    (bool \<times> StreamSession \<times> 'k stream_loop) option" where
  "session_write os types st =
     (case st of (gone, ss, l) \<Rightarrow>
        if has_event types kWrite
        then case send_loop os (session_channel ss) (send_buf ss) (recv_buf ss) l of
               None \<Rightarrow> None
             | Some (gone', ch, sbuf, rbuf, l') \<Rightarrow>
                 Some (gone \<or> gone', ss\<lparr>session_channel := ch, send_buf := sbuf, recv_buf := rbuf\<rparr>, l')
        else Some (gone, ss, l))"

definition session_error :: "'k os \<Rightarrow> 'k session_handler \<Rightarrow> EventType \<Rightarrow> bool \<times> StreamSession \<times> 'k stream_loop \<Rightarrow>
    bool \<times> StreamSession \<times> 'k stream_loop" where
  "session_error os h types st =
     (case st of (gone, ss, l) \<Rightarrow>
        if has_event types kError
        then let (fd, l1) = get_fd (session_channel ss) l
             in case os_so_error os fd (kern l1) of
                  (None, k) \<Rightarrow> (gone, ss, l1\<lparr>kern := k\<rparr>)
                | (Some err, k) \<Rightarrow>
                    if err = ECONNRESET \<or> err = EPIPE then (True, ss, l1\<lparr>kern := k\<rparr>)
                    else let ss' = ss\<lparr>recv_buf := sb_clear (recv_buf ss), send_buf := sb_clear (send_buf ss)\<rparr>
                         in (gone, ss', on_session_error h err ss' (l1\<lparr>kern := k\<rparr>))
        else (gone, ss, l))"

definition session_disconnect :: "'k session_handler \<Rightarrow> bool \<Rightarrow> StreamSession \<Rightarrow> 'k stream_loop \<Rightarrow>
    StreamSession \<times> 'k stream_loop" where
  "session_disconnect h gone ss l =
     (if gone
      then let ss' = ss\<lparr>recv_buf := sb_clear (recv_buf ss), send_buf := sb_clear (send_buf ss)\<rparr>
           in (ss', on_disconnect h ss' l)
      else (ss, l))"

text \<open>The event callback of \<open>start\<close>.\<close>

definition session_event :: "'k os \<Rightarrow> 'k session_handler \<Rightarrow> EventType \<Rightarrow> StreamSession \<Rightarrow> 'k stream_loop \<Rightarrow>
    (fault + StreamSession \<times> 'k stream_loop) option" where
  "session_event os h types ss l =
     (if ss_server ss \<notin> live l then Some (Inr (ss, l))
      else case session_read os types ss l of
        None \<Rightarrow> None
      | Some st1 \<Rightarrow>
          (case session_write os types st1 of
             None \<Rightarrow> None
           | Some st2 \<Rightarrow>
               (case session_error os h types st2 of (gone, ss3, l3) \<Rightarrow>
                  (case split_loop (on_split h ss3) (on_fragment h ss3) (recv_buf ss3) l3 of
                     None \<Rightarrow> None
                   | Some (Inl f) \<Rightarrow> Some (Inl f)
                   | Some (Inr (rbuf, l4)) \<Rightarrow>
                       Some (Inr (session_disconnect h gone (ss3\<lparr>recv_buf := rbuf\<rparr>) l4))))))"

definition session_start :: "'k os \<Rightarrow> StreamSession \<Rightarrow> 'k stream_loop \<Rightarrow> StreamSession \<times> 'k stream_loop" where
  "session_start os ss l =
     (let types = (if sb_empty (send_buf ss) then event_or kRead kError else event_or (event_or kRead kWrite) kError);
          (ch, l') = update_event_cb os (ss_self ss) types kDefault (SessionEvent (ss_self ss)) (session_channel ss) l
      in (ss\<lparr>session_channel := ch\<rparr>, l'))"

definition session_stop :: "'k os \<Rightarrow> StreamSession \<Rightarrow> 'k stream_loop \<Rightarrow> 'k stream_loop" where
  "session_stop os ss l =
     channel_post_io_task os (ss_self ss) (SessionErase (ss_self ss)) (session_channel ss)
       (disable_event os (session_channel ss) l)"

text \<open>The destructor: \<open>stop\<close> (whose \<open>weak_from_this\<close> has expired), then the channel.\<close>

definition destroy_StreamSession :: "'k os \<Rightarrow> StreamSession \<Rightarrow> 'k stream_loop \<Rightarrow> 'k stream_loop" where
  "destroy_StreamSession os ss l =
     destroy_LoopChannel os (session_channel ss) (session_stop os ss (l\<lparr>live := live l - {ss_self ss}\<rparr>))"

section \<open>Invariant\<close>

definition session_inv :: "StreamSession \<Rightarrow> bool" where
  "session_inv ss \<longleftrightarrow> sb_invar (recv_buf ss) \<and> sb_invar (send_buf ss) \<and> \<not> invalid_channel (session_channel ss) \<and>
     watch_ok (session_channel ss) (send_buf ss)"

lemma session_read_returns:
  assumes doc: "stream_documented os inbox sent" and inv: "session_inv ss"
  shows "\<exists>gone rbuf l'. session_read os types ss l = Some (gone, ss\<lparr>recv_buf := rbuf\<rparr>, l') \<and> sb_invar rbuf"
proof (cases "has_event types kRead")
  case True
  have "\<not> invalid_channel (session_channel ss)" "sb_invar (recv_buf ss)" using inv by (auto simp: session_inv_def)
  from recv_loop_returns [OF doc this, of l] True show ?thesis by (auto simp: session_read_def)
next
  case False
  then show ?thesis using inv
    by (auto simp: session_read_def session_inv_def intro!: exI [of _ False] exI [of _ "recv_buf ss"] exI [of _ l])
qed

lemma session_write_returns:
  assumes doc: "stream_documented os inbox sent" and wake: "wake_silent os sent" and inv: "session_inv ss"
  shows "\<exists>gone' ss' l'. session_write os types (gone, ss, l) = Some (gone', ss', l') \<and> session_inv ss' \<and> ss_self ss' = ss_self ss"
proof (cases "has_event types kWrite")
  case True
  have st: "\<not> invalid_channel (session_channel ss)" "sb_invar (send_buf ss)" "watch_ok (session_channel ss) (send_buf ss)"
    and r: "sb_invar (recv_buf ss)" using inv by (auto simp: session_inv_def)
  from send_loop_returns [OF doc wake st, of "recv_buf ss" l] obtain gone1 ch' sbuf' rbuf' l' where
    "send_loop os (session_channel ss) (send_buf ss) (recv_buf ss) l = Some (gone1, ch', sbuf', rbuf', l')"
    "sb_invar sbuf'" "watch_ok ch' sbuf'" "\<not> invalid_channel ch'" "rbuf' \<in> {recv_buf ss, sb_clear (recv_buf ss)}" by blast
  then show ?thesis using True r sb_clear_correct [OF r] by (auto simp: session_write_def session_inv_def)
qed (use inv in \<open>simp add: session_write_def\<close>)

lemma session_inv_cleared:
  "session_inv ss \<Longrightarrow> session_inv (ss\<lparr>recv_buf := sb_clear (recv_buf ss), send_buf := sb_clear (send_buf ss)\<rparr>)"
  by (simp add: session_inv_def sb_clear_correct watch_ok_def)

lemma session_error_keeps:
  assumes "session_inv ss" and "session_error os h types (gone, ss, l) = (gone', ss', l')"
  shows "session_inv ss' \<and> ss_self ss' = ss_self ss"
proof -
  obtain fd l1 where fd: "get_fd (session_channel ss) l = (fd, l1)" by fastforce
  obtain e k where e: "os_so_error os fd (kern l1) = (e, k)" by fastforce
  show ?thesis
    using assms fd e session_inv_cleared [OF assms(1)]
    by (auto simp: session_error_def Let_def split: if_splits option.splits)
qed

lemma session_event_returns:
  assumes "stream_documented os inbox sent" and "wake_silent os sent" and "session_inv ss"
    and "\<And>s bytes w. ss_self s = ss_self ss \<Longrightarrow> fst (on_split h s bytes w) \<le> int (length bytes)"
  shows "\<exists>ss' l'. session_event os h types ss l = Some (Inr (ss', l')) \<and> session_inv ss' \<and> ss_self ss' = ss_self ss"
proof (cases "ss_server ss \<in> live l")
  case False
  then show ?thesis using assms(3) by (simp add: session_event_def)
next
  case True
  from session_read_returns [OF assms(1,3), of types l] obtain gone1 rbuf l1 where
    R: "session_read os types ss l = Some (gone1, ss\<lparr>recv_buf := rbuf\<rparr>, l1)" "sb_invar rbuf" by blast
  then have inv1: "session_inv (ss\<lparr>recv_buf := rbuf\<rparr>)" using assms(3) by (simp add: session_inv_def)
  from session_write_returns [OF assms(1,2) inv1, of types gone1 l1] obtain gone2 ss2 l2 where
    W: "session_write os types (gone1, ss\<lparr>recv_buf := rbuf\<rparr>, l1) = Some (gone2, ss2, l2)" "session_inv ss2"
    "ss_self ss2 = ss_self ss" by auto
  obtain gone3 ss3 l3 where E: "session_error os h types (gone2, ss2, l2) = (gone3, ss3, l3)" by (metis prod.exhaust)
  note inv3 = session_error_keeps [OF W(2) E]
  then have buf3: "sb_invar (recv_buf ss3)" by (simp add: session_inv_def)
  have same: "ss_self ss3 = ss_self ss" using inv3 W(3) by simp
  from split_loop_returns [where on_split = "on_split h ss3" and on_fragment = "on_fragment h ss3", OF assms(4) [OF same] buf3, of l3]
  obtain buf' l4 where S: "split_loop (on_split h ss3) (on_fragment h ss3) (recv_buf ss3) l3 = Some (Inr (buf', l4))"
    "sb_invar buf'" by blast
  have inv4: "session_inv (ss3\<lparr>recv_buf := buf'\<rparr>)" using inv3 S(2) by (simp add: session_inv_def)
  show ?thesis
    using True R(1) W E S(1) inv3 inv4 session_inv_cleared [OF inv4]
    by (simp add: session_event_def session_disconnect_def Let_def)
qed

section \<open>Properties\<close>

text \<open>
  C10. The event callback of a session returns, whatever events arrive: with a kernel that behaves as
  documented and an \<open>on_split\<close> that claims no more than is buffered, none of its three loops runs
  forever or reads past the buffer. It keeps the session's invariant: both buffers well formed, the
  channel valid, and the write event watched whenever bytes wait to be sent.
\<close>

theorem session_callback_returns:
  assumes "stream_documented os inbox sent" and "wake_silent os sent" and "session_inv ss"
    and "\<And>s bytes w. ss_self s = ss_self ss \<Longrightarrow> fst (on_split h s bytes w) \<le> int (length bytes)"
  shows "\<exists>ss' l'. session_event os h types ss l = Some (Inr (ss', l')) \<and> session_inv ss' \<and> ss_self ss' = ss_self ss"
  by (rule session_event_returns [OF assms])

text \<open>A session on descriptor 5 with a handler that takes frames of two bytes and logs nothing.\<close>

definition demo_session :: StreamSession where
  "demo_session = \<lparr>recv_buf = make_StreamBuffer 8, send_buf = make_StreamBuffer 8, user_context = None,
     ss_server = 7, session_channel = demo_channel, ss_self = 8\<rparr>"

definition demo_handler :: "kstate session_handler" where
  "demo_handler = \<lparr>on_split = (\<lambda>s bytes l. (if length bytes < 2 then 0 else 2, l)),
     on_fragment = (\<lambda>s f l. post_heavy_task (WrapperTask (ss_self s) (UserTask (length f))) l),
     on_session_error = (\<lambda>err ss l. session_stop ref_os ss l), on_disconnect = (\<lambda>ss l. session_stop ref_os ss l)\<rparr>"

definition demo_session_loop :: "kstate stream_loop" where
  "demo_session_loop = make_Loop 3 4 (k_init\<lparr>k_inbox := (\<lambda>_. [])(5 := [1, 2, 3])\<rparr>) {7, 8}"

lemma demo_session_ok: "session_inv demo_session"
  "\<And>s bytes w. ss_self s = ss_self demo_session \<Longrightarrow> fst (on_split demo_handler s bytes w) \<le> int (length bytes)"
  using demo_channel_valid by (auto simp: session_inv_def demo_session_def watch_ok_def demo_handler_def)

lemma ref_os_wake: "wake_silent ref_os k_sent"
  by (auto simp: wake_silent_def ref_os_def)

theorem session_callback_returns_witness:
  "\<exists>ss' l'. session_event ref_os demo_handler (event_or kRead kWrite) demo_session demo_session_loop = Some (Inr (ss', l')) \<and>
     session_inv ss'"
  using session_callback_returns [OF ref_os_stream ref_os_wake demo_session_ok, of "event_or kRead kWrite" demo_session_loop]
  by blast

lemma read_event_delivers:
  assumes "stream_documented os inbox sent" and "session_inv ss" and "ss_server ss \<in> live l"
    and "\<And>s bytes w. ss_self s = ss_self ss \<Longrightarrow> fst (on_split h s bytes w) \<le> int (length bytes)"
    and "has_event types kRead" and "\<not> has_event types kWrite" and "\<not> has_event types kError"
  shows "\<exists>bytes e k s frames rest ss' l'. session_event os h types ss l = Some (Inr (ss', l')) \<and>
    reads os (ch_fd (session_channel ss)) (kern l) bytes e k \<and>
    inbox (kern l) (ch_fd (session_channel ss)) = bytes @ inbox k (ch_fd (session_channel ss)) \<and>
    s = ss\<lparr>recv_buf := recv_buf s\<rparr> \<and>
    sb_contents (recv_buf s) = kept_bytes e (sb_contents (recv_buf ss) @ bytes) \<and>
    sb_contents (recv_buf s) = concat frames @ rest \<and> [] \<notin> set frames \<and>
    (let l1 = after_reads e (l\<lparr>kern := k\<rparr>);
         l2 = deliver (on_split h s) (on_fragment h s) (concat frames @ rest) frames l1
     in cut_by (on_split h s) (on_fragment h s) (concat frames @ rest) frames l1 \<and>
        (if e = PeerGone then l' = on_disconnect h ss' l2 \<and> sb_contents (recv_buf ss') = [] \<and> sb_contents (send_buf ss') = []
         else l' = l2 \<and> sb_contents (recv_buf ss') = rest \<and> send_buf ss' = send_buf ss))"
proof -
  let ?ch = "session_channel ss"
  have st: "\<not> invalid_channel ?ch" "sb_invar (recv_buf ss)" "sb_invar (send_buf ss)" using assms(2) by (auto simp: session_inv_def)
  from recv_loop_reads [OF assms(1) st(1,2), of l] obtain bytes e k rbuf where
    R: "reads os (ch_fd ?ch) (kern l) bytes e k"
    "recv_loop os ?ch (recv_buf ss) l = Some (e = PeerGone, rbuf, after_reads e (l\<lparr>kern := k\<rparr>))" "sb_invar rbuf"
    "sb_contents rbuf = kept_bytes e (sb_contents (recv_buf ss) @ bytes)"
    "inbox (kern l) (ch_fd ?ch) = bytes @ inbox k (ch_fd ?ch)" by blast
  let ?l1 = "after_reads e (l\<lparr>kern := k\<rparr>)"
  define s where "s = ss\<lparr>recv_buf := rbuf\<rparr>"
  have s: "recv_buf s = rbuf" "ss_self s = ss_self ss" "s = ss\<lparr>recv_buf := recv_buf s\<rparr>" by (simp_all add: s_def)
  from split_loop_returns [where on_split = "on_split h s" and on_fragment = "on_fragment h s", OF assms(4) [OF s(2)] R(3), of ?l1]
  obtain frames buf' l2 where S: "split_loop (on_split h s) (on_fragment h s) rbuf ?l1 = Some (Inr (buf', l2))"
    "sb_invar buf'" "sb_contents rbuf = concat frames @ sb_contents buf'" "[] \<notin> set frames"
    "l2 = deliver (on_split h s) (on_fragment h s) (sb_contents rbuf) frames ?l1"
    "cut_by (on_split h s) (on_fragment h s) (sb_contents rbuf) frames ?l1" by blast
  define ss' where "ss' = fst (session_disconnect h (e = PeerGone) (s\<lparr>recv_buf := buf'\<rparr>) l2)"
  let ?l' = "if e = PeerGone then on_disconnect h ss' l2 else l2"
  have ev: "session_event os h types ss l = Some (Inr (ss', ?l'))"
    using assms(3,5-7) R(2) S(1)
    by (simp add: session_event_def session_read_def session_write_def session_error_def session_disconnect_def ss'_def s_def Let_def)
  have "e = PeerGone \<Longrightarrow> sb_contents (recv_buf ss') = [] \<and> sb_contents (send_buf ss') = []"
    using sb_clear_correct [OF S(2)] sb_clear_correct [OF st(3)] by (simp add: ss'_def s_def session_disconnect_def Let_def)
  moreover have "e \<noteq> PeerGone \<Longrightarrow> sb_contents (recv_buf ss') = sb_contents buf' \<and> send_buf ss' = send_buf ss"
    by (simp add: ss'_def s_def session_disconnect_def)
  ultimately show ?thesis
    using ev R(1,4,5) S(3-6) s(1,3)
    by (intro exI [of _ bytes] exI [of _ e] exI [of _ k] exI [of _ s] exI [of _ frames]
        exI [of _ "sb_contents buf'"] exI [of _ ss'] exI [of _ ?l']) (simp add: Let_def)
qed

text \<open>
  C4. Delivery. On a read event of a session whose server is alive, the callback reads until a call
  finds nothing left, the peer gone, or another error. The bytes that had been buffered
  followed by those read are the frames given to \<open>on_fragment\<close>, in order, each as
  long as \<open>on_split\<close> said, followed by what stays buffered; only after an error, which is logged, are they
  all dropped. If and only if the peer is gone, after its last frames both buffers are
  emptied and \<open>on_disconnect\<close> runs once.
\<close>

theorem session_delivers_stream:
  assumes "stream_documented os inbox sent" and "session_inv ss" and "ss_server ss \<in> live l"
    and "\<And>s bytes w. ss_self s = ss_self ss \<Longrightarrow> fst (on_split h s bytes w) \<le> int (length bytes)"
    and "has_event types kRead" and "\<not> has_event types kWrite" and "\<not> has_event types kError"
  shows "\<exists>bytes e k s frames rest ss' l'. session_event os h types ss l = Some (Inr (ss', l')) \<and>
    reads os (ch_fd (session_channel ss)) (kern l) bytes e k \<and>
    inbox (kern l) (ch_fd (session_channel ss)) = bytes @ inbox k (ch_fd (session_channel ss)) \<and>
    s = ss\<lparr>recv_buf := recv_buf s\<rparr> \<and>
    sb_contents (recv_buf s) = kept_bytes e (sb_contents (recv_buf ss) @ bytes) \<and>
    sb_contents (recv_buf s) = concat frames @ rest \<and> [] \<notin> set frames \<and>
    (let l1 = after_reads e (l\<lparr>kern := k\<rparr>);
         l2 = deliver (on_split h s) (on_fragment h s) (concat frames @ rest) frames l1
     in cut_by (on_split h s) (on_fragment h s) (concat frames @ rest) frames l1 \<and>
        (if e = PeerGone then l' = on_disconnect h ss' l2 \<and> sb_contents (recv_buf ss') = [] \<and> sb_contents (send_buf ss') = []
         else l' = l2 \<and> sb_contents (recv_buf ss') = rest \<and> send_buf ss' = send_buf ss))"
  by (rule read_event_delivers [OF assms])

lemma read_only: "has_event kRead kRead" "\<not> has_event kRead kWrite" "\<not> has_event kRead kError"
  by (simp_all add: has_event_def event_and_def kRead_def kWrite_def kError_def)

theorem session_delivers_stream_witness:
  "\<exists>bytes e k. reads ref_os 5 (kern demo_session_loop) bytes e k \<and> bytes @ k_inbox k 5 = [1, 2, 3] \<and>
     (\<exists>ss' l'. session_event ref_os demo_handler kRead demo_session demo_session_loop = Some (Inr (ss', l')))"
proof -
  have live: "ss_server demo_session \<in> live demo_session_loop"
    and st: "ch_fd (session_channel demo_session) = 5" "k_inbox (kern demo_session_loop) 5 = [1, 2, 3]"
    by (simp_all add: demo_session_def demo_session_loop_def make_Loop_def demo_channel_def)
  from session_delivers_stream [OF ref_os_stream demo_session_ok(1) live demo_session_ok(2) read_only]
  show ?thesis unfolding st by metis
qed

text \<open>
  A failed write throws away what was received: when a send fails for good, the write loop
  empties the receive buffer and keeps the bytes it could not send.
\<close>

theorem write_error_clears_received:
  assumes "stream_send os (session_channel ss) (send_buf ss) l = (kIoError, sbuf, l1)" and "has_event types kWrite"
  shows "session_write os types (gone, ss, l) =
    Some (gone, ss\<lparr>send_buf := sbuf, recv_buf := sb_clear (recv_buf ss)\<rparr>, l1) \<and> sbuf = send_buf ss"
proof -
  have "send_loop os (session_channel ss) (send_buf ss) (recv_buf ss) l =
      Some (False, session_channel ss, sbuf, sb_clear (recv_buf ss), l1)"
    using assms(1) by (simp add: send_loop.simps [of os "session_channel ss"])
  moreover have "sbuf = send_buf ss"
    using assms(1) by (auto simp: stream_send_def Let_def split: prod.splits sum.splits if_splits)
  ultimately show ?thesis using assms(2) by (simp add: session_write_def)
qed

definition failing_os :: "kstate os" where
  "failing_os = ref_os\<lparr>os_send := (\<lambda>fd bytes k. (Inl (EOTHER 105), k))\<rparr>"

theorem write_error_clears_received_witness:
  "\<exists>l1. session_write failing_os kWrite (False, demo_session, demo_session_loop) =
     Some (False, demo_session\<lparr>recv_buf := sb_clear (make_StreamBuffer 8)\<rparr>, l1)"
proof -
  obtain l1 where s: "stream_send failing_os (session_channel demo_session) (send_buf demo_session) demo_session_loop =
      (kIoError, send_buf demo_session, l1)"
    using demo_channel_valid by (simp add: stream_send_def failing_os_def demo_session_def get_fd_def)
  have "has_event kWrite kWrite" by (simp add: has_event_def event_and_def)
  from write_error_clears_received [OF s this, of False] show ?thesis by (auto simp: demo_session_def)
qed

end
