(* ===== verification/Stream_Server.thy ===== *)
theory Stream_Server
  imports Stream_Session
begin

text \<open>
  \<open>StreamServerSocket\<close> (\<open>include/kzevent/net/inet.hpp\<close>, \<open>src/net/inet.cpp\<close>): the listening socket, its
  accept loop and the table of sessions. The sessions are objects of a store, reached by name
  from the table (a \<open>shared_ptr\<close>), from closures (a \<open>weak_ptr\<close>) and from user code (\<open>held\<close>); an
  object whose last strong reference goes is destroyed there and then.
\<close>

section \<open>State\<close>

record StreamServerSocket =
  listen_channel :: LoopChannel
  server_started :: bool
  sessions :: "(u32 \<times> LifeChecker) list"
  srv_self :: LifeChecker

record 'k server_world =
  server :: StreamServerSocket
  objs :: "LifeChecker \<Rightarrow> StreamSession option"
  held :: "LifeChecker set"
  next_obj :: LifeChecker
  wloop :: "'k stream_loop"

text \<open>The key of a session: the descriptor of its channel, converted to \<open>uint32_t\<close>.\<close>

definition session_key :: "fd \<Rightarrow> u32" where
  "session_key fd = word_of_int fd"

text \<open>\<open>std::unordered_map::insert\<close>, which keeps an entry that is there, and \<open>erase\<close>.\<close>

definition sessions_insert :: "u32 \<Rightarrow> LifeChecker \<Rightarrow> (u32 \<times> LifeChecker) list \<Rightarrow> (u32 \<times> LifeChecker) list" where
  "sessions_insert key s tab = (if map_of tab key = None then tab @ [(key, s)] else tab)"

definition sessions_erase :: "u32 \<Rightarrow> (u32 \<times> LifeChecker) list \<Rightarrow> (u32 \<times> LifeChecker) list" where
  "sessions_erase key tab = filter (\<lambda>e. fst e \<noteq> key) tab"

section \<open>Operations\<close>

definition construct_StreamServerSocket :: "'k os \<Rightarrow> LifeChecker \<Rightarrow> InetAddr \<Rightarrow> 'k stream_loop \<Rightarrow>
    fault + StreamServerSocket \<times> 'k stream_loop" where
  "construct_StreamServerSocket os self local l =
     (case make_stream_server_channel os local l of
        (None, _) \<Rightarrow> Inl (Thrown ''make stream channel failed'')
      | (Some ch, l') \<Rightarrow>
          Inr (\<lparr>listen_channel = fst (move_LoopChannel ch), server_started = False, sessions = [], srv_self = self\<rparr>, l'))"

text \<open>The last strong reference of an object may just have gone: not in the table and not held.\<close>

definition release_session :: "'k os \<Rightarrow> LifeChecker \<Rightarrow> 'k server_world \<Rightarrow> 'k server_world" where
  "release_session os s w =
     (case objs w s of
        None \<Rightarrow> w
      | Some ss \<Rightarrow>
          if s \<in> held w \<or> s \<in> snd ` set (sessions (server w)) then w
          else w\<lparr>objs := (objs w)(s := None), wloop := destroy_StreamSession os ss (wloop w)\<rparr>)"

text \<open>
  A descriptor that \<open>accept4\<close> returned: the session is made, entered in the table and started; its
  local \<open>shared_ptr\<close> goes out of scope at the end.
\<close>

definition accept_session :: "'k os \<Rightarrow> fd \<Rightarrow> 'k server_world \<Rightarrow> fault + 'k server_world" where
  "accept_session os fd w =
     (let s = next_obj w
      in and_then (construct_StreamSession os (EOTHER 0) s (srv_self (server w)) fd (wloop w)) (\<lambda>(ss, l1).
        let l2 = l1\<lparr>live := insert s (live l1)\<rparr>;
            (sfd, l3) = get_fd (session_channel ss) l2;
            tab = sessions_insert (session_key sfd) s (sessions (server w));
            (ss', l4) = session_start os ss l3
        in Inr (release_session os s
             (w\<lparr>server := (server w)\<lparr>sessions := tab\<rparr>, objs := (objs w)(s \<mapsto> ss'), next_obj := Suc s, wloop := l4\<rparr>))))"

partial_function (option) accept_loop :: "'k os \<Rightarrow> 'k server_world \<Rightarrow> (fault + 'k server_world) option" where
  "accept_loop os w =
     (case get_fd (listen_channel (server w)) (wloop w) of (lfd, l) \<Rightarrow>
       (case os_accept4 os lfd (kern l) of
          (Inl err, k) \<Rightarrow>
            if err = EAGAIN then Some (Inr (w\<lparr>wloop := l\<lparr>kern := k\<rparr>\<rparr>))
            else if err \<noteq> EAGAIN \<and> err \<noteq> ECONNABORTED
            then Some (Inr (w\<lparr>wloop := write_log (LogSysError err) (l\<lparr>kern := k\<rparr>)\<rparr>))
            else accept_loop os (w\<lparr>wloop := l\<lparr>kern := k\<rparr>\<rparr>)
        | (Inr fd, k) \<Rightarrow>
            (case accept_session os fd (w\<lparr>wloop := l\<lparr>kern := k\<rparr>\<rparr>) of
               Inl f \<Rightarrow> Some (Inl f)
             | Inr w' \<Rightarrow> accept_loop os w')))"

definition server_stop :: "'k os \<Rightarrow> 'k server_world \<Rightarrow> 'k server_world" where
  "server_stop os w =
     w\<lparr>server := (server w)\<lparr>server_started := False\<rparr>, wloop := disable_event os (listen_channel (server w)) (wloop w)\<rparr>"

text \<open>The event callback; \<open>stale\<close> is what \<open>errno\<close> holds when the error of the socket is logged.\<close>

definition server_error :: "'k os \<Rightarrow> errno \<Rightarrow> EventType \<Rightarrow> 'k server_world \<Rightarrow> 'k server_world" where
  "server_error os stale types w =
     (if has_event types kError
      then let (lfd, l) = get_fd (listen_channel (server w)) (wloop w)
           in case os_so_error os lfd (kern l) of
                (None, k) \<Rightarrow> w\<lparr>wloop := l\<lparr>kern := k\<rparr>\<rparr>
              | (Some err, k) \<Rightarrow>
                  server_stop os (w\<lparr>wloop := write_log (LogFatal ''listen socket fatal error'' stale) (l\<lparr>kern := k\<rparr>)\<rparr>)
      else w)"

definition server_event :: "'k os \<Rightarrow> errno \<Rightarrow> EventType \<Rightarrow> 'k server_world \<Rightarrow> (fault + 'k server_world) option" where
  "server_event os stale types w =
     (case (if has_event types kRead then accept_loop os w else Some (Inr w)) of
        None \<Rightarrow> None
      | Some (Inl f) \<Rightarrow> Some (Inl f)
      | Some (Inr w1) \<Rightarrow> Some (Inr (server_error os stale types w1)))"

definition server_start :: "'k os \<Rightarrow> 'k server_world \<Rightarrow> 'k server_world" where
  "server_start os w =
     (if server_started (server w) then w
      else let srv = (server w)\<lparr>server_started := True\<rparr>;
               (ch, l) = update_event_cb os (srv_self srv) (event_or kRead kError) kDefault (ServerEvent (srv_self srv))
                 (listen_channel srv) (wloop w)
           in w\<lparr>server := srv\<lparr>listen_channel := ch\<rparr>, wloop := l\<rparr>)"

text \<open>
  The destructor: the server can no longer be locked, its event is given up, then the members go
  in reverse order, first the table with the references it holds, then the listening channel.
\<close>

fun drop_sessions :: "'k os \<Rightarrow> 'k server_world \<Rightarrow> LifeChecker list \<Rightarrow> 'k server_world" where
  "drop_sessions os w [] = w"
| "drop_sessions os w (s # rest) = drop_sessions os (release_session os s w) rest"

definition destroy_StreamServerSocket :: "'k os \<Rightarrow> 'k server_world \<Rightarrow> 'k server_world" where
  "destroy_StreamServerSocket os w =
     (let l0 = (wloop w)\<lparr>live := live (wloop w) - {srv_self (server w)}\<rparr>;
          w1 = w\<lparr>server := (server w)\<lparr>server_started := False, sessions := []\<rparr>,
                 wloop := disable_event os (listen_channel (server w)) l0\<rparr>;
          w2 = drop_sessions os w1 (map snd (sessions (server w)))
      in w2\<lparr>wloop := destroy_LoopChannel os (listen_channel (server w2)) (wloop w2)\<rparr>)"

text \<open>The closures of the sessions, run with their session locked, which is unlocked at the end.\<close>

definition erase_closure :: "'k os \<Rightarrow> LifeChecker \<Rightarrow> StreamSession \<Rightarrow> 'k server_world \<Rightarrow> 'k server_world" where
  "erase_closure os s ss w =
     (if ss_server ss \<notin> live (wloop w) then w
      else let (fd, l) = get_fd (session_channel ss) (wloop w)
           in w\<lparr>server := (server w)\<lparr>sessions := sessions_erase (session_key fd) (sessions (server w))\<rparr>, wloop := l\<rparr>)"

fun world_closure :: "'k os \<Rightarrow> stream_closure \<Rightarrow> 'k server_world \<Rightarrow> 'k server_world" where
  "world_closure os (SessionSend s bytes) w =
     (case objs w s of
        None \<Rightarrow> w
      | Some ss \<Rightarrow>
          (case session_send_closure os bytes ss (wloop w) of (ss', l) \<Rightarrow>
             release_session os s (w\<lparr>objs := (objs w)(s \<mapsto> ss'), wloop := l\<rparr>)))"
| "world_closure os (SessionErase s) w =
     (case objs w s of None \<Rightarrow> w | Some ss \<Rightarrow> release_session os s (erase_closure os s ss w))"
| "world_closure os (FragmentTask s f) w = w"
| "world_closure os (UserTask n) w = w"

text \<open>
  One turn of the io thread on what was posted: \<open>run_posted\<close> with the closures of the sessions, which
  see the whole world.
\<close>

definition no_client :: "('k, stream_callback, stream_closure) client" where
  "no_client = \<lparr>run_closure = (\<lambda>_. Inr), run_callback = (\<lambda>_ _. Inr)\<rparr>"

definition world_task :: "'k os \<Rightarrow> (stream_callback, stream_closure) LoopTask \<Rightarrow> 'k server_world \<Rightarrow>
    fault + 'k server_world" where
  "world_task os task w =
     (case task of
        WrapperTask life t \<Rightarrow> Inr (if life \<in> live (wloop w) then world_closure os t w else w)
      | _ \<Rightarrow> and_then (run_task os no_client task (wloop w)) (\<lambda>l. Inr (w\<lparr>wloop := l\<rparr>)))"

fun world_tasks :: "'k os \<Rightarrow> (stream_callback, stream_closure) LoopTask list \<Rightarrow> 'k server_world \<Rightarrow>
    fault + 'k server_world" where
  "world_tasks os [] w = Inr w"
| "world_tasks os (task # tasks) w = and_then (world_task os task w) (world_tasks os tasks)"

definition world_posted :: "'k os \<Rightarrow> 'k server_world \<Rightarrow> fault + 'k server_world" where
  "world_posted os w =
     (let l = wloop w
      in case drain_counter os (io_wake_fd l) (kern l) of
           None \<Rightarrow> Inl Diverged
         | Some (err, k) \<Rightarrow>
             if err \<noteq> EAGAIN then Inl (SysFatal err)
             else let l1 = l\<lparr>kern := k, io_exe_queue := io_buffer_queue l, io_buffer_queue := io_exe_queue l\<rparr>
                  in and_then (world_tasks os (io_exe_queue l1) (w\<lparr>wloop := l1\<rparr>))
                       (\<lambda>w2. Inr (w2\<lparr>wloop := (wloop w2)\<lparr>io_exe_queue := []\<rparr>\<rparr>)))"

text \<open>An event of a session's descriptor, dispatched to its callback.\<close>

definition world_session_event :: "'k os \<Rightarrow> 'k session_handler \<Rightarrow> EventType \<Rightarrow> LifeChecker \<Rightarrow> StreamSession \<Rightarrow>
    'k server_world \<Rightarrow> (fault + 'k server_world) option" where
  "world_session_event os h types s ss w =
     (case session_event os h types ss (wloop w) of
        None \<Rightarrow> None
      | Some (Inl f) \<Rightarrow> Some (Inl f)
      | Some (Inr (ss', l)) \<Rightarrow> Some (Inr (release_session os s (w\<lparr>objs := (objs w)(s \<mapsto> ss'), wloop := l\<rparr>))))"

section \<open>Steps\<close>

text \<open>
  What can happen to a server: the io thread runs what was posted or a callback; user code starts
  or stops the server, takes and drops references to sessions, and uses the sessions it holds.
\<close>

inductive server_step :: "'k os \<Rightarrow> 'k session_handler \<Rightarrow> 'k server_world \<Rightarrow> 'k server_world \<Rightarrow> bool"
  for os h where
  posted: "world_posted os w = Inr w' \<Longrightarrow> server_step os h w w'"
| listening: "server_event os stale types w = Some (Inr w') \<Longrightarrow> server_step os h w w'"
| talking: "objs w s = Some ss \<Longrightarrow> world_session_event os h types s ss w = Some (Inr w') \<Longrightarrow> server_step os h w w'"
| starting: "server_step os h w (server_start os w)"
| stopping: "server_step os h w (server_stop os w)"
| holding: "objs w s \<noteq> None \<Longrightarrow> server_step os h w (w\<lparr>held := insert s (held w)\<rparr>)"
| dropping: "server_step os h w (release_session os s (w\<lparr>held := held w - {s}\<rparr>))"
| user_stop: "s \<in> held w \<Longrightarrow> objs w s = Some ss \<Longrightarrow>
    server_step os h w (w\<lparr>wloop := session_stop os ss (wloop w)\<rparr>)"
| user_start: "s \<in> held w \<Longrightarrow> objs w s = Some ss \<Longrightarrow> session_start os ss (wloop w) = (ss', l) \<Longrightarrow>
    server_step os h w (w\<lparr>objs := (objs w)(s \<mapsto> ss'), wloop := l\<rparr>)"
| user_send: "s \<in> held w \<Longrightarrow> objs w s = Some ss \<Longrightarrow>
    server_step os h w (w\<lparr>wloop := session_post_send_task os bytes ss (wloop w)\<rparr>)"

inductive server_run :: "'k os \<Rightarrow> 'k session_handler \<Rightarrow> 'k server_world \<Rightarrow> 'k server_world \<Rightarrow> bool"
  for os h w0 where
  begin_run: "server_run os h w0 w0"
| then_step: "server_run os h w0 w \<Longrightarrow> server_step os h w w' \<Longrightarrow> server_run os h w0 w'"

section \<open>Lemmas\<close>

text \<open>The descriptors a sequence of closures unregisters.\<close>

definition unregs :: "('cb, 't) LoopTask list \<Rightarrow> fd list" where
  "unregs ts = concat (map (\<lambda>t. case t of UnregisterTask fd \<Rightarrow> [fd] | _ \<Rightarrow> []) ts)"

lemma unregs_simps [simp]:
  "unregs [] = []" "unregs (ts @ us) = unregs ts @ unregs us"
  "unregs (RegisterTask fd # ts) = unregs ts" "unregs (UnregisterTask fd # ts) = fd # unregs ts"
  "unregs (EnableCbTask fd types modes cb # ts) = unregs ts" "unregs (EnableTask fd types modes # ts) = unregs ts"
  "unregs (DisableTask fd # ts) = unregs ts" "unregs (WrapperTask life t # ts) = unregs ts"
  by (simp_all add: unregs_def)

text \<open>A piece of code that opens, closes and destroys nothing: it may post anything but a removal.\<close>

definition calm :: "('k \<Rightarrow> fd set) \<Rightarrow> ('k, 'cb, 't) Loop \<Rightarrow> ('k, 'cb, 't) Loop \<Rightarrow> bool" where
  "calm opened l l' \<longleftrightarrow> live l' = live l \<and> opened (kern l) \<subseteq> opened (kern l') \<and> io_exe_queue l' = io_exe_queue l \<and>
     unregs (io_buffer_queue l') = unregs (io_buffer_queue l)"

lemma calm_refl [simp]: "calm opened l l"
  by (simp add: calm_def)

lemma calm_trans: "calm opened l l1 \<Longrightarrow> calm opened l1 l2 \<Longrightarrow> calm opened l l2"
  by (auto simp: calm_def)

lemma calm_log: "calm opened l (write_log e l)" "calm opened l (invalid_access l)"
  by (simp_all add: calm_def invalid_access_def write_log_def)

lemma calm_kern: "opened k = opened (kern l) \<Longrightarrow> calm opened l (l\<lparr>kern := k\<rparr>)"
  "opened k = opened (kern l) \<Longrightarrow> calm opened l (write_log e (l\<lparr>kern := k\<rparr>))"
  by (simp_all add: calm_def write_log_def)

lemma keeps_openD:
  assumes "keeps_open os opened"
  shows "os_counter_write os fd v k = (r1, k') \<Longrightarrow> opened k' = opened k"
    "os_counter_read os fd k = (r2, k') \<Longrightarrow> opened k' = opened k"
    "os_epoll_ctl os op fd ev k = (r3, k') \<Longrightarrow> opened k' = opened k"
    "os_send os fd bytes k = (r4, k') \<Longrightarrow> opened k' = opened k"
    "os_readv os fd cap k = (r5, k') \<Longrightarrow> opened k' = opened k"
    "os_so_error os fd k = (r6, k') \<Longrightarrow> opened k' = opened k"
  using assms unfolding keeps_open_def by (metis snd_conv)+

lemma calm_wake: "keeps_open os opened \<Longrightarrow> calm opened l (wake_io_up os l)"
  using keeps_openD(1) [of os opened "io_wake_fd l" 1 "kern l"]
  by (auto simp: wake_io_up_def split: prod.splits sum.splits intro: calm_kern)

lemma wake_io_up_queue [simp]:
  "live (wake_io_up os l) = live l" "io_exe_queue (wake_io_up os l) = io_exe_queue l"
  "io_buffer_queue (wake_io_up os l) = io_buffer_queue l"
  by (simp_all add: wake_io_up_def split: prod.splits sum.splits)

lemma calm_post: "keeps_open os opened \<Longrightarrow> unregs [t] = [] \<Longrightarrow> calm opened l (post_io_task os t l)"
  using calm_wake [of os opened "l\<lparr>io_buffer_queue := io_buffer_queue l @ [t]\<rparr>"]
  by (auto simp: calm_def post_io_task_def)

lemma calm_channel:
  assumes "keeps_open os opened"
  shows "update_event_cb os life types modes cb ch l = (ch', l') \<Longrightarrow> calm opened l l'"
    "update_event os types modes ch l = (ch', l') \<Longrightarrow> calm opened l l'"
    "calm opened l (disable_event os ch l)"
    "calm opened l (channel_post_io_task os life t ch l)"
  by (auto simp: channel_defs posting_defs split: if_splits intro!: calm_post [OF assms] calm_log(2))

lemma calm_get_fd: "get_fd ch l = (fd, l') \<Longrightarrow> calm opened l l'"
  by (auto simp: get_fd_def calm_log split: if_splits)


lemma stream_calls_calm:
  assumes "keeps_open os opened"
  shows "stream_recv os ch buf l = (status, buf', l') \<Longrightarrow> calm opened l l'"
    "stream_send os ch buf l = (status, buf', l') \<Longrightarrow> calm opened l l'"
    "stream_send_data os ch bytes l = (ret, l') \<Longrightarrow> calm opened l l'"
proof -
  obtain fd l0 where fd: "get_fd ch l = (fd, l0)" by fastforce
  note step = calm_trans [OF calm_get_fd [OF fd]] calm_kern
  show "stream_recv os ch buf l = (status, buf', l') \<Longrightarrow> calm opened l l'"
    using fd by (auto simp: stream_recv_def Let_def split: prod.splits sum.splits if_splits
        intro!: step keeps_openD(5) [OF assms])
  show "stream_send os ch buf l = (status, buf', l') \<Longrightarrow> calm opened l l'"
    using fd by (auto simp: stream_send_def Let_def split: prod.splits sum.splits if_splits
        intro!: step keeps_openD(4) [OF assms])
  show "stream_send_data os ch bytes l = (ret, l') \<Longrightarrow> calm opened l l'"
    using fd by (auto simp: stream_send_data_def Let_def split: prod.splits sum.splits if_splits
        intro!: step keeps_openD(4) [OF assms])
qed

lemma recv_loop_calm:
  "recv_loop os ch buf l = Some y \<Longrightarrow> keeps_open os opened \<longrightarrow> calm opened l (snd (snd y))"
proof (erule recv_loop.raw_induct [where P = "\<lambda>os ch buf l y. keeps_open os opened \<longrightarrow> calm opened l (snd (snd y))", rotated], goal_cases)
  case (1 loop os ch buf l y)
  obtain status buf1 l1 where r: "stream_recv os ch buf l = (status, buf1, l1)" by (metis prod.exhaust)
  show ?case
    using 1(2) r stream_calls_calm(1) [OF _ r, of opened] 1(1) [of os ch buf1 l1 y] calm_trans [of opened l l1]
    by (cases status) auto
qed

lemma update_event_fd:
  "update_event os types modes ch l = (ch', l') \<Longrightarrow> ch_fd ch' = ch_fd ch"
  "update_event_cb os life types modes cb ch l = (ch', l') \<Longrightarrow> ch_fd ch' = ch_fd ch"
  by (auto simp: update_event_def update_event_cb_def split: if_splits)

lemma send_loop_calm:
  "send_loop os ch sbuf rbuf l = Some y \<Longrightarrow>
    keeps_open os opened \<longrightarrow> calm opened l (snd (snd (snd (snd y)))) \<and> ch_fd (fst (snd y)) = ch_fd ch"
proof (erule send_loop.raw_induct [where P = "\<lambda>os ch sbuf rbuf l y. keeps_open os opened \<longrightarrow>
    calm opened l (snd (snd (snd (snd y)))) \<and> ch_fd (fst (snd y)) = ch_fd ch", rotated], goal_cases)
  case (1 loop os ch sbuf rbuf l y)
  obtain status sbuf1 l1 where r: "stream_send os ch sbuf l = (status, sbuf1, l1)" by (metis prod.exhaust)
  obtain ch2 l2 where u: "update_event os (event_and (event_types ch) (event_not kWrite)) (event_modes ch) ch l1 = (ch2, l2)"
    by fastforce
  show ?case
    using 1(2) r u stream_calls_calm(2) [OF _ r, of opened] 1(1) [of os ch sbuf1 rbuf l1 y] calm_trans [of opened l l1]
      calm_channel(2) [OF _ u, of opened] update_event_fd(1) [OF u]
    by (cases status) (auto simp: get_event_info_def Let_def split: if_splits)
qed

lemma send_or_queue_calm:
  assumes ko: "keeps_open os opened" and q: "send_or_queue os waiting bytes ch sbuf l = (ch', sbuf', l')"
  shows "calm opened l l' \<and> ch_fd ch' = ch_fd ch"
proof (cases waiting)
  case False
  obtain ret status l1 where s: "stream_send_data os ch bytes l = ((ret, status), l1)" by (metis prod.exhaust)
  note c1 = stream_calls_calm(3) [OF ko s]
  have "queue_and_watch os bs ch sbuf l1 = (ch', sbuf', l') \<Longrightarrow> calm opened l1 l' \<and> ch_fd ch' = ch_fd ch" for bs
    using calm_channel(2) [OF ko] update_event_fd(1) by (auto simp: queue_and_watch_def get_event_info_def Let_def split: prod.splits)
  then show ?thesis using q False s c1 calm_trans [OF c1]
    by (cases status) (auto simp: send_or_queue_def split: if_splits)
qed (use q in \<open>simp add: send_or_queue_def\<close>)

text \<open>User code that is called on the io thread may post and log, not open, close or destroy.\<close>

definition handler_calm :: "('k \<Rightarrow> fd set) \<Rightarrow> 'k session_handler \<Rightarrow> bool" where
  "handler_calm opened h \<longleftrightarrow> (\<forall>s bytes err ss l. calm opened l (snd (on_split h s bytes l)) \<and>
     calm opened l (on_fragment h s bytes l) \<and> calm opened l (on_session_error h err ss l) \<and>
     calm opened l (on_disconnect h ss l))"

lemma split_loop_calm:
  assumes "\<And>bytes w. calm opened w (snd (sp bytes w))" and "\<And>bytes w. calm opened w (fr bytes w)"
  shows "split_loop sp fr buf w = Some y \<Longrightarrow> (\<forall>buf' w'. y = Inr (buf', w') \<longrightarrow> calm opened w w')"
proof -
  let ?P = "\<lambda>sp fr buf w y. (\<forall>bytes w. calm opened w (snd (sp bytes w))) \<longrightarrow> (\<forall>bytes w. calm opened w (fr bytes w)) \<longrightarrow>
    (\<forall>buf' w'. y = Inr (buf', w') \<longrightarrow> calm opened w w')"
  have "split_loop sp fr buf w = Some y \<Longrightarrow> ?P sp fr buf w y"
  proof (erule split_loop.raw_induct [where P = ?P, rotated], goal_cases)
    case (1 loop sp fr buf w y)
    obtain n w1 where s: "sp (sb_contents buf) w = (n, w1)" by fastforce
    let ?w2 = "fr (take (nat n) (sb_contents buf)) w1"
    show ?case
    proof (intro impI allI)
      fix buf' w'
      assume c: "\<forall>bytes w. calm opened w (snd (sp bytes w))" "\<forall>bytes w. calm opened w (fr bytes w)" and y: "y = Inr (buf', w')"
      have "calm opened w w1" using c(1) s by (metis snd_conv)
      moreover from this have "calm opened w ?w2" using c(2) calm_trans by blast
      ultimately show "calm opened w w'"
        using 1(2) s c y 1(1) [of sp fr "sb_pop n buf" ?w2 y] calm_trans [of opened w ?w2 w'] by (auto split: if_splits)
    qed
  qed
  then show "split_loop sp fr buf w = Some y \<Longrightarrow> (\<forall>buf' w'. y = Inr (buf', w') \<longrightarrow> calm opened w w')"
    using assms by blast
qed

text \<open>What no code changes in a session: its name, its server and its descriptor.\<close>

definition same_session :: "StreamSession \<Rightarrow> StreamSession \<Rightarrow> bool" where
  "same_session ss ss' \<longleftrightarrow> ss_self ss' = ss_self ss \<and> ss_server ss' = ss_server ss \<and>
     ch_fd (session_channel ss') = ch_fd (session_channel ss)"

lemma session_parts_calm:
  assumes ko: "keeps_open os opened" and hc: "handler_calm opened h"
  shows "session_read os types ss l = Some (gone, ss1, l1) \<Longrightarrow> calm opened l l1 \<and> same_session ss ss1"
    "session_write os types (gone, ss, l) = Some (gone', ss1, l1) \<Longrightarrow> calm opened l l1 \<and> same_session ss ss1"
    "session_error os h types (gone, ss, l) = (gone', ss1, l1) \<Longrightarrow> calm opened l l1 \<and> same_session ss ss1"
    "session_disconnect h gone ss l = (ss1, l1) \<Longrightarrow> calm opened l l1 \<and> same_session ss ss1"
proof -
  show "session_read os types ss l = Some (gone, ss1, l1) \<Longrightarrow> calm opened l l1 \<and> same_session ss ss1"
    using recv_loop_calm [of os "session_channel ss" "recv_buf ss" l _ opened] ko
    by (auto simp: session_read_def same_session_def split: if_splits option.splits)
  show "session_write os types (gone, ss, l) = Some (gone', ss1, l1) \<Longrightarrow> calm opened l l1 \<and> same_session ss ss1"
    using send_loop_calm [of os "session_channel ss" "send_buf ss" "recv_buf ss" l _ opened] ko
    by (auto simp: session_write_def same_session_def split: if_splits option.splits)
  obtain fd l0 where fd: "get_fd (session_channel ss) l = (fd, l0)" by fastforce
  obtain e k where e: "os_so_error os fd (kern l0) = (e, k)" by fastforce
  have c: "calm opened l (l0\<lparr>kern := k\<rparr>)"
    using calm_trans [OF calm_get_fd [OF fd] calm_kern(1)] keeps_openD(6) [OF ko e] by simp
  have "calm opened l (on_session_error h err ss2 (l0\<lparr>kern := k\<rparr>))" for err ss2
    using hc by (auto intro: calm_trans [OF c] simp: handler_calm_def)
  then show "session_error os h types (gone, ss, l) = (gone', ss1, l1) \<Longrightarrow> calm opened l l1 \<and> same_session ss ss1"
    using fd e c by (auto simp: session_error_def same_session_def Let_def split: if_splits option.splits)
  show "session_disconnect h gone ss l = (ss1, l1) \<Longrightarrow> calm opened l l1 \<and> same_session ss ss1"
    using hc by (auto simp: session_disconnect_def handler_calm_def same_session_def Let_def split: if_splits)
qed

lemma same_session_trans: "same_session a b \<Longrightarrow> same_session b c \<Longrightarrow> same_session a c"
  by (simp add: same_session_def)

lemma session_event_calm:
  assumes ko: "keeps_open os opened" and hc: "handler_calm opened h"
    and ev: "session_event os h types ss l = Some (Inr (ss', l'))"
  shows "calm opened l l' \<and> same_session ss ss'"
proof (cases "ss_server ss \<in> live l")
  case False
  then show ?thesis using ev by (simp add: session_event_def same_session_def)
next
  case True
  from ev True obtain g1 ss1 l1 g2 ss2 l2 g3 ss3 l3 rbuf l4 where
    R: "session_read os types ss l = Some (g1, ss1, l1)" and W: "session_write os types (g1, ss1, l1) = Some (g2, ss2, l2)"
    and E: "session_error os h types (g2, ss2, l2) = (g3, ss3, l3)"
    and S: "split_loop (on_split h ss3) (on_fragment h ss3) (recv_buf ss3) l3 = Some (Inr (rbuf, l4))"
    and D: "session_disconnect h g3 (ss3\<lparr>recv_buf := rbuf\<rparr>) l4 = (ss', l')"
    by (auto simp: session_event_def split: option.splits prod.splits sum.splits)
  note parts = session_parts_calm [OF ko hc]
  have "calm opened l3 l4"
    using split_loop_calm [of opened, OF _ _ S] hc by (auto simp: handler_calm_def)
  with parts(1) [OF R] parts(2) [OF W] parts(3) [OF E] have "calm opened l l4" using calm_trans by blast
  moreover have "same_session ss (ss3\<lparr>recv_buf := rbuf\<rparr>)"
    using parts(1) [OF R] parts(2) [OF W] parts(3) [OF E] by (simp add: same_session_def)
  ultimately show ?thesis using parts(4) [OF D] calm_trans same_session_trans by blast
qed

section \<open>Invariant\<close>

definition listen_fd :: "'k server_world \<Rightarrow> fd" where
  "listen_fd w = ch_fd (listen_channel (server w))"

definition session_fd :: "StreamSession \<Rightarrow> fd" where
  "session_fd ss = ch_fd (session_channel ss)"

text \<open>Session objects are alive, well formed, and each owns an open descriptor of its own.\<close>

definition store_ok :: "('k \<Rightarrow> fd set) \<Rightarrow> 'k server_world \<Rightarrow> bool" where
  "store_ok opened w \<longleftrightarrow>
     (\<forall>s ss. objs w s = Some ss \<longrightarrow> ss_self ss = s \<and> s < next_obj w \<and> s \<in> live (wloop w) \<and> session_inv ss \<and>
        0 \<le> session_fd ss \<and> session_fd ss < 2 ^ 31 \<and> session_fd ss \<in> opened (kern (wloop w)) \<and> session_fd ss \<noteq> listen_fd w) \<and>
     (\<forall>s s' ss ss'. objs w s = Some ss \<longrightarrow> objs w s' = Some ss' \<longrightarrow> session_fd ss = session_fd ss' \<longrightarrow> s = s')"

text \<open>The table has one entry per descriptor, for the session that owns it.\<close>

definition table_ok :: "'k server_world \<Rightarrow> bool" where
  "table_ok w \<longleftrightarrow> distinct (map fst (sessions (server w))) \<and>
     (\<forall>(key, s) \<in> set (sessions (server w)). \<exists>ss. objs w s = Some ss \<and> key = session_key (session_fd ss))"

text \<open>The removals that wait (\<open>ts\<close>: the rest of the batch that runs) are of open descriptors that no session owns.\<close>

definition removals_ok :: "('k \<Rightarrow> fd set) \<Rightarrow> (stream_callback, stream_closure) LoopTask list \<Rightarrow> 'k server_world \<Rightarrow> bool" where
  "removals_ok opened ts w \<longleftrightarrow> distinct (unregs (ts @ io_buffer_queue (wloop w))) \<and>
     set (unregs (ts @ io_buffer_queue (wloop w))) \<subseteq> opened (kern (wloop w)) - {listen_fd w} \<and>
     (\<forall>s ss. objs w s = Some ss \<longrightarrow> session_fd ss \<notin> set (unregs (ts @ io_buffer_queue (wloop w))))"

definition world_inv :: "('k \<Rightarrow> fd set) \<Rightarrow> (stream_callback, stream_closure) LoopTask list \<Rightarrow> 'k server_world \<Rightarrow> bool" where
  "world_inv opened ts w \<longleftrightarrow> store_ok opened w \<and> table_ok w \<and> removals_ok opened ts w \<and>
     held w \<subseteq> dom (objs w) \<and> \<not> invalid_channel (listen_channel (server w)) \<and> listen_fd w \<in> opened (kern (wloop w))"

text \<open>Every object has a strong reference, but for those of \<open>S\<close>.\<close>

definition no_orphans :: "LifeChecker set \<Rightarrow> 'k server_world \<Rightarrow> bool" where
  "no_orphans S w \<longleftrightarrow> dom (objs w) \<subseteq> held w \<union> snd ` set (sessions (server w)) \<union> S"

lemmas world_inv_defs = world_inv_def store_ok_def table_ok_def removals_ok_def

lemma inv_calm:
  assumes "world_inv opened ts w" and "calm opened (wloop w) l"
  shows "world_inv opened ts (w\<lparr>wloop := l\<rparr>)" "no_orphans S w \<Longrightarrow> no_orphans S (w\<lparr>wloop := l\<rparr>)"
  using assms by (fastforce simp: world_inv_defs calm_def listen_fd_def, simp add: no_orphans_def)

lemma inv_session:
  assumes "world_inv opened ts w" and "objs w s = Some ss" and "same_session ss ss'" and "session_inv ss'"
  shows "world_inv opened ts (w\<lparr>objs := (objs w)(s \<mapsto> ss')\<rparr>)"
    "no_orphans S w \<Longrightarrow> no_orphans S (w\<lparr>objs := (objs w)(s \<mapsto> ss')\<rparr>)"
proof -
  have fd: "session_fd ss' = session_fd ss" using assms(3) by (simp add: same_session_def session_fd_def)
  have "store_ok opened (w\<lparr>objs := (objs w)(s \<mapsto> ss')\<rparr>)"
    using assms fd unfolding world_inv_def store_ok_def listen_fd_def same_session_def by simp metis
  moreover have "table_ok (w\<lparr>objs := (objs w)(s \<mapsto> ss')\<rparr>)"
    using assms(1,2) fd unfolding world_inv_def table_ok_def by fastforce
  moreover have "removals_ok opened ts (w\<lparr>objs := (objs w)(s \<mapsto> ss')\<rparr>)"
    using assms(1,2) fd unfolding world_inv_def removals_ok_def listen_fd_def by simp
  ultimately show "world_inv opened ts (w\<lparr>objs := (objs w)(s \<mapsto> ss')\<rparr>)"
    using assms(1) by (auto simp: world_inv_def listen_fd_def)
  show "no_orphans S w \<Longrightarrow> no_orphans S (w\<lparr>objs := (objs w)(s \<mapsto> ss')\<rparr>)"
    using assms(2) by (auto simp: no_orphans_def)
qed

text \<open>Destroying a session gives up its name and posts the removal of its descriptor.\<close>

lemma destroy_session_effect:
  assumes "keeps_open os opened" and "session_inv ss"
  shows "live (destroy_StreamSession os ss l) = live l - {ss_self ss}"
    "opened (kern (destroy_StreamSession os ss l)) \<supseteq> opened (kern l)"
    "io_exe_queue (destroy_StreamSession os ss l) = io_exe_queue l"
    "unregs (io_buffer_queue (destroy_StreamSession os ss l)) = unregs (io_buffer_queue l) @ [session_fd ss]"
proof -
  let ?l1 = "l\<lparr>live := live l - {ss_self ss}\<rparr>"
  let ?l2 = "session_stop os ss ?l1"
  have valid: "\<not> invalid_channel (session_channel ss)" using assms(2) by (simp add: session_inv_def)
  have c: "calm opened ?l1 ?l2"
    unfolding session_stop_def by (rule calm_trans [OF calm_channel(3) calm_channel(4)]) (rule assms(1))+
  have d: "destroy_StreamSession os ss l = post_io_task os (UnregisterTask (session_fd ss)) ?l2"
    using valid by (simp add: destroy_StreamSession_def destroy_LoopChannel_def invalid_channel_def unregister_fd_def session_fd_def)
  have "calm opened (?l2\<lparr>io_buffer_queue := io_buffer_queue ?l2 @ [UnregisterTask (session_fd ss)]\<rparr>) (destroy_StreamSession os ss l)"
    unfolding d post_io_task_def by (rule calm_wake [OF assms(1)])
  with c show "live (destroy_StreamSession os ss l) = live l - {ss_self ss}"
    "opened (kern (destroy_StreamSession os ss l)) \<supseteq> opened (kern l)"
    "io_exe_queue (destroy_StreamSession os ss l) = io_exe_queue l"
    "unregs (io_buffer_queue (destroy_StreamSession os ss l)) = unregs (io_buffer_queue l) @ [session_fd ss]"
    by (auto simp: calm_def)
qed

lemma inv_release:
  assumes ko: "keeps_open os opened" and inv: "world_inv opened ts w"
  shows "world_inv opened ts (release_session os s w)"
    "no_orphans (insert s S) w \<Longrightarrow> no_orphans S (release_session os s w)"
    "io_exe_queue (wloop (release_session os s w)) = io_exe_queue (wloop w)"
proof -
  show "io_exe_queue (wloop (release_session os s w)) = io_exe_queue (wloop w)"
    using inv destroy_session_effect(3) [OF ko]
    by (auto simp: release_session_def world_inv_def store_ok_def split: option.splits)
  have "world_inv opened ts (release_session os s w) \<and>
    (no_orphans (insert s S) w \<longrightarrow> no_orphans S (release_session os s w))"
  proof (cases "objs w s = None \<or> s \<in> held w \<or> s \<in> snd ` set (sessions (server w))")
    case True
    then show ?thesis using inv by (auto simp: release_session_def no_orphans_def split: option.splits)
  next
    case False
    then obtain ss where ss: "objs w s = Some ss" by auto
    let ?w = "w\<lparr>objs := (objs w)(s := None), wloop := destroy_StreamSession os ss (wloop w)\<rparr>"
    have w: "release_session os s w = ?w" using False ss by (auto simp: release_session_def)
    have si: "session_inv ss" "ss_self ss = s" using inv ss by (auto simp: world_inv_def store_ok_def)
    note D = destroy_session_effect [OF ko si(1), of "wloop w", unfolded si(2)]
    have st: "store_ok opened ?w"
      using inv D(1,2) unfolding world_inv_def store_ok_def listen_fd_def by auto
    moreover have "table_ok ?w" using inv False unfolding world_inv_def table_ok_def by force
    moreover have "removals_ok opened ts ?w"
    proof -
      have "session_fd ss \<in> opened (kern (wloop w))" "session_fd ss \<noteq> listen_fd w"
        "\<And>s' ss'. s' \<noteq> s \<Longrightarrow> objs w s' = Some ss' \<Longrightarrow> session_fd ss' \<noteq> session_fd ss"
        using inv ss unfolding world_inv_def store_ok_def by blast+
      then show ?thesis using inv ss D(2,4) unfolding world_inv_def removals_ok_def listen_fd_def by auto
    qed
    ultimately have "world_inv opened ts ?w"
      using inv D(2) False unfolding world_inv_def listen_fd_def by auto
    then show ?thesis using w by (auto simp: no_orphans_def)
  qed
  then show "world_inv opened ts (release_session os s w)"
    "no_orphans (insert s S) w \<Longrightarrow> no_orphans S (release_session os s w)" by blast+
qed

text \<open>A descriptor that was not open before: its session goes into the table, started.\<close>

definition fresh_fd :: "('k \<Rightarrow> fd set) \<Rightarrow> (stream_callback, stream_closure) LoopTask list \<Rightarrow> fd \<Rightarrow> 'k server_world \<Rightarrow> bool" where
  "fresh_fd opened ts fd w \<longleftrightarrow> 0 \<le> fd \<and> fd < 2 ^ 31 \<and> fd \<in> opened (kern (wloop w)) \<and> fd \<noteq> listen_fd w \<and>
     fd \<notin> set (unregs (ts @ io_buffer_queue (wloop w))) \<and> (\<forall>s ss. objs w s = Some ss \<longrightarrow> session_fd ss \<noteq> fd)"

lemma session_key_inj:
  assumes "0 \<le> a" "a < 2 ^ 31" "0 \<le> b" "b < 2 ^ 31" and "session_key a = session_key b"
  shows "a = b"
proof -
  have "uint (session_key a) = a" "uint (session_key b) = b"
    using assms(1-4) by (simp_all add: session_key_def uint_word_of_int)
  then show ?thesis using assms(5) by metis
qed

text \<open>What a post does to the kernel: the wake-up.\<close>

lemma post_io_kern:
  "kern (post_io_task os t l) = snd (os_counter_write os (io_wake_fd l) 1 (kern l))"
  "io_wake_fd (post_io_task os t l) = io_wake_fd l"
  by (auto simp: post_io_task_def wake_io_up_def write_log_def split: prod.splits sum.splits)

lemma wake_silentD: "wake_silent os f \<Longrightarrow> f (snd (os_counter_write os fd v k)) = f k"
  unfolding wake_silent_def by (metis prod.collapse)

lemma construct_session_effect:
  assumes ko: "keeps_open os opened" and fd: "0 \<le> fd"
  obtains ss l1 where "construct_StreamSession os err s srv fd l = Inr (ss, l1)" "session_inv ss" "ss_self ss = s"
    "ss_server ss = srv" "session_fd ss = fd" "sb_contents (send_buf ss) = []" "calm opened l l1"
    "l1 = register_fd os fd l"
proof -
  let ?ch = "\<lparr>in_loop = True, ch_fd = fd, event_types = kDefault, event_modes = kDefault\<rparr>"
  have "make_stream_session_channel os err fd l = (Some ?ch, register_fd os fd l)"
    using fd by (auto simp: make_stream_session_channel_def construct_LoopChannel_def move_LoopChannel_def destroy_LoopChannel_def)
  moreover have "calm opened l (register_fd os fd l)" by (simp add: register_fd_def calm_post [OF ko])
  ultimately show ?thesis using fd
    by (intro that) (auto simp: construct_StreamSession_def move_LoopChannel_def session_inv_def invalid_channel_def
        session_fd_def watch_ok_def)
qed

lemma session_start_effect:
  assumes ko: "keeps_open os opened" and inv: "session_inv ss" and st: "session_start os ss l = (ss', l')"
  shows "session_inv ss'" "same_session ss ss'" "calm opened l l'"
    "has_event (event_types (session_channel ss')) kRead"
    "kern l' = snd (os_counter_write os (io_wake_fd l) 1 (kern l))"
    "sb_contents (send_buf ss) = [] \<Longrightarrow> l' = enable_fd_cb os (session_fd ss) (event_or kRead kError) kDefault
       (ss_self ss, SessionEvent (ss_self ss)) l"
proof -
  have valid: "\<not> invalid_channel (session_channel ss)" using inv by (simp add: session_inv_def)
  let ?types = "if sb_empty (send_buf ss) then event_or kRead kError else event_or (event_or kRead kWrite) kError"
  obtain ch where u: "update_event_cb os (ss_self ss) ?types kDefault (SessionEvent (ss_self ss)) (session_channel ss) l = (ch, l')"
    and ss': "ss' = ss\<lparr>session_channel := ch\<rparr>"
    using st by (auto simp: session_start_def Let_def split: prod.splits)
  have ch: "ch = (session_channel ss)\<lparr>event_types := ?types, event_modes := kDefault\<rparr>"
    using u valid by (auto simp: update_event_cb_def)
  have w: "\<not> sb_empty (send_buf ss) \<Longrightarrow> has_event ?types kWrite" and r: "has_event ?types kRead"
    by (simp_all add: has_event_def event_and_def event_or_def kWrite_def kRead_def kError_def)
  have "sb_contents (send_buf ss) \<noteq> [] \<Longrightarrow> \<not> sb_empty (send_buf ss)"
    using inv sb_empty_iff by (auto simp: session_inv_def)
  then show "session_inv ss'" using inv w by (auto simp: session_inv_def ss' ch watch_ok_def invalid_channel_def)
  show "same_session ss ss'" by (simp add: same_session_def ss' ch)
  show "calm opened l l'" using calm_channel(1) [OF ko u] .
  show "has_event (event_types (session_channel ss')) kRead" using r by (simp add: ss' ch)
  show "kern l' = snd (os_counter_write os (io_wake_fd l) 1 (kern l))"
    using u valid by (auto simp: update_event_cb_def enable_fd_cb_def post_io_kern)
  show "sb_contents (send_buf ss) = [] \<Longrightarrow> l' = enable_fd_cb os (session_fd ss) (event_or kRead kError) kDefault
       (ss_self ss, SessionEvent (ss_self ss)) l"
    using u valid inv sb_empty_iff [of "send_buf ss"] by (simp add: session_inv_def update_event_cb_def session_fd_def)
qed

text \<open>What is posted for an accepted connection: its descriptor is registered, and watched for reads and errors.\<close>

definition serve_tasks :: "fd \<Rightarrow> LifeChecker \<Rightarrow> (stream_callback, stream_closure) LoopTask list" where
  "serve_tasks fd s = [RegisterTask fd, EnableCbTask fd (event_or kRead kError) kDefault (s, SessionEvent s)]"

lemma map_upd_unique:
  assumes "\<And>s x s2 x2. m s = Some x \<Longrightarrow> m s2 = Some x2 \<Longrightarrow> f x = f x2 \<Longrightarrow> s = s2" and "\<And>s x. m s = Some x \<Longrightarrow> f x \<noteq> f y"
    and "(m(k \<mapsto> y)) s = Some x" and "(m(k \<mapsto> y)) s2 = Some x2" and "f x = f x2"
  shows "s = s2"
  using assms by (metis fun_upd_apply option.inject)

lemma accept_session_effect:
  assumes ko: "keeps_open os opened" and inv: "world_inv opened ts w" and fr: "fresh_fd opened ts fd w"
    and orph: "no_orphans {} w"
  obtains ss w' where "accept_session os fd w = Inr w'" "world_inv opened ts w'" "no_orphans {} w'"
    "sessions (server w') = sessions (server w) @ [(session_key fd, next_obj w)]"
    "objs w' = (objs w)(next_obj w \<mapsto> ss)" "session_fd ss = fd" "has_event (event_types (session_channel ss)) kRead"
    "held w' = held w" "calm opened ((wloop w)\<lparr>live := insert (next_obj w) (live (wloop w))\<rparr>) (wloop w')"
    "listen_channel (server w') = listen_channel (server w)" "next_obj w' = Suc (next_obj w)"
    "\<exists>wfd. kern (wloop w') = snd (os_counter_write os wfd 1 (snd (os_counter_write os wfd 1 (kern (wloop w)))))"
    "io_buffer_queue (wloop w') = io_buffer_queue (wloop w) @ serve_tasks fd (next_obj w)"
    "\<exists>more. elog (wloop w') = elog (wloop w) @ more"
proof -
  let ?s = "next_obj w"
  have nn: "0 \<le> fd" "fd < 2 ^ 31" using fr by (simp_all add: fresh_fd_def)
  obtain ss l1 where C: "construct_StreamSession os (EOTHER 0) ?s (srv_self (server w)) fd (wloop w) = Inr (ss, l1)"
    "session_inv ss" "ss_self ss = ?s" "session_fd ss = fd" "calm opened (wloop w) l1" "l1 = register_fd os fd (wloop w)"
    "sb_contents (send_buf ss) = []"
    using construct_session_effect [OF ko nn(1)] by blast
  let ?l2 = "l1\<lparr>live := insert ?s (live l1)\<rparr>"
  obtain ss' l4 where S: "session_start os ss ?l2 = (ss', l4)" by fastforce
  note S' = session_start_effect [OF ko C(2) S]
  have valid: "\<not> invalid_channel (session_channel ss)" using C(2) by (simp add: session_inv_def)
  have key: "map_of (sessions (server w)) (session_key fd) = None"
  proof (rule ccontr)
    assume "map_of (sessions (server w)) (session_key fd) \<noteq> None"
    then obtain s where "(session_key fd, s) \<in> set (sessions (server w))" by (auto dest: map_of_SomeD)
    then obtain ss2 where "objs w s = Some ss2" "session_key fd = session_key (session_fd ss2)"
      using inv unfolding world_inv_def table_ok_def by blast
    then show False using inv fr session_key_inj [OF nn, of "session_fd ss2"]
      unfolding world_inv_def store_ok_def fresh_fd_def by metis
  qed
  let ?tab = "sessions (server w) @ [(session_key fd, ?s)]"
  let ?w = "w\<lparr>server := (server w)\<lparr>sessions := ?tab\<rparr>, objs := (objs w)(?s \<mapsto> ss'), next_obj := Suc ?s, wloop := l4\<rparr>"
  have "get_fd (session_channel ss) ?l2 = (fd, ?l2)" using C(4) valid by (simp add: get_fd_valid session_fd_def)
  then have acc: "accept_session os fd w = Inr ?w"
    using key C(1) S by (simp add: accept_session_def Let_def sessions_insert_def release_session_def)
  have fd': "session_fd ss' = fd" "ss_self ss' = ?s" using S'(2) C(3,4) by (simp_all add: same_session_def session_fd_def)
  have calm': "calm opened ((wloop w)\<lparr>live := insert ?s (live (wloop w))\<rparr>) l4"
    using C(5) S'(3) by (auto simp: calm_def)
  have other: "objs w s = Some x \<Longrightarrow> session_fd x \<noteq> fd" for s x
    using fr by (simp add: fresh_fd_def)
  have old: "objs w s = Some x \<Longrightarrow> ss_self x = s \<and> s < ?s \<and> s \<in> live (wloop w) \<and> session_inv x \<and> 0 \<le> session_fd x \<and>
      session_fd x < 2 ^ 31 \<and> session_fd x \<in> opened (kern (wloop w)) \<and> session_fd x \<noteq> listen_fd w"
    and uniq: "objs w s = Some x \<Longrightarrow> objs w s2 = Some x2 \<Longrightarrow> session_fd x = session_fd x2 \<Longrightarrow> s = s2" for s x s2 x2
    using inv unfolding world_inv_def store_ok_def by blast+
  have fresh: "objs w ?s = None" using old [of ?s] by (cases "objs w ?s") auto
  have live: "live l4 = insert ?s (live (wloop w))" "opened (kern (wloop w)) \<subseteq> opened (kern l4)"
    using calm' by (simp_all add: calm_def)
  have "objs ?w s = Some x \<Longrightarrow> ss_self x = s \<and> s < next_obj ?w \<and> s \<in> live (wloop ?w) \<and> session_inv x \<and> 0 \<le> session_fd x \<and>
      session_fd x < 2 ^ 31 \<and> session_fd x \<in> opened (kern (wloop ?w)) \<and> session_fd x \<noteq> listen_fd ?w" for s x
    using old [of s x] live fd' S'(1) fr
    by (cases "s = ?s") (auto simp: fresh_fd_def listen_fd_def less_Suc_eq)
  moreover have "objs ?w s = Some x \<Longrightarrow> objs ?w s2 = Some x2 \<Longrightarrow> session_fd x = session_fd x2 \<Longrightarrow> s = s2" for s x s2 x2
    using map_upd_unique [of "objs w" session_fd ss' ?s s x s2 x2] uniq other fd'(1) by simp
  ultimately have "store_ok opened ?w" unfolding store_ok_def by blast
  moreover have "table_ok ?w"
    using inv fd'(1) fresh key unfolding map_of_eq_None_iff world_inv_def table_ok_def by fastforce
  moreover have "removals_ok opened ts ?w"
    using inv fr fd'(1) calm' unfolding world_inv_def removals_ok_def fresh_fd_def calm_def listen_fd_def by auto
  ultimately have "world_inv opened ts ?w"
    using inv calm' unfolding world_inv_def calm_def listen_fd_def by auto
  moreover have "no_orphans {} ?w" using orph by (auto simp: no_orphans_def)
  moreover have "\<exists>wfd. kern l4 = snd (os_counter_write os wfd 1 (snd (os_counter_write os wfd 1 (kern (wloop w)))))"
    using S'(5) by (simp add: C(6) register_fd_def post_io_kern) blast
  moreover have l4: "l4 = enable_fd_cb os fd (event_or kRead kError) kDefault (?s, SessionEvent ?s) ?l2"
    using S'(6) [OF C(7)] C(3,4) by simp
  have "io_buffer_queue l4 = io_buffer_queue (wloop w) @ serve_tasks fd ?s"
    unfolding l4 C(6) by (simp add: enable_fd_cb_def register_fd_def serve_tasks_def)
  moreover have "\<exists>more. elog l4 = elog (wloop w) @ more"
    using post_io_logs [of os "EnableCbTask fd (event_or kRead kError) kDefault (?s, SessionEvent ?s)" ?l2]
      post_io_logs [of os "RegisterTask fd" "wloop w"]
    unfolding l4 C(6) by (auto simp: enable_fd_cb_def register_fd_def)
  ultimately show ?thesis using acc fd'(1) S'(4) calm' by (intro that [of ?w ss']) auto
qed

text \<open>The sessions an accept loop added: each in its entry, alive, watching for reads, on a new descriptor.\<close>

definition served_entry :: "fd set \<Rightarrow> 'k server_world \<Rightarrow> u32 \<times> LifeChecker \<Rightarrow> bool" where
  "served_entry old w e \<longleftrightarrow> (\<exists>ss. objs w (snd e) = Some ss \<and> fst e = session_key (session_fd ss) \<and>
     session_fd ss \<notin> old \<and> has_event (event_types (session_channel ss)) kRead)"

definition newly_served :: "('k \<Rightarrow> fd set) \<Rightarrow> 'k server_world \<Rightarrow> 'k server_world \<Rightarrow> (u32 \<times> LifeChecker) list \<Rightarrow> bool" where
  "newly_served opened w w' new \<longleftrightarrow> sessions (server w') = sessions (server w) @ new \<and>
     (\<forall>e \<in> set new. next_obj w \<le> snd e \<and> served_entry (opened (kern (wloop w))) w' e) \<and>
     opened (kern (wloop w')) = opened (kern (wloop w)) \<union> (\<lambda>e. session_fd (the (objs w' (snd e)))) ` set new \<and>
     (\<forall>s < next_obj w. objs w' s = objs w s) \<and> next_obj w \<le> next_obj w' \<and> held w' = held w \<and>
     listen_channel (server w') = listen_channel (server w) \<and> io_exe_queue (wloop w') = io_exe_queue (wloop w) \<and>
     io_buffer_queue (wloop w') = io_buffer_queue (wloop w) @
       concat (map (\<lambda>e. serve_tasks (session_fd (the (objs w' (snd e)))) (snd e)) new) \<and>
     (\<exists>more. elog (wloop w') = elog (wloop w) @ more)"

lemma newly_served_none:
  "opened (kern l) = opened (kern (wloop w)) \<Longrightarrow> io_exe_queue l = io_exe_queue (wloop w) \<Longrightarrow>
   io_buffer_queue l = io_buffer_queue (wloop w) \<Longrightarrow> \<exists>more. elog l = elog (wloop w) @ more \<Longrightarrow>
   newly_served opened w (w\<lparr>wloop := l\<rparr>) []"
  by (simp add: newly_served_def)

lemma newly_served_trans:
  assumes "newly_served opened w w1 new1" and "newly_served opened w1 w2 new2"
    and "\<forall>e \<in> set new1. snd e < next_obj w1"
  shows "newly_served opened w w2 (new1 @ new2)"
proof -
  have same: "e \<in> set new1 \<Longrightarrow> objs w2 (snd e) = objs w1 (snd e)" for e
    using assms(2,3) by (auto simp: newly_served_def)
  then have img: "(\<lambda>e. session_fd (the (objs w2 (snd e)))) ` set new1 = (\<lambda>e. session_fd (the (objs w1 (snd e)))) ` set new1"
    by (intro image_cong) auto
  have posts: "concat (map (\<lambda>e. serve_tasks (session_fd (the (objs w2 (snd e)))) (snd e)) new1) =
      concat (map (\<lambda>e. serve_tasks (session_fd (the (objs w1 (snd e)))) (snd e)) new1)"
    by (intro arg_cong [of _ _ concat] map_cong refl) (simp add: same)
  have "e \<in> set new1 \<Longrightarrow> served_entry (opened (kern (wloop w))) w2 e" for e
    using assms(1) same [of e] by (simp add: newly_served_def served_entry_def)
  moreover have "e \<in> set new2 \<Longrightarrow> served_entry (opened (kern (wloop w))) w2 e" for e
  proof -
    assume "e \<in> set new2"
    then have "served_entry (opened (kern (wloop w1))) w2 e" using assms(2) by (simp add: newly_served_def)
    moreover have "opened (kern (wloop w)) \<subseteq> opened (kern (wloop w1))" using assms(1) by (simp add: newly_served_def)
    ultimately show ?thesis unfolding served_entry_def by blast
  qed
  moreover have "\<exists>more. elog (wloop w2) = elog (wloop w) @ more"
    using assms(1,2) unfolding newly_served_def by (metis append.assoc)
  ultimately show ?thesis using assms(1,2) img posts by (auto simp: newly_served_def image_Un)
qed

text \<open>What \<open>accept4\<close> leaves of the invariant, and that its descriptor is new.\<close>

lemma inv_accepted:
  assumes ad: "accept_documented os pending opened" and inv: "world_inv opened ts w"
    and acc: "os_accept4 os (listen_fd w) (kern (wloop w)) = (r, k)"
  shows "world_inv opened ts (w\<lparr>wloop := (wloop w)\<lparr>kern := k\<rparr>\<rparr>)"
    "no_orphans S w \<Longrightarrow> no_orphans S (w\<lparr>wloop := (wloop w)\<lparr>kern := k\<rparr>\<rparr>)"
    "r = Inr fd \<Longrightarrow> fresh_fd opened ts fd (w\<lparr>wloop := (wloop w)\<lparr>kern := k\<rparr>\<rparr>)"
proof -
  note D = accept_documentedD [OF ad acc]
  have grow: "opened (kern (wloop w)) \<subseteq> opened k" using D(4,5) by (cases r) auto
  then have "calm opened (wloop w) ((wloop w)\<lparr>kern := k\<rparr>)" by (simp add: calm_def)
  from inv_calm [OF inv this] show "world_inv opened ts (w\<lparr>wloop := (wloop w)\<lparr>kern := k\<rparr>\<rparr>)"
    "no_orphans S w \<Longrightarrow> no_orphans S (w\<lparr>wloop := (wloop w)\<lparr>kern := k\<rparr>\<rparr>)" by auto
  assume r: "r = Inr fd"
  have "session_fd ss \<in> opened (kern (wloop w))" if "objs w s = Some ss" for s ss
    using inv that unfolding world_inv_def store_ok_def by blast
  moreover have "listen_fd w \<in> opened (kern (wloop w))" "set (unregs (ts @ io_buffer_queue (wloop w))) \<subseteq> opened (kern (wloop w))"
    using inv by (simp add: world_inv_def, auto simp: world_inv_def removals_ok_def)
  ultimately show "fresh_fd opened ts fd (w\<lparr>wloop := (wloop w)\<lparr>kern := k\<rparr>\<rparr>)"
    using D(2-4) [OF r] by (auto simp: fresh_fd_def listen_fd_def)
qed

lemma keeps_open_silent: "keeps_open os opened \<Longrightarrow> wake_silent os opened"
  by (simp add: wake_silent_def keeps_openD(1))

lemma newly_served_one:
  assumes "sessions (server w') = sessions (server w) @ [(session_key fd, next_obj w)]"
    and "objs w' = (objs w)(next_obj w \<mapsto> ss)" and "session_fd ss = fd" and "has_event (event_types (session_channel ss)) kRead"
    and "held w' = held w" and "listen_channel (server w') = listen_channel (server w)" and "next_obj w' = Suc (next_obj w)"
    and "fd \<notin> opened (kern (wloop w))" and "opened (kern (wloop w')) = insert fd (opened (kern (wloop w)))"
    and "io_exe_queue (wloop w') = io_exe_queue (wloop w)"
    and "io_buffer_queue (wloop w') = io_buffer_queue (wloop w) @ serve_tasks fd (next_obj w)"
    and "\<exists>more. elog (wloop w') = elog (wloop w) @ more"
  shows "newly_served opened w w' [(session_key fd, next_obj w)]"
  unfolding newly_served_def served_entry_def using assms by simp

lemma accept_loop_returns:
  assumes ko: "keeps_open os opened" and ad: "accept_documented os pending opened" and wp: "wake_silent os pending"
  shows "world_inv opened ts w \<Longrightarrow> no_orphans {} w \<Longrightarrow> \<exists>w' new. accept_loop os w = Some (Inr w') \<and>
    world_inv opened ts w' \<and> no_orphans {} w' \<and> newly_served opened w w' new \<and>
    (pending (kern (wloop w')) (listen_fd w) = 0 \<or>
     (\<exists>pre err. elog (wloop w') = elog (wloop w) @ pre @ [LogSysError err]))"
proof (induction "pending (kern (wloop w)) (listen_fd w)" arbitrary: w rule: less_induct)
  case less
  have fd: "get_fd (listen_channel (server w)) (wloop w) = (listen_fd w, wloop w)"
    using less.prems(1) by (simp add: get_fd_valid world_inv_def listen_fd_def)
  obtain r k where acc: "os_accept4 os (listen_fd w) (kern (wloop w)) = (r, k)" by fastforce
  let ?w1 = "w\<lparr>wloop := (wloop w)\<lparr>kern := k\<rparr>\<rparr>"
  note D = accept_documentedD [OF ad acc] and I = inv_accepted [OF ad less.prems(1) acc]
  note I2 = I(2) [OF less.prems(2)]
  have lf: "listen_fd ?w1 = listen_fd w" by (simp add: listen_fd_def)
  consider (none) "r = Inl EAGAIN" | (aborted) "r = Inl ECONNABORTED"
    | (failed) err where "r = Inl err" "err \<noteq> EAGAIN" "err \<noteq> ECONNABORTED" | (conn) afd where "r = Inr afd"
    by (cases r) auto
  then show ?case
  proof cases
    case none
    then have "accept_loop os w = Some (Inr ?w1)" using fd acc by (simp add: accept_loop.simps [of os w])
    moreover have "newly_served opened w ?w1 []" using D(5) none by (intro newly_served_none) auto
    ultimately show ?thesis using I(1) I2 D(7) none by auto
  next
    case failed
    let ?w2 = "w\<lparr>wloop := write_log (LogSysError err) ((wloop w)\<lparr>kern := k\<rparr>)\<rparr>"
    have "accept_loop os w = Some (Inr ?w2)" using fd acc failed by (simp add: accept_loop.simps [of os w])
    moreover have "world_inv opened ts ?w2" "no_orphans {} ?w2"
      using inv_calm [OF I(1), of "wloop ?w2"] calm_log(1) I2 by auto
    moreover have "newly_served opened w ?w2 []"
      using D(5) failed(1) by (intro newly_served_none) (auto simp: write_log_def)
    moreover have "elog (wloop ?w2) = elog (wloop w) @ [] @ [LogSysError err]" by (simp add: write_log_def)
    ultimately show ?thesis by blast
  next
    case aborted
    then have "accept_loop os w = accept_loop os ?w1" using fd acc by (simp add: accept_loop.simps [of os w])
    moreover have "pending (kern (wloop ?w1)) (listen_fd ?w1) < pending (kern (wloop w)) (listen_fd w)"
      using D(6) aborted lf by simp
    from less.hyps [OF this I(1) I2, unfolded lf] obtain w' new where
      R: "accept_loop os ?w1 = Some (Inr w')" "world_inv opened ts w'" "no_orphans {} w'" "newly_served opened ?w1 w' new"
      "pending (kern (wloop w')) (listen_fd w) = 0 \<or> (\<exists>pre err. elog (wloop w') = elog (wloop w) @ pre @ [LogSysError err])"
      by auto
    have "newly_served opened w ?w1 []" using D(5) aborted by (intro newly_served_none) auto
    from newly_served_trans [OF this R(4)] have "newly_served opened w w' new" by simp
    ultimately show ?thesis using R(1-3,5) by metis
  next
    case conn
    obtain ss w2 where A: "accept_session os afd ?w1 = Inr w2" "world_inv opened ts w2" "no_orphans {} w2"
      "sessions (server w2) = sessions (server w) @ [(session_key afd, next_obj w)]"
      "objs w2 = (objs w)(next_obj w \<mapsto> ss)" "session_fd ss = afd" "has_event (event_types (session_channel ss)) kRead"
      "held w2 = held w" "io_exe_queue (wloop w2) = io_exe_queue (wloop w)"
      "listen_channel (server w2) = listen_channel (server w)" "next_obj w2 = Suc (next_obj w)"
      "\<exists>wfd. kern (wloop w2) = snd (os_counter_write os wfd 1 (snd (os_counter_write os wfd 1 k)))"
      "io_buffer_queue (wloop w2) = io_buffer_queue (wloop w) @ serve_tasks afd (next_obj w)"
      "\<exists>more. elog (wloop w2) = elog (wloop w) @ more"
      by (rule accept_session_effect [OF ko I(1) I(3) [OF conn] I2], rule that) (simp_all add: calm_def)
    from A(12) have f: "pending (kern (wloop w2)) = pending k"
      using wake_silentD [OF wp] by auto
    from A(12) have g: "opened (kern (wloop w2)) = opened k"
      using wake_silentD [OF keeps_open_silent [OF ko]] by auto
    have lf2: "listen_fd w2 = listen_fd w" using A(10) by (simp add: listen_fd_def)
    have one: "newly_served opened w w2 [(session_key afd, next_obj w)]"
      using A g D(3,4) [OF conn] by (intro newly_served_one) auto
    have "pending (kern (wloop w2)) (listen_fd w2) < pending (kern (wloop w)) (listen_fd w)"
      using f D(1) conn lf2 by simp
    from less.hyps [OF this A(2,3), unfolded lf2] obtain w' new where
      R: "accept_loop os w2 = Some (Inr w')" "world_inv opened ts w'" "no_orphans {} w'" "newly_served opened w2 w' new"
      "pending (kern (wloop w')) (listen_fd w) = 0 \<or> (\<exists>pre err. elog (wloop w') = elog (wloop w2) @ pre @ [LogSysError err])" by blast
    have "\<exists>pre err. elog (wloop w') = elog (wloop w) @ pre @ [LogSysError err]"
      if "elog (wloop w') = elog (wloop w2) @ pre @ [LogSysError err]" for pre err
      using that A(14) by (metis append.assoc)
    then have "pending (kern (wloop w')) (listen_fd w) = 0 \<or> (\<exists>pre err. elog (wloop w') = elog (wloop w) @ pre @ [LogSysError err])"
      using R(5) by blast
    moreover have "accept_loop os w = Some (Inr w')" using fd acc conn A(1) R(1) by (simp add: accept_loop.simps [of os w])
    moreover have "newly_served opened w w' ([(session_key afd, next_obj w)] @ new)"
      using newly_served_trans [OF one R(4)] A(11) by simp
    ultimately show ?thesis using R(2,3) by blast
  qed
qed

text \<open>The entry of a session is its own, so erasing by descriptor erases that session only.\<close>

lemma erase_own_entry:
  assumes inv: "world_inv opened ts w" and ss: "objs w s = Some ss"
  shows "sessions_erase (session_key (session_fd ss)) (sessions (server w)) = filter (\<lambda>e. snd e \<noteq> s) (sessions (server w))"
proof -
  have "fst e = session_key (session_fd ss) \<longleftrightarrow> snd e = s" if "e \<in> set (sessions (server w))" for e
  proof -
    have "case e of (key, s) \<Rightarrow> \<exists>ss. objs w s = Some ss \<and> key = session_key (session_fd ss)"
      using that inv unfolding world_inv_def table_ok_def by blast
    then obtain ss2 where e: "objs w (snd e) = Some ss2" "fst e = session_key (session_fd ss2)" by (cases e) auto
    have st: "store_ok opened w" using inv by (simp add: world_inv_def)
    have range: "0 \<le> session_fd x \<and> session_fd x < 2 ^ 31" if "objs w s' = Some x" for s' x
      using st that by (auto simp: store_ok_def)
    have "session_key (session_fd ss2) = session_key (session_fd ss) \<Longrightarrow> session_fd ss2 = session_fd ss"
      using session_key_inj range [OF ss] range [OF e(1)] by blast
    moreover have "session_fd ss2 = session_fd ss \<Longrightarrow> snd e = s"
      using st e(1) ss unfolding store_ok_def by blast
    ultimately show ?thesis using e ss by auto
  qed
  then show ?thesis unfolding sessions_erase_def by (intro filter_cong) auto
qed

lemma inv_erase:
  assumes inv: "world_inv opened ts w" and ss: "objs w s = Some ss"
  shows "world_inv opened ts (erase_closure os s ss w)" "no_orphans {} w \<Longrightarrow> no_orphans {s} (erase_closure os s ss w)"
    "wloop (erase_closure os s ss w) = wloop w"
    "ss_server ss \<in> live (wloop w) \<Longrightarrow>
      erase_closure os s ss w = w\<lparr>server := (server w)\<lparr>sessions := filter (\<lambda>e. snd e \<noteq> s) (sessions (server w))\<rparr>\<rparr>"
proof -
  let ?w = "w\<lparr>server := (server w)\<lparr>sessions := filter (\<lambda>e. snd e \<noteq> s) (sessions (server w))\<rparr>\<rparr>"
  have "session_inv ss" using inv ss by (auto simp: world_inv_def store_ok_def)
  then have fd: "get_fd (session_channel ss) (wloop w) = (session_fd ss, wloop w)"
    by (simp add: session_inv_def get_fd_valid session_fd_def)
  have eq: "erase_closure os s ss w = (if ss_server ss \<in> live (wloop w) then ?w else w)"
    using fd erase_own_entry [OF inv ss] by (simp add: erase_closure_def)
  have "distinct (map fst (filter P (sessions (server w))))" for P
    using inv distinct_map_filter by (auto simp: world_inv_def table_ok_def)
  then have "world_inv opened ts ?w"
    using inv by (auto simp: world_inv_def store_ok_def table_ok_def removals_ok_def listen_fd_def)
  moreover have "no_orphans {} w \<Longrightarrow> no_orphans {s} ?w" by (auto simp: no_orphans_def)
  moreover have "no_orphans {} w \<Longrightarrow> no_orphans {s} w" by (auto simp: no_orphans_def)
  ultimately show "world_inv opened ts (erase_closure os s ss w)" "no_orphans {} w \<Longrightarrow> no_orphans {s} (erase_closure os s ss w)"
    "wloop (erase_closure os s ss w) = wloop w"
    "ss_server ss \<in> live (wloop w) \<Longrightarrow> erase_closure os s ss w = ?w"
    using eq inv by simp_all
qed

text \<open>What the theorems assume of the kernel and of the virtual functions.\<close>

definition kernel_ok :: "'k os \<Rightarrow> ('k \<Rightarrow> fd \<Rightarrow> nat) \<Rightarrow> ('k \<Rightarrow> fd set) \<Rightarrow> ('k \<Rightarrow> fd \<Rightarrow> byte list) \<Rightarrow>
    ('k \<Rightarrow> fd \<Rightarrow> byte list) \<Rightarrow> bool" where
  "kernel_ok os pending opened inbox sent \<longleftrightarrow> keeps_open os opened \<and> accept_documented os pending opened \<and>
     wake_silent os pending \<and> stream_documented os inbox sent \<and> wake_silent os sent"

definition handler_ok :: "('k \<Rightarrow> fd set) \<Rightarrow> 'k session_handler \<Rightarrow> bool" where
  "handler_ok opened h \<longleftrightarrow> handler_calm opened h \<and> (\<forall>s bytes l. fst (on_split h s bytes l) \<le> int (length bytes))"

lemma send_closure_effect:
  assumes K: "kernel_ok os pending opened inbox sent" and inv: "session_inv ss"
    and send: "session_send_closure os bytes ss l = (ss', l')"
  shows "session_inv ss'" "same_session ss ss'" "calm opened l l'"
proof -
  have ko: "keeps_open os opened" and doc: "stream_documented os inbox sent" and wake: "wake_silent os sent"
    using K by (simp_all add: kernel_ok_def)
  have "session_inv ss' \<and> same_session ss ss' \<and> calm opened l l'"
  proof (cases "ss_server ss \<in> live l")
    case True
    obtain ch sbuf where q: "send_or_queue os (\<not> sb_empty (send_buf ss)) bytes (session_channel ss) (send_buf ss) l = (ch, sbuf, l')"
      "ss' = ss\<lparr>session_channel := ch, send_buf := sbuf\<rparr>"
      using send True by (auto simp: session_send_closure_def split: prod.splits)
    have st: "\<not> invalid_channel (session_channel ss)" "sb_invar (send_buf ss)" "watch_ok (session_channel ss) (send_buf ss)"
      "sb_invar (recv_buf ss)" using inv by (auto simp: session_inv_def)
    from send_or_queue_effect [OF doc wake st(1-3) refl q(1)] send_or_queue_calm [OF ko q(1)] q(2) st(4)
    show ?thesis by (simp add: session_inv_def same_session_def)
  next
    case False
    then show ?thesis using send inv by (simp add: session_send_closure_def same_session_def)
  qed
  then show "session_inv ss'" "same_session ss ss'" "calm opened l l'" by blast+
qed

text \<open>A state between two steps, or inside a batch with the rest \<open>ts\<close> of it.\<close>

definition good_world :: "('k \<Rightarrow> fd set) \<Rightarrow> (stream_callback, stream_closure) LoopTask list \<Rightarrow> 'k server_world \<Rightarrow> bool" where
  "good_world opened ts w \<longleftrightarrow> world_inv opened ts w \<and> no_orphans {} w"

lemma no_orphans_mono: "no_orphans S w \<Longrightarrow> S \<subseteq> T \<Longrightarrow> no_orphans T w"
  by (auto simp: no_orphans_def)

lemma good_release:
  assumes "keeps_open os opened" and "world_inv opened ts w" and "no_orphans {s} w"
  shows "good_world opened ts (release_session os s w)"
  using inv_release(1) [OF assms(1,2)] inv_release(2) [OF assms(1,2), of s "{}"] assms(3) by (simp add: good_world_def)

lemma closure_effect:
  assumes K: "kernel_ok os pending opened inbox sent" and w: "good_world opened ts w"
  shows "good_world opened ts (world_closure os t w)" "io_exe_queue (wloop (world_closure os t w)) = io_exe_queue (wloop w)"
proof -
  have ko: "keeps_open os opened" using K by (simp add: kernel_ok_def)
  have inv: "world_inv opened ts w" and orph: "no_orphans {} w" using w by (simp_all add: good_world_def)
  have "good_world opened ts (world_closure os t w) \<and> io_exe_queue (wloop (world_closure os t w)) = io_exe_queue (wloop w)"
  proof (cases t)
    case (SessionSend s bytes)
    show ?thesis
    proof (cases "objs w s")
      case (Some ss)
      obtain ss' l where s: "session_send_closure os bytes ss (wloop w) = (ss', l)" by fastforce
      have "session_inv ss" using inv Some by (auto simp: world_inv_def store_ok_def)
      note E = send_closure_effect [OF K this s]
      let ?w1 = "w\<lparr>objs := (objs w)(s \<mapsto> ss')\<rparr>"
      have inv1: "world_inv opened ts ?w1" "no_orphans {} ?w1"
        using inv_session [OF inv Some E(2,1)] orph by auto
      have c: "calm opened (wloop ?w1) l" using E(3) by simp
      let ?w2 = "w\<lparr>objs := (objs w)(s \<mapsto> ss'), wloop := l\<rparr>"
      have inv2: "world_inv opened ts ?w2" "no_orphans {s} ?w2"
        using inv_calm [OF inv1(1) c] inv1(2) no_orphans_mono [of "{}" ?w2 "{s}"] by auto
      show ?thesis using SessionSend Some s good_release [OF ko inv2] inv_release(3) [OF ko inv2(1)] E(3)
        by (simp add: calm_def)
    qed (use SessionSend w in simp)
  next
    case (SessionErase s)
    show ?thesis
    proof (cases "objs w s")
      case (Some ss)
      note E = inv_erase [OF inv Some, of os]
      show ?thesis using SessionErase Some good_release [OF ko E(1) E(2) [OF orph]] inv_release(3) [OF ko E(1)] E(3) by simp
    qed (use SessionErase w in simp)
  qed (use w in simp_all)
  then show "good_world opened ts (world_closure os t w)" "io_exe_queue (wloop (world_closure os t w)) = io_exe_queue (wloop w)"
    by blast+
qed

text \<open>The closures of the descriptor interface: only an unregistration closes, and only its descriptor.\<close>

lemma epoll_set_open: "keeps_open os opened \<Longrightarrow> epoll_set os b fd ev k = (r, k') \<Longrightarrow> opened k' = opened k"
  using keeps_openD(3) [of os opened]
  by (auto simp: epoll_set_def Let_def split: prod.splits sum.splits if_splits)

lemma unwatch_frame:
  "keeps_open os opened \<Longrightarrow> opened (kern (unwatch os fd e l)) = opened (kern l)"
  "live (unwatch os fd e l) = live l" "io_exe_queue (unwatch os fd e l) = io_exe_queue l"
  "io_buffer_queue (unwatch os fd e l) = io_buffer_queue l"
  using keeps_openD(3) [of os opened]
  by (auto simp: unwatch_def write_log_def split: prod.splits sum.splits if_splits)

lemma set_event_frame [simp]:
  "live (set_event fd e l) = live l" "io_exe_queue (set_event fd e l) = io_exe_queue l"
  "io_buffer_queue (set_event fd e l) = io_buffer_queue l" "kern (set_event fd e l) = kern l"
  by (simp_all add: set_event_def)

lemma close_open:
  "keeps_open os opened \<Longrightarrow> os_close os fd k = (r, k') \<Longrightarrow> opened k - {fd} \<subseteq> opened k'"
  unfolding keeps_open_def by (metis (no_types, lifting) Diff_subset fst_conv snd_conv sum.case_eq_if order_refl)

definition loop_frame :: "('k \<Rightarrow> fd set) \<Rightarrow> fd set \<Rightarrow> ('k, 'cb, 't) Loop \<Rightarrow> ('k, 'cb, 't) Loop \<Rightarrow> bool" where
  "loop_frame opened closed l l' \<longleftrightarrow> live l' = live l \<and> io_exe_queue l' = io_exe_queue l \<and>
     io_buffer_queue l' = io_buffer_queue l \<and> opened (kern l) - closed \<subseteq> opened (kern l')"

lemma unregister_task_frame:
  assumes ko: "keeps_open os opened" and t: "unregister_task os fd l = Inr l'"
  shows "loop_frame opened {fd} l l'"
proof -
  let ?e = "events l ! nat fd"
  obtain r k where c: "os_close os fd (kern (unwatch os fd ?e l)) = (r, k)" by fastforce
  have "opened (kern l) - {fd} \<subseteq> opened k"
    using close_open [OF ko c] by (simp add: unwatch_frame(1) [OF ko])
  then show ?thesis
    using t c by (auto simp: unregister_task_def with_event_def Let_def loop_frame_def unwatch_frame write_log_def
        split: if_splits sum.splits)
qed

lemma desc_task_frame:
  assumes ko: "keeps_open os opened"
  shows "register_task fd l = Inr l' \<Longrightarrow> loop_frame opened {} l l'"
    "enable_cb_task os fd types modes cb l = Inr l' \<Longrightarrow> loop_frame opened {} l l'"
    "enable_task os fd types modes l = Inr l' \<Longrightarrow> loop_frame opened {} l l'"
    "disable_task os fd l = Inr l' \<Longrightarrow> loop_frame opened {} l l'"
proof -
  show "register_task fd l = Inr l' \<Longrightarrow> loop_frame opened {} l l'"
    by (auto simp: register_task_def with_event_def Let_def loop_frame_def split: if_splits)
  obtain r k where e: "epoll_set os (in_epoll (events l ! nat fd)) fd (projr (epoll_bits_of types modes)) (kern l) = (r, k)"
    by fastforce
  note o = epoll_set_open [OF ko e]
  show "enable_cb_task os fd types modes cb l = Inr l' \<Longrightarrow> loop_frame opened {} l l'"
    using e o by (cases "epoll_bits_of types modes")
      (auto simp: enable_cb_task_def with_event_def loop_frame_def write_log_def split: if_splits option.splits)
  show "enable_task os fd types modes l = Inr l' \<Longrightarrow> loop_frame opened {} l l'"
    using e o by (cases "epoll_bits_of types modes")
      (auto simp: enable_task_def with_event_def loop_frame_def write_log_def split: if_splits option.splits)
  show "disable_task os fd l = Inr l' \<Longrightarrow> loop_frame opened {} l l'"
    using keeps_openD(3) [OF ko]
    by (auto simp: disable_task_def with_event_def loop_frame_def write_log_def split: if_splits prod.splits sum.splits)
qed

lemma good_frame:
  assumes w: "good_world opened (t # ts) w" and f: "loop_frame opened (set (unregs [t])) (wloop w) l"
  shows "good_world opened ts (w\<lparr>wloop := l\<rparr>)"
proof -
  have inv: "world_inv opened (t # ts) w" using w by (simp add: good_world_def)
  have u: "unregs ((t # ts) @ q) = unregs [t] @ unregs (ts @ q)" for q by (simp add: unregs_def)
  have dis: "set (unregs [t]) \<inter> set (unregs (ts @ io_buffer_queue (wloop w))) = {}"
    "listen_fd w \<notin> set (unregs [t])" "objs w s = Some ss \<Longrightarrow> session_fd ss \<notin> set (unregs [t])" for s ss
    using inv unfolding world_inv_def removals_ok_def u by auto
  have "store_ok opened (w\<lparr>wloop := l\<rparr>)"
    using inv f dis(3) unfolding world_inv_def store_ok_def loop_frame_def listen_fd_def by auto
  moreover have "removals_ok opened ts (w\<lparr>wloop := l\<rparr>)"
    using inv f dis unfolding world_inv_def removals_ok_def loop_frame_def listen_fd_def u by auto
  ultimately show ?thesis
    using w f dis(2) unfolding good_world_def world_inv_def table_ok_def no_orphans_def loop_frame_def listen_fd_def by auto
qed

lemma good_weaken: "good_world opened (WrapperTask life t # ts) w \<Longrightarrow> good_world opened ts w"
  by (simp add: good_world_def world_inv_def removals_ok_def)

lemma run_task_frame:
  assumes ko: "keeps_open os opened" and "task_fd t \<noteq> None" and "run_task os c t l = Inr l'"
  shows "loop_frame opened (set (unregs [t])) l l'"
  using assms(2,3) by (cases t) (auto intro: unregister_task_frame [OF ko] desc_task_frame [OF ko])

lemma world_task_effect:
  assumes K: "kernel_ok os pending opened inbox sent" and w: "good_world opened (t # ts) w"
    and t: "world_task os t w = Inr w'"
  shows "good_world opened ts w' \<and> io_exe_queue (wloop w') = io_exe_queue (wloop w)"
proof (cases "task_fd t")
  case None
  then obtain life c where "t = WrapperTask life c" by (cases t) auto
  moreover from this have "good_world opened ts w" using w good_weaken by blast
  ultimately show ?thesis using t closure_effect [OF K] by (auto simp: world_task_def split: if_splits)
next
  case (Some fd)
  then obtain l where "run_task os no_client t (wloop w) = Inr l" and w': "w' = w\<lparr>wloop := l\<rparr>"
    using t by (cases t) (auto simp: world_task_def)
  then have f: "loop_frame opened (set (unregs [t])) (wloop w) l"
    using K Some run_task_frame [of os opened t] by (simp add: kernel_ok_def)
  then show ?thesis using good_frame [OF w f] w' by (simp add: loop_frame_def)
qed

lemma tasks_effect:
  assumes K: "kernel_ok os pending opened inbox sent"
  shows "good_world opened ts w \<Longrightarrow> world_tasks os ts w = Inr w' \<Longrightarrow> good_world opened [] w' \<and> io_exe_queue (wloop w') = io_exe_queue (wloop w)"
proof (induction ts arbitrary: w)
  case (Cons t ts)
  then obtain w1 where w1: "world_task os t w = Inr w1" "world_tasks os ts w1 = Inr w'" by auto
  then show ?case using Cons.IH [OF _ w1(2)] world_task_effect [OF K Cons.prems(1) w1(1)] by simp
qed simp

lemma drain_open: "drain_counter os fd k = Some (err, k') \<Longrightarrow> keeps_open os opened \<Longrightarrow> opened k' = opened k"
proof -
  have "drain_counter os fd k = Some y \<Longrightarrow> keeps_open os opened \<longrightarrow> opened (snd y) = opened k" for y
  proof (erule drain_counter.raw_induct [where P = "\<lambda>os fd k y. keeps_open os opened \<longrightarrow> opened (snd y) = opened k", rotated], goal_cases)
    case (1 loop os fd k y)
    obtain r k1 where r: "os_counter_read os fd k = (r, k1)" by fastforce
    show ?case
    proof
      assume ko: "keeps_open os opened"
      note o = keeps_openD(2) [OF ko r]
      show "opened (snd y) = opened k"
      proof (cases r)
        case (Inl e)
        then have "y = (e, k1)" using 1(2) r by simp
        then show ?thesis using o by simp
      next
        case (Inr v)
        then have "loop os fd k1 = Some y" using 1(2) r by simp
        from 1(1) [OF this] ko have "opened (snd y) = opened k1" by simp
        then show ?thesis using o by (rule trans)
      qed
    qed
  qed
  from this [of "(err, k')"] show "drain_counter os fd k = Some (err, k') \<Longrightarrow> keeps_open os opened \<Longrightarrow> opened k' = opened k"
    by simp
qed

text \<open>Between two steps the batch is empty.\<close>

definition server_good :: "('k \<Rightarrow> fd set) \<Rightarrow> 'k server_world \<Rightarrow> bool" where
  "server_good opened w \<longleftrightarrow> good_world opened [] w \<and> io_exe_queue (wloop w) = []"

lemma posted_effect:
  assumes K: "kernel_ok os pending opened inbox sent" and w: "server_good opened w" and p: "world_posted os w = Inr w'"
  shows "server_good opened w'"
proof -
  have ko: "keeps_open os opened" using K by (simp add: kernel_ok_def)
  let ?l = "wloop w"
  obtain k where d: "drain_counter os (io_wake_fd ?l) (kern ?l) = Some (EAGAIN, k)"
    using p by (auto simp: world_posted_def Let_def split: option.splits if_splits)
  let ?l1 = "?l\<lparr>kern := k, io_exe_queue := io_buffer_queue ?l, io_buffer_queue := io_exe_queue ?l\<rparr>"
  obtain w2 where w2: "world_tasks os (io_buffer_queue ?l) (w\<lparr>wloop := ?l1\<rparr>) = Inr w2"
    "w' = w2\<lparr>wloop := (wloop w2)\<lparr>io_exe_queue := []\<rparr>\<rparr>"
    using p d by (auto simp: world_posted_def Let_def)
  have "good_world opened (io_buffer_queue ?l) (w\<lparr>wloop := ?l1\<rparr>)"
    using w drain_open [OF d ko]
    by (auto simp: server_good_def good_world_def world_inv_def store_ok_def table_ok_def removals_ok_def no_orphans_def listen_fd_def)
  from tasks_effect [OF K this w2(1)] have "good_world opened [] w2" by simp
  then show ?thesis using w2(2)
    by (auto simp: server_good_def good_world_def world_inv_def store_ok_def table_ok_def removals_ok_def no_orphans_def listen_fd_def)
qed

lemma good_calm:
  assumes "server_good opened w" and "calm opened (wloop w) l"
  shows "server_good opened (w\<lparr>wloop := l\<rparr>)"
  using assms inv_calm [of opened "[]" w l] by (auto simp: server_good_def good_world_def calm_def)

lemma good_session:
  assumes "server_good opened w" and "objs w s = Some ss" and "same_session ss ss'" and "session_inv ss'"
  shows "server_good opened (w\<lparr>objs := (objs w)(s \<mapsto> ss')\<rparr>)"
  using assms inv_session [of opened "[]" w s ss ss'] by (auto simp: server_good_def good_world_def)

lemma good_released:
  assumes "keeps_open os opened" and "world_inv opened [] w" and "no_orphans {s} w" and "io_exe_queue (wloop w) = []"
  shows "server_good opened (release_session os s w)"
  using good_release [OF assms(1-3)] inv_release(3) [OF assms(1,2)] assms(4) by (simp add: server_good_def)

lemma server_good_session:
  "server_good opened w \<Longrightarrow> objs w s = Some ss \<Longrightarrow> session_inv ss"
  by (auto simp: server_good_def good_world_def world_inv_def store_ok_def)

lemma good_server:
  assumes "server_good opened w" and "sessions srv = sessions (server w)" and "ch_fd (listen_channel srv) = listen_fd w"
    and "\<not> invalid_channel (listen_channel srv)" and "calm opened (wloop w) l"
  shows "server_good opened (w\<lparr>server := srv, wloop := l\<rparr>)"
proof -
  have "server_good opened (w\<lparr>server := srv\<rparr>)"
    using assms(1-4) by (simp add: server_good_def good_world_def world_inv_def store_ok_def table_ok_def removals_ok_def
        no_orphans_def listen_fd_def)
  from good_calm [OF this] assms(5) show ?thesis by simp
qed

lemma server_good_listen: "server_good opened w \<Longrightarrow> \<not> invalid_channel (listen_channel (server w))"
  by (simp add: server_good_def good_world_def world_inv_def)

lemma good_server_stop:
  assumes ko: "keeps_open os opened" and w: "server_good opened w"
  shows "server_good opened (server_stop os w)"
proof -
  from good_server [OF w, of "(server w)\<lparr>server_started := False\<rparr>", OF _ _ _ calm_channel(3) [OF ko]] server_good_listen [OF w]
  show ?thesis by (simp add: server_stop_def listen_fd_def)
qed

lemma good_server_start:
  assumes ko: "keeps_open os opened" and w: "server_good opened w"
  shows "server_good opened (server_start os w)"
proof (cases "server_started (server w)")
  case False
  let ?srv = "(server w)\<lparr>server_started := True\<rparr>"
  obtain ch l where u: "update_event_cb os (srv_self ?srv) (event_or kRead kError) kDefault (ServerEvent (srv_self ?srv))
      (listen_channel ?srv) (wloop w) = (ch, l)" by fastforce
  have "ch_fd ch = listen_fd w" "\<not> invalid_channel ch"
    using u server_good_listen [OF w] by (auto simp: update_event_cb_def listen_fd_def invalid_channel_def)
  then have "server_good opened (w\<lparr>server := ?srv\<lparr>listen_channel := ch\<rparr>, wloop := l\<rparr>)"
    using good_server [OF w, of "?srv\<lparr>listen_channel := ch\<rparr>", OF _ _ _ calm_channel(1) [OF ko u]] by simp
  then show ?thesis using False u by (simp add: server_start_def)
qed (use w in \<open>simp add: server_start_def\<close>)

lemma good_server_event:
  assumes K: "kernel_ok os pending opened inbox sent" and w: "server_good opened w"
  shows "\<exists>w'. server_event os stale types w = Some (Inr w') \<and> server_good opened w'"
proof -
  have ko: "keeps_open os opened" and ad: "accept_documented os pending opened" and wp: "wake_silent os pending"
    using K by (simp_all add: kernel_ok_def)
  have "\<exists>w1. (if has_event types kRead then accept_loop os w else Some (Inr w)) = Some (Inr w1) \<and> server_good opened w1"
  proof (cases "has_event types kRead")
    case True
    have "world_inv opened [] w" "no_orphans {} w" "io_exe_queue (wloop w) = []"
      using w by (simp_all add: server_good_def good_world_def)
    then show ?thesis using True accept_loop_returns [OF ko ad wp, of "[]" w]
      by (auto simp: server_good_def good_world_def newly_served_def)
  qed (use w in auto)
  then obtain w1 where w1: "(if has_event types kRead then accept_loop os w else Some (Inr w)) = Some (Inr w1)" "server_good opened w1"
    by blast
  obtain e k where e: "os_so_error os (listen_fd w1) (kern (wloop w1)) = (e, k)" by fastforce
  have fd: "get_fd (listen_channel (server w1)) (wloop w1) = (listen_fd w1, wloop w1)"
    using server_good_listen [OF w1(2)] by (simp add: get_fd_valid listen_fd_def)
  note c = calm_kern [of opened, OF keeps_openD(6) [OF ko e]]
  have "server_good opened (server_error os stale types w1)"
    using fd e w1(2) good_calm [OF w1(2)] c good_server_stop [OF ko] by (cases e) (simp_all add: server_error_def)
  then show ?thesis using w1(1) by (simp add: server_event_def)
qed

lemma good_session_event:
  assumes K: "kernel_ok os pending opened inbox sent" and h: "handler_ok opened h" and w: "server_good opened w"
    and ss: "objs w s = Some ss"
  shows "\<exists>w'. world_session_event os h types s ss w = Some (Inr w') \<and> server_good opened w'"
proof -
  have ko: "keeps_open os opened" and doc: "stream_documented os inbox sent" and wake: "wake_silent os sent"
    using K by (simp_all add: kernel_ok_def)
  have bound: "\<And>s bytes l. ss_self s = ss_self ss \<Longrightarrow> fst (on_split h s bytes l) \<le> int (length bytes)" and hc: "handler_calm opened h"
    using h by (simp_all add: handler_ok_def)
  from session_event_returns [OF doc wake server_good_session [OF w ss] bound, of types "wloop w"] obtain ss' l where
    ev: "session_event os h types ss (wloop w) = Some (Inr (ss', l))" "session_inv ss'" by blast
  from session_event_calm [OF ko hc ev(1)] have c: "calm opened (wloop w) l" and same: "same_session ss ss'" by simp_all
  let ?w = "w\<lparr>objs := (objs w)(s \<mapsto> ss'), wloop := l\<rparr>"
  have g: "server_good opened ?w" using good_calm [OF good_session [OF w ss same ev(2)], of l] c by simp
  then have "server_good opened (release_session os s ?w)"
    using good_released [OF ko, of ?w s] no_orphans_mono [of "{}" ?w "{s}"] by (simp add: server_good_def good_world_def)
  then show ?thesis using ev(1) by (simp add: world_session_event_def)
qed

lemma good_step:
  assumes K: "kernel_ok os pending opened inbox sent" and h: "handler_ok opened h"
  shows "server_step os h w w' \<Longrightarrow> server_good opened w \<Longrightarrow> server_good opened w'"
proof (induction rule: server_step.induct)
  case (posted w w')
  then show ?case using posted_effect [OF K] by blast
next
  case (listening stale types w w')
  then show ?case using good_server_event [OF K, of w stale types] by simp
next
  case (talking w s ss types w')
  then show ?case using good_session_event [OF K h, of w s ss types] by simp
next
  case (holding w s)
  then show ?case by (auto simp: server_good_def good_world_def world_inv_def store_ok_def table_ok_def removals_ok_def
        no_orphans_def listen_fd_def)
next
  case (dropping w s)
  let ?w = "w\<lparr>held := held w - {s}\<rparr>"
  have "world_inv opened [] ?w" "no_orphans {s} ?w" "io_exe_queue (wloop ?w) = []"
    using dropping by (auto simp: server_good_def good_world_def world_inv_def store_ok_def table_ok_def removals_ok_def
        no_orphans_def listen_fd_def)
  moreover have "keeps_open os opened" using K by (simp add: kernel_ok_def)
  ultimately show ?case using good_released by blast
next
  case (user_start s w ss ss' l)
  have ko: "keeps_open os opened" using K by (simp add: kernel_ok_def)
  note E = session_start_effect [OF ko server_good_session [OF user_start(4,2)] user_start(3)]
  show ?case using good_calm [OF good_session [OF user_start(4,2) E(2,1)], of l] E(3) by simp
next
  case (user_stop s w ss)
  have ko: "keeps_open os opened" using K by (simp add: kernel_ok_def)
  have "calm opened (wloop w) (session_stop os ss (wloop w))"
    unfolding session_stop_def by (rule calm_trans [OF calm_channel(3) [OF ko] calm_channel(4) [OF ko]])
  then show ?case using good_calm user_stop(3) by blast
next
  case (user_send s w ss bytes)
  have ko: "keeps_open os opened" using K by (simp add: kernel_ok_def)
  have "calm opened (wloop w) (session_post_send_task os bytes ss (wloop w))"
    unfolding session_post_send_task_def by (rule calm_channel(4) [OF ko])
  then show ?case using good_calm user_send(3) by blast
qed (use K in \<open>simp_all add: kernel_ok_def good_server_start good_server_stop\<close>)

lemma good_run:
  assumes K: "kernel_ok os pending opened inbox sent" and h: "handler_ok opened h"
  shows "server_run os h w0 w \<Longrightarrow> server_good opened w0 \<Longrightarrow> server_good opened w"
  by (induction rule: server_run.induct) (auto intro: good_step [OF K h])

section \<open>Properties\<close>

text \<open>
  C13. Accepting. The accept loop of a server returns. Every descriptor that \<open>accept4\<close> opened belongs to
  one new session, alive, entered in the table under its own key after the old entries; for each, in
  order, its registration with the loop is posted and then its watch for reads and errors with the
  session's callback, and nothing else is posted. No old entry or session is touched. The loop ends when
  no connection waits, or with the error of the call logged.
\<close>

theorem accept_loop_serves_connections:
  assumes "kernel_ok os pending opened inbox sent" and "server_good opened w"
  shows "\<exists>w' new. accept_loop os w = Some (Inr w') \<and> server_good opened w' \<and>
    sessions (server w') = sessions (server w) @ new \<and>
    (\<forall>e \<in> set new. \<exists>ss. objs w' (snd e) = Some ss \<and> fst e = session_key (session_fd ss) \<and>
      session_fd ss \<notin> opened (kern (wloop w)) \<and> has_event (event_types (session_channel ss)) kRead) \<and>
    opened (kern (wloop w')) = opened (kern (wloop w)) \<union> (\<lambda>e. session_fd (the (objs w' (snd e)))) ` set new \<and>
    io_buffer_queue (wloop w') = io_buffer_queue (wloop w) @ concat (map (\<lambda>e.
      [RegisterTask (session_fd (the (objs w' (snd e)))),
       EnableCbTask (session_fd (the (objs w' (snd e)))) (event_or kRead kError) kDefault (snd e, SessionEvent (snd e))]) new) \<and>
    (\<forall>s < next_obj w. objs w' s = objs w s) \<and>
    (pending (kern (wloop w')) (listen_fd w) = 0 \<or>
     (\<exists>pre err. elog (wloop w') = elog (wloop w) @ pre @ [LogSysError err]))"
proof -
  have K: "keeps_open os opened" "accept_documented os pending opened" "wake_silent os pending"
    using assms(1) by (simp_all add: kernel_ok_def)
  have w: "world_inv opened [] w" "no_orphans {} w" "io_exe_queue (wloop w) = []"
    using assms(2) by (simp_all add: server_good_def good_world_def)
  from accept_loop_returns [OF K w(1,2)] obtain w' new where R: "accept_loop os w = Some (Inr w')"
    "world_inv opened [] w'" "no_orphans {} w'" "newly_served opened w w' new"
    "pending (kern (wloop w')) (listen_fd w) = 0 \<or> (\<exists>pre err. elog (wloop w') = elog (wloop w) @ pre @ [LogSysError err])"
    by blast
  from R(4) w(3) R(2,3) have "server_good opened w'" by (simp add: server_good_def good_world_def newly_served_def)
  with R show ?thesis
    by (intro exI [of _ w'] exI [of _ new]) (simp add: newly_served_def served_entry_def serve_tasks_def)
qed

text \<open>A server that listens on descriptor 5, where two connections wait.\<close>

definition demo_world :: "kstate server_world" where
  "demo_world = \<lparr>server = \<lparr>listen_channel = demo_channel, server_started = True, sessions = [], srv_self = 7\<rparr>,
     objs = (\<lambda>_. None), held = {}, next_obj = 8,
     wloop = make_Loop 3 4 (k_init\<lparr>k_open := [5], k_pending := (\<lambda>_. 0)(5 := 2)\<rparr>) {7}\<rparr>"

lemma ref_os_kernel_ok: "kernel_ok ref_os k_pending (\<lambda>k. set (k_open k)) k_inbox k_sent"
  using ref_os_keeps_open ref_os_accept ref_os_stream ref_os_wake
  by (simp add: kernel_ok_def wake_silent_def ref_os_def)

lemma demo_handler_ok: "handler_ok (\<lambda>k. set (k_open k)) demo_handler"
proof -
  have "calm (\<lambda>k. set (k_open k)) l (session_stop ref_os ss l)" for ss l
    unfolding session_stop_def by (rule calm_trans [OF calm_channel(3) calm_channel(4)]) (rule ref_os_keeps_open)+
  then show ?thesis
    by (auto simp: handler_ok_def handler_calm_def demo_handler_def calm_def post_heavy_task_def wake_heavy_up_def)
qed

lemma empty_world_good:
  assumes "objs w = (\<lambda>_. None)" and "sessions (server w) = []" and "held w = {}" and "io_exe_queue (wloop w) = []"
    and "unregs (io_buffer_queue (wloop w)) = []" and "\<not> invalid_channel (listen_channel (server w))"
    and "listen_fd w \<in> opened (kern (wloop w))"
  shows "server_good opened w"
  using assms by (simp add: server_good_def good_world_def world_inv_def store_ok_def table_ok_def removals_ok_def no_orphans_def)

lemma demo_world_good: "server_good (\<lambda>k. set (k_open k)) demo_world"
  using demo_channel_valid
  by (intro empty_world_good) (simp_all add: demo_world_def make_Loop_def listen_fd_def demo_channel_def)

theorem accept_loop_serves_connections_witness:
  "\<exists>w'. accept_loop ref_os demo_world = Some (Inr w') \<and> server_good (\<lambda>k. set (k_open k)) w'"
  using accept_loop_serves_connections [OF ref_os_kernel_ok demo_world_good] by blast

text \<open>
  C11. The session table. From a fresh server, in every order of connections, events, closures and
  user calls: each entry of the table is for a session that is alive, well formed, and owns the
  descriptor that is the key; no two sessions own the same descriptor; a session exists only as
  long as the table or user code refers to it, and then its descriptor is not up for closing.
\<close>

theorem session_table_consistent:
  assumes "kernel_ok os pending opened inbox sent" and "handler_ok opened h" and "server_run os h w0 w"
    and "objs w0 = (\<lambda>_. None)" and "sessions (server w0) = []" and "held w0 = {}" and "io_exe_queue (wloop w0) = []"
    and "unregs (io_buffer_queue (wloop w0)) = []" and "\<not> invalid_channel (listen_channel (server w0))"
    and "listen_fd w0 \<in> opened (kern (wloop w0))"
  shows "distinct (map fst (sessions (server w))) \<and>
    (\<forall>e \<in> set (sessions (server w)). \<exists>ss. objs w (snd e) = Some ss \<and> fst e = session_key (session_fd ss)) \<and>
    (\<forall>s ss. objs w s = Some ss \<longrightarrow> s \<in> live (wloop w) \<and> session_inv ss \<and> session_fd ss \<in> opened (kern (wloop w)) \<and>
      (s \<in> held w \<or> s \<in> snd ` set (sessions (server w))) \<and> UnregisterTask (session_fd ss) \<notin> set (io_buffer_queue (wloop w))) \<and>
    (\<forall>s s' ss ss'. objs w s = Some ss \<longrightarrow> objs w s' = Some ss' \<longrightarrow> session_fd ss = session_fd ss' \<longrightarrow> s = s')"
proof -
  have "server_good opened w" by (rule good_run [OF assms(1-3) empty_world_good [where opened = opened, OF assms(4-10)]])
  then have inv: "store_ok opened w" "table_ok w" "removals_ok opened [] w" "no_orphans {} w"
    by (simp_all add: server_good_def good_world_def world_inv_def)
  have un: "UnregisterTask fd \<in> set ts \<Longrightarrow> fd \<in> set (unregs ts)" for fd and ts :: "(stream_callback, stream_closure) LoopTask list"
    by (force simp: unregs_def)
  have one: "s \<in> live (wloop w) \<and> session_inv ss \<and> session_fd ss \<in> opened (kern (wloop w)) \<and>
      (s \<in> held w \<or> s \<in> snd ` set (sessions (server w))) \<and> UnregisterTask (session_fd ss) \<notin> set (io_buffer_queue (wloop w))"
    if "objs w s = Some ss" for s ss
  proof -
    have "s \<in> dom (objs w)" using that by blast
    then have "s \<in> held w \<or> s \<in> snd ` set (sessions (server w))" using inv(4) by (auto simp: no_orphans_def)
    moreover have "session_fd ss \<notin> set (unregs (io_buffer_queue (wloop w)))" using inv(3) that by (simp add: removals_ok_def)
    ultimately show ?thesis using inv(1) that un by (simp add: store_ok_def) blast
  qed
  have tab: "\<exists>ss. objs w (snd e) = Some ss \<and> fst e = session_key (session_fd ss)" if "e \<in> set (sessions (server w))" for e
    using inv(2) that by (auto simp: table_ok_def)
  have uniq: "\<forall>s s' ss ss'. objs w s = Some ss \<longrightarrow> objs w s' = Some ss' \<longrightarrow> session_fd ss = session_fd ss' \<longrightarrow> s = s'"
    using inv(1) unfolding store_ok_def by blast
  show ?thesis using one tab uniq inv(2) by (simp add: table_ok_def)
qed

theorem session_table_consistent_witness:
  "\<exists>w. server_run ref_os demo_handler demo_world w \<and> distinct (map fst (sessions (server w)))"
proof -
  obtain w where w: "server_event ref_os EAGAIN kRead demo_world = Some (Inr w)"
    using good_server_event [OF ref_os_kernel_ok demo_world_good] by blast
  then have run: "server_run ref_os demo_handler demo_world w"
    using server_run.begin_run server_run.then_step server_step.listening by blast
  have "unregs (io_buffer_queue (wloop demo_world)) = []" "\<not> invalid_channel (listen_channel (server demo_world))"
    "listen_fd demo_world \<in> set (k_open (kern (wloop demo_world)))" "objs demo_world = (\<lambda>_. None)"
    "sessions (server demo_world) = []" "held demo_world = {}" "io_exe_queue (wloop demo_world) = []"
    using demo_channel_valid by (simp_all add: demo_world_def make_Loop_def listen_fd_def demo_channel_def)
  from session_table_consistent [OF ref_os_kernel_ok demo_handler_ok run this(4-7,1-3)] run show ?thesis by blast
qed

text \<open>
  C28. Stopping. The closure of a session's \<open>stop\<close> takes exactly that session out of the table, although
  it erases by descriptor. If user code holds no reference, the session is destroyed: its name is
  given up, and the removal of its descriptor is posted, once. Other sessions are not touched.
\<close>

theorem stop_removes_own_session:
  assumes "keeps_open os opened" and "server_good opened w" and "objs w s = Some ss" and "ss_server ss \<in> live (wloop w)"
    and "s \<notin> held w"
  shows "let w' = world_closure os (SessionErase s) w in
    sessions (server w') = filter (\<lambda>e. snd e \<noteq> s) (sessions (server w)) \<and>
    objs w' = (objs w)(s := None) \<and> live (wloop w') = live (wloop w) - {s} \<and>
    unregs (io_buffer_queue (wloop w')) = unregs (io_buffer_queue (wloop w)) @ [session_fd ss] \<and> server_good opened w'"
proof -
  have inv: "world_inv opened [] w" "no_orphans {} w" using assms(2) by (simp_all add: server_good_def good_world_def)
  have si: "session_inv ss" "ss_self ss = s" using inv(1) assms(3) by (auto simp: world_inv_def store_ok_def)
  let ?w1 = "w\<lparr>server := (server w)\<lparr>sessions := filter (\<lambda>e. snd e \<noteq> s) (sessions (server w))\<rparr>\<rparr>"
  let ?w2 = "?w1\<lparr>objs := (objs w)(s := None), wloop := destroy_StreamSession os ss (wloop w)\<rparr>"
  note E = inv_erase [OF inv(1) assms(3), of os] and D = destroy_session_effect [OF assms(1) si(1), of "wloop w", unfolded si(2)]
  have w1: "erase_closure os s ss w = ?w1" using E(4) assms(4) by simp
  have "world_closure os (SessionErase s) w = ?w2"
    using assms(3,5) w1 by (auto simp: release_session_def)
  moreover have "server_good opened (release_session os s ?w1)"
    using good_released [OF assms(1), of ?w1 s] E(1) E(2) [OF inv(2)] assms(2) unfolding w1 by (simp add: server_good_def)
  moreover have "release_session os s ?w1 = ?w2" using assms(3,5) by (auto simp: release_session_def)
  ultimately show ?thesis using D by (simp add: Let_def)
qed

definition demo_busy_world :: "kstate server_world" where
  "demo_busy_world = demo_world\<lparr>server := (server demo_world)\<lparr>sessions := [(6, 8)]\<rparr>,
     objs := [8 \<mapsto> demo_session\<lparr>session_channel := demo_channel\<lparr>ch_fd := 6\<rparr>\<rparr>], next_obj := 9,
     wloop := make_Loop 3 4 (k_init\<lparr>k_open := [5, 6]\<rparr>) {7, 8}\<rparr>"

lemma demo_busy_world_good: "server_good (\<lambda>k. set (k_open k)) demo_busy_world"
  using demo_channel_valid sb_invar_make
  by (auto simp: server_good_def good_world_def world_inv_def store_ok_def table_ok_def removals_ok_def no_orphans_def
      demo_busy_world_def demo_world_def make_Loop_def listen_fd_def session_fd_def demo_session_def demo_channel_def
      session_key_def session_inv_def watch_ok_def invalid_channel_def)

theorem stop_removes_own_session_witness:
  "sessions (server (world_closure ref_os (SessionErase 8) demo_busy_world)) = [] \<and>
   objs (world_closure ref_os (SessionErase 8) demo_busy_world) = (\<lambda>_. None)"
proof -
  have "objs demo_busy_world 8 = Some (demo_session\<lparr>session_channel := demo_channel\<lparr>ch_fd := 6\<rparr>\<rparr>)"
    "ss_server (demo_session\<lparr>session_channel := demo_channel\<lparr>ch_fd := 6\<rparr>\<rparr>) \<in> live (wloop demo_busy_world)"
    "8 \<notin> held demo_busy_world"
    by (simp_all add: demo_busy_world_def demo_world_def demo_session_def make_Loop_def)
  from stop_removes_own_session [OF ref_os_keeps_open demo_busy_world_good this]
  show ?thesis by (auto simp: Let_def demo_busy_world_def demo_world_def)
qed

end
