(* ===== verification/Stream_Client.thy ===== *)
theory Stream_Client
  imports Stream_IO Channel_Factory
begin

text \<open>
  \<open>StreamClientSocket\<close> (\<open>include/kzevent/net/inet.hpp\<close>, \<open>src/net/inet.cpp\<close>): connecting with a
  timeout, then the same reading, writing and splitting as a session. The virtual functions are a
  record of functions; \<open>on_error\<close> and \<open>on_disconnect\<close> may act on the client (they stop it).
\<close>

section \<open>State\<close>

datatype ConnectState = ConnDisconnected | ConnConnecting | ConnConnected

record StreamClientSocket =
  cl_recv_buf :: StreamBuffer
  cl_send_buf :: StreamBuffer
  stream_channel :: LoopChannel
  connect_timer_channel :: LoopChannel
  cl_started :: bool
  connected :: ConnectState
  cl_self :: LifeChecker

datatype client_closure =
    ClientSend LifeChecker "byte list"
  | ClientArmTimer LifeChecker u64
  | ClientFragment LifeChecker "byte list"
  | ClientUser nat

datatype client_callback =
    ConnectEvent LifeChecker
  | ConnectTimeout LifeChecker
  | ClientEvent LifeChecker

type_synonym 'k client_loop = "('k, client_callback, client_closure) Loop"

type_synonym 'k client_state = "StreamClientSocket \<times> 'k client_loop"

record 'k client_handler =
  cl_on_split :: "StreamClientSocket \<Rightarrow> byte list \<Rightarrow> 'k client_loop \<Rightarrow> int \<times> 'k client_loop"
  cl_on_fragment :: "StreamClientSocket \<Rightarrow> byte list \<Rightarrow> 'k client_loop \<Rightarrow> 'k client_loop"
  cl_on_error :: "errno \<Rightarrow> 'k client_state \<Rightarrow> 'k client_state"
  cl_on_disconnect :: "'k client_state \<Rightarrow> 'k client_state"

section \<open>Operations\<close>

definition construct_StreamClientSocket :: "'k os \<Rightarrow> LifeChecker \<Rightarrow> InetAddr \<Rightarrow> 'k client_loop \<Rightarrow>
    fault + 'k client_state" where
  "construct_StreamClientSocket os self local l =
     (case make_stream_client_channel os local l of
        (None, _) \<Rightarrow> Inl (Thrown ''make stream channel failed'')
      | (Some sch, l1) \<Rightarrow>
          (case make_net_timer_channel os 0 0 l1 of
             (None, _) \<Rightarrow> Inl (Thrown ''make timer channel failed'')
           | (Some tch, l2) \<Rightarrow>
               Inr (\<lparr>cl_recv_buf = make_StreamBuffer UINT16_MAX, cl_send_buf = make_StreamBuffer UINT16_MAX,
                     stream_channel = fst (move_LoopChannel sch), connect_timer_channel = fst (move_LoopChannel tch),
                     cl_started = False, connected = ConnDisconnected, cl_self = self\<rparr>, l2)))"

text \<open>
  \<open>start\<close>: nothing when started; otherwise it looks at the send buffer, asks for the write event if
  bytes wait, and sets the event callback.
\<close>

definition start_types :: "StreamClientSocket \<Rightarrow> EventType" where
  "start_types c = (if sb_empty (cl_send_buf c) then event_or kRead kError else event_or (event_or kRead kWrite) kError)"

definition start_watch :: "'k os \<Rightarrow> EventType \<Rightarrow> 'k client_state \<Rightarrow> 'k client_state" where
  "start_watch os types st =
     (case st of (c, l) \<Rightarrow>
        let (ch, l') = update_event_cb os (cl_self c) types kDefault (ClientEvent (cl_self c)) (stream_channel c) l
        in (c\<lparr>stream_channel := ch\<rparr>, l'))"

definition client_start :: "'k os \<Rightarrow> 'k client_state \<Rightarrow> 'k client_state" where
  "client_start os st =
     (case st of (c, l) \<Rightarrow>
        if cl_started c then (c, l)
        else let c1 = c\<lparr>cl_started := True\<rparr> in start_watch os (start_types c1) (c1, l))"

definition client_stop :: "'k os \<Rightarrow> 'k client_state \<Rightarrow> 'k client_state" where
  "client_stop os st =
     (case st of (c, l) \<Rightarrow>
        (c\<lparr>cl_started := False\<rparr>,
         disable_event os (connect_timer_channel c) (disable_event os (stream_channel c) l)))"

text \<open>The destructor: the events are given up, then the channels go, the timer's first.\<close>

definition destroy_StreamClientSocket :: "'k os \<Rightarrow> 'k client_state \<Rightarrow> 'k client_loop" where
  "destroy_StreamClientSocket os st =
     (case st of (c, l) \<Rightarrow>
        case client_stop os (c, l\<lparr>live := live l - {cl_self c}\<rparr>) of (c', l') \<Rightarrow>
          destroy_LoopChannel os (stream_channel c') (destroy_LoopChannel os (connect_timer_channel c') l'))"

text \<open>
  \<open>connect\<close> when the system call did not succeed at once; \<open>after_log\<close> is what \<open>errno\<close> holds once the error
  of the call has been logged. Then the whole method.
\<close>

definition connect_waits :: "'k os \<Rightarrow> 'k client_handler \<Rightarrow> errno \<Rightarrow> u64 \<Rightarrow> errno \<Rightarrow> 'k client_state \<Rightarrow> 'k client_state" where
  "connect_waits os h after_log timeout_ms err st =
     (case st of (c, l) \<Rightarrow>
        if err \<noteq> EINPROGRESS
        then case cl_on_error h after_log (c, write_log (LogSysError err) l) of (c2, l2) \<Rightarrow>
               (c2\<lparr>connected := ConnDisconnected\<rparr>, l2)
        else let (sch, l2) = update_event_cb os (cl_self c) kWrite kDefault (ConnectEvent (cl_self c)) (stream_channel c) l;
                 (tch, l3) = update_event_cb os (cl_self c) kRead kDefault (ConnectTimeout (cl_self c))
                    (connect_timer_channel c) l2
             in (c\<lparr>stream_channel := sch, connect_timer_channel := tch\<rparr>,
                 channel_post_io_task os (cl_self c) (ClientArmTimer (cl_self c) timeout_ms) tch l3))"

definition client_connect :: "'k os \<Rightarrow> 'k client_handler \<Rightarrow> errno \<Rightarrow> InetAddr \<Rightarrow> u64 \<Rightarrow> 'k client_state \<Rightarrow> 'k client_state" where
  "client_connect os h after_log addr timeout_ms st =
     (case st of (c, l) \<Rightarrow>
        if connected c \<noteq> ConnDisconnected then (c, l)
        else let c1 = c\<lparr>connected := ConnConnecting\<rparr>; (fd, l1) = get_fd (stream_channel c1) l
             in case os_connect os fd (get_sockaddr addr) (get_socklen addr) (kern l1) of
                  (Inr _, k) \<Rightarrow> client_start os (c1\<lparr>connected := ConnConnected\<rparr>, l1\<lparr>kern := k\<rparr>)
                | (Inl err, k) \<Rightarrow> connect_waits os h after_log timeout_ms err (c1, l1\<lparr>kern := k\<rparr>))"

text \<open>The callback that \<open>connect\<close> sets on the socket, and the one it sets on the timer.\<close>

definition connect_event :: "'k os \<Rightarrow> 'k client_handler \<Rightarrow> EventType \<Rightarrow> 'k client_state \<Rightarrow> 'k client_state" where
  "connect_event os h types st =
     (case st of (c, l) \<Rightarrow>
        if has_event types kWrite
        then let (fd, l1) = get_fd (stream_channel c) l
             in case os_so_error os fd (kern l1) of
                  (Some err, k) \<Rightarrow>
                    cl_on_error h err (c\<lparr>connected := ConnDisconnected\<rparr>,
                      disable_event os (connect_timer_channel c) (l1\<lparr>kern := k\<rparr>))
                | (None, k) \<Rightarrow>
                    client_start os (c\<lparr>connected := ConnConnected\<rparr>,
                      disable_event os (connect_timer_channel c) (l1\<lparr>kern := k\<rparr>))
        else (c, l))"

definition connect_timeout :: "'k os \<Rightarrow> 'k client_handler \<Rightarrow> 'k client_state \<Rightarrow> 'k client_state option" where
  "connect_timeout os h st =
     (case st of (c, l) \<Rightarrow>
        let (fd, l1) = get_fd (connect_timer_channel c) l
        in case drain_counter os fd (kern l1) of
             None \<Rightarrow> None
           | Some (err, k) \<Rightarrow>
               Some (let l2 = disable_event os (connect_timer_channel c) (l1\<lparr>kern := k\<rparr>)
                     in if connected c = ConnConnected then (c, l2)
                        else cl_on_error h ETIMEDOUT (c\<lparr>connected := ConnDisconnected\<rparr>, l2)))"



definition client_post_heavy_task :: "client_closure \<Rightarrow> 'k client_state \<Rightarrow> 'k client_state" where
  "client_post_heavy_task task st =
     (case st of (c, l) \<Rightarrow> (c, channel_post_heavy_task (cl_self c) task (stream_channel c) l))"

text \<open>The closure of \<open>post_send_task\<close>.\<close>

definition client_send_closure :: "'k os \<Rightarrow> byte list \<Rightarrow> 'k client_state \<Rightarrow> 'k client_state" where
  "client_send_closure os bytes st =
     (case st of (c, l) \<Rightarrow>
        case send_or_queue os (\<not> sb_empty (cl_send_buf c) \<or> connected c \<noteq> ConnConnected) bytes
               (stream_channel c) (cl_send_buf c) l of
          (ch, sbuf, l') \<Rightarrow> (c\<lparr>stream_channel := ch, cl_send_buf := sbuf\<rparr>, l'))"

text \<open>The event callback of \<open>start\<close>, branch by branch.\<close>

definition client_read :: "'k os \<Rightarrow> EventType \<Rightarrow> 'k client_state \<Rightarrow> (bool \<times> 'k client_state) option" where
  "client_read os types st =
     (case st of (c, l) \<Rightarrow>
        if has_event types kRead
        then case recv_loop os (stream_channel c) (cl_recv_buf c) l of
               None \<Rightarrow> None | Some (gone, rbuf, l') \<Rightarrow> Some (gone, c\<lparr>cl_recv_buf := rbuf\<rparr>, l')
        else Some (False, c, l))"

definition client_write :: "'k os \<Rightarrow> EventType \<Rightarrow> bool \<times> 'k client_state \<Rightarrow> (bool \<times> 'k client_state) option" where
  "client_write os types st =
     (case st of (gone, c, l) \<Rightarrow>
        if has_event types kWrite
        then case send_loop os (stream_channel c) (cl_send_buf c) (cl_recv_buf c) l of
               None \<Rightarrow> None
             | Some (gone', ch, sbuf, rbuf, l') \<Rightarrow>
                 Some (gone \<or> gone', c\<lparr>stream_channel := ch, cl_send_buf := sbuf, cl_recv_buf := rbuf\<rparr>, l')
        else Some (gone, c, l))"

definition clear_client :: "StreamClientSocket \<Rightarrow> StreamClientSocket" where
  "clear_client c = c\<lparr>cl_recv_buf := sb_clear (cl_recv_buf c), cl_send_buf := sb_clear (cl_send_buf c)\<rparr>"

definition client_error :: "'k os \<Rightarrow> 'k client_handler \<Rightarrow> EventType \<Rightarrow> bool \<times> 'k client_state \<Rightarrow> bool \<times> 'k client_state" where
  "client_error os h types st =
     (case st of (gone, c, l) \<Rightarrow>
        if has_event types kError
        then let (fd, l1) = get_fd (stream_channel c) l
             in case os_so_error os fd (kern l1) of
                  (None, k) \<Rightarrow> (gone, c, l1\<lparr>kern := k\<rparr>)
                | (Some err, k) \<Rightarrow>
                    if err \<noteq> ECONNRESET \<and> err \<noteq> EPIPE
                    then (if err = ECONNRESET \<or> err = EPIPE then (True, c, l1\<lparr>kern := k\<rparr>)
                          else (gone, cl_on_error h err (clear_client c, l1\<lparr>kern := k\<rparr>)))
                    else (gone, c, l1\<lparr>kern := k\<rparr>)
        else (gone, c, l))"

definition client_disconnect :: "'k client_handler \<Rightarrow> bool \<Rightarrow> 'k client_state \<Rightarrow> 'k client_state" where
  "client_disconnect h gone st = (case st of (c, l) \<Rightarrow> if gone then cl_on_disconnect h (clear_client c, l) else (c, l))"

definition client_event :: "'k os \<Rightarrow> 'k client_handler \<Rightarrow> EventType \<Rightarrow> 'k client_state \<Rightarrow> (fault + 'k client_state) option" where
  "client_event os h types st =
     (case client_read os types st of
        None \<Rightarrow> None
      | Some st1 \<Rightarrow>
          (case client_write os types st1 of
             None \<Rightarrow> None
           | Some st2 \<Rightarrow>
               (case client_error os h types st2 of (gone, c3, l3) \<Rightarrow>
                  (case split_loop (cl_on_split h c3) (cl_on_fragment h c3) (cl_recv_buf c3) l3 of
                     None \<Rightarrow> None
                   | Some (Inl f) \<Rightarrow> Some (Inl f)
                   | Some (Inr (rbuf, l4)) \<Rightarrow> Some (Inr (client_disconnect h gone (c3\<lparr>cl_recv_buf := rbuf\<rparr>, l4)))))))"

section \<open>Steps\<close>



text \<open>
  \<open>connect\<close> runs on a thread of the user, the closure of \<open>post_send_task\<close> on the io thread: what each
  does between two accesses to a field that the other one shares is one step. That the steps of one
  thread alone are \<open>client_connect\<close> and \<open>client_send_closure\<close> is part of the property about them.
\<close>

datatype connect_at = ConnectClaim | ConnectCall | ConnectSet | StartClaim | StartLook | StartWatch EventType | ConnectOver

fun connect_next :: "'k os \<Rightarrow> 'k client_handler \<Rightarrow> errno \<Rightarrow> InetAddr \<Rightarrow> u64 \<Rightarrow> connect_at \<times> 'k client_state \<Rightarrow>
    connect_at \<times> 'k client_state" where
  "connect_next os h after_log addr timeout_ms (ConnectClaim, c, l) =
     (if connected c \<noteq> ConnDisconnected then (ConnectOver, c, l) else (ConnectCall, c\<lparr>connected := ConnConnecting\<rparr>, l))"
| "connect_next os h after_log addr timeout_ms (ConnectCall, c, l) =
     (let (fd, l1) = get_fd (stream_channel c) l
      in case os_connect os fd (get_sockaddr addr) (get_socklen addr) (kern l1) of
           (Inr _, k) \<Rightarrow> (ConnectSet, c, l1\<lparr>kern := k\<rparr>)
         | (Inl err, k) \<Rightarrow> (ConnectOver, connect_waits os h after_log timeout_ms err (c, l1\<lparr>kern := k\<rparr>)))"
| "connect_next os h after_log addr timeout_ms (ConnectSet, c, l) = (StartClaim, c\<lparr>connected := ConnConnected\<rparr>, l)"
| "connect_next os h after_log addr timeout_ms (StartClaim, c, l) =
     (if cl_started c then (ConnectOver, c, l) else (StartLook, c\<lparr>cl_started := True\<rparr>, l))"
| "connect_next os h after_log addr timeout_ms (StartLook, c, l) = (StartWatch (start_types c), c, l)"
| "connect_next os h after_log addr timeout_ms (StartWatch types, st) = (ConnectOver, start_watch os types st)"
| "connect_next os h after_log addr timeout_ms (ConnectOver, st) = (ConnectOver, st)"

datatype send_at = SendTest | SendQueue | SendNow | SendOver

fun send_next :: "'k os \<Rightarrow> byte list \<Rightarrow> send_at \<times> 'k client_state \<Rightarrow> send_at \<times> 'k client_state" where
  "send_next os bytes (SendTest, c, l) =
     (if \<not> sb_empty (cl_send_buf c) \<or> connected c \<noteq> ConnConnected then (SendQueue, c, l) else (SendNow, c, l))"
| "send_next os bytes (SendQueue, c, l) = (SendOver, c\<lparr>cl_send_buf := sb_insert bytes (cl_send_buf c)\<rparr>, l)"
| "send_next os bytes (SendNow, c, l) =
     (case send_or_queue os False bytes (stream_channel c) (cl_send_buf c) l of
        (ch, sbuf, l') \<Rightarrow> (SendOver, c\<lparr>stream_channel := ch, cl_send_buf := sbuf\<rparr>, l'))"
| "send_next os bytes (SendOver, st) = (SendOver, st)"

inductive race_step :: "(connect_at \<times> 'k client_state \<Rightarrow> connect_at \<times> 'k client_state) \<Rightarrow>
    (send_at \<times> 'k client_state \<Rightarrow> send_at \<times> 'k client_state) \<Rightarrow>
    connect_at \<times> send_at \<times> 'k client_state \<Rightarrow> connect_at \<times> send_at \<times> 'k client_state \<Rightarrow> bool" for user io where
  user_moves: "user (u, st) = (u', st') \<Longrightarrow> race_step user io (u, s, st) (u', s, st')"
| io_moves: "io (s, st) = (s', st') \<Longrightarrow> race_step user io (u, s, st) (u, s', st')"

section \<open>Invariant\<close>

text \<open>
  Buffers and channels are well formed; only a connected client is started; and when a connected
  client is started, bytes wait only while the write event is watched.
\<close>

definition client_inv :: "StreamClientSocket \<Rightarrow> bool" where
  "client_inv c \<longleftrightarrow> sb_invar (cl_recv_buf c) \<and> sb_invar (cl_send_buf c) \<and> \<not> invalid_channel (stream_channel c) \<and>
     \<not> invalid_channel (connect_timer_channel c) \<and> (cl_started c \<longrightarrow> connected c = ConnConnected) \<and>
     (cl_started c \<longrightarrow> watch_ok (stream_channel c) (cl_send_buf c))"

text \<open>What the virtual functions do to the client: they stop it, as those of the TCP and unix clients do.\<close>

definition client_handler_ok :: "'k client_handler \<Rightarrow> bool" where
  "client_handler_ok h \<longleftrightarrow> (\<forall>err c l. fst (cl_on_error h err (c, l)) = c\<lparr>cl_started := False\<rparr>) \<and>
     (\<forall>c l. fst (cl_on_disconnect h (c, l)) = c\<lparr>cl_started := False\<rparr>) \<and>
     (\<forall>s bytes l. fst (cl_on_split h s bytes l) \<le> int (length bytes))"

lemma client_inv_clear: "client_inv c \<Longrightarrow> client_inv (clear_client c)"
  by (simp add: client_inv_def clear_client_def sb_clear_correct watch_ok_def)

lemma client_inv_idle:
  "client_inv c \<Longrightarrow> client_inv (c\<lparr>cl_started := False\<rparr>)"
  "client_inv c \<Longrightarrow> \<not> cl_started c \<Longrightarrow> client_inv (c\<lparr>connected := cs\<rparr>)"
  by (simp_all add: client_inv_def)

lemma client_inv_failed:
  "client_inv c \<Longrightarrow> client_inv (c\<lparr>connected := cs, cl_started := False\<rparr>)"
  "client_inv c \<Longrightarrow> client_inv (c\<lparr>cl_started := False, connected := cs\<rparr>)"
  by (simp_all add: client_inv_def)

lemma update_cb_channel:
  assumes "\<not> invalid_channel ch" and "update_event_cb os life types modes cb ch l = (ch', l')"
  shows "ch' = ch\<lparr>event_types := types, event_modes := modes\<rparr>" "\<not> invalid_channel ch'"
    "l' = enable_fd_cb os (ch_fd ch) types modes (life, cb) l"
  using assms by (auto simp: update_event_cb_def invalid_channel_def)

lemma start_watches: "\<not> sb_empty buf \<Longrightarrow>
  has_event (if sb_empty buf then event_or kRead kError else event_or (event_or kRead kWrite) kError) kWrite"
  by (simp add: has_event_def event_and_def event_or_def kWrite_def kRead_def kError_def)

lemma client_start_effect:
  assumes inv: "client_inv c" and conn: "connected c = ConnConnected"
    and s: "client_start os (c, l) = (c', l')"
  shows "client_inv c'" "cl_started c'" "connected c' = ConnConnected" "cl_send_buf c' = cl_send_buf c"
proof -
  have "client_inv c' \<and> cl_started c' \<and> connected c' = ConnConnected \<and> cl_send_buf c' = cl_send_buf c"
  proof (cases "cl_started c")
    case False
    let ?types = "if sb_empty (cl_send_buf c) then event_or kRead kError else event_or (event_or kRead kWrite) kError"
    obtain ch where u: "update_event_cb os (cl_self c) ?types kDefault (ClientEvent (cl_self c)) (stream_channel c) l = (ch, l')"
      and c': "c' = c\<lparr>cl_started := True, stream_channel := ch\<rparr>"
      using s False by (auto simp: client_start_def start_watch_def start_types_def Let_def split: prod.splits)
    have "\<not> invalid_channel (stream_channel c)" using inv by (simp add: client_inv_def)
    note U = update_cb_channel [OF this u]
    have "watch_ok ch (cl_send_buf c)"
      using U(1) start_watches [of "cl_send_buf c"] sb_empty_iff inv by (auto simp: watch_ok_def client_inv_def)
    then show ?thesis using inv conn U(2) by (simp add: c' client_inv_def)
  qed (use s inv conn in \<open>simp add: client_start_def start_watch_def start_types_def\<close>)
  then show "client_inv c'" "cl_started c'" "connected c' = ConnConnected" "cl_send_buf c' = cl_send_buf c" by blast+
qed



lemma connect_event_cases:
  assumes inv: "client_inv c" and w: "has_event types kWrite"
  shows "\<exists>k e. os_so_error os (ch_fd (stream_channel c)) (kern l) = (e, k) \<and>
    connect_event os h types (c, l) =
      (let l1 = disable_event os (connect_timer_channel c) (l\<lparr>kern := k\<rparr>)
       in case e of Some err \<Rightarrow> cl_on_error h err (c\<lparr>connected := ConnDisconnected\<rparr>, l1)
          | None \<Rightarrow> client_start os (c\<lparr>connected := ConnConnected\<rparr>, l1))"
proof -
  obtain e k where "os_so_error os (ch_fd (stream_channel c)) (kern l) = (e, k)" by fastforce
  moreover have "get_fd (stream_channel c) l = (ch_fd (stream_channel c), l)"
    using inv by (simp add: client_inv_def get_fd_valid)
  ultimately show ?thesis using w by (cases e) (simp_all add: connect_event_def)
qed

lemma client_inv_connected: "client_inv c \<Longrightarrow> client_inv (c\<lparr>connected := ConnConnected\<rparr>)"
  by (simp add: client_inv_def)




lemma client_read_returns:
  assumes doc: "stream_documented os inbox sent" and inv: "client_inv c"
  shows "\<exists>gone rbuf l'. client_read os types (c, l) = Some (gone, c\<lparr>cl_recv_buf := rbuf\<rparr>, l') \<and> sb_invar rbuf"
proof (cases "has_event types kRead")
  case True
  have "\<not> invalid_channel (stream_channel c)" "sb_invar (cl_recv_buf c)" using inv by (auto simp: client_inv_def)
  from recv_loop_returns [OF doc this, of l] True show ?thesis by (auto simp: client_read_def)
next
  case False
  then show ?thesis using inv
    by (auto simp: client_read_def client_inv_def intro!: exI [of _ False] exI [of _ "cl_recv_buf c"] exI [of _ l])
qed

text \<open>Fields that the callback of a started client leaves alone.\<close>

definition same_client :: "StreamClientSocket \<Rightarrow> StreamClientSocket \<Rightarrow> bool" where
  "same_client c c' \<longleftrightarrow> connected c' = connected c \<and> cl_self c' = cl_self c \<and>
     connect_timer_channel c' = connect_timer_channel c \<and> ch_fd (stream_channel c') = ch_fd (stream_channel c)"

lemma client_write_returns:
  assumes doc: "stream_documented os inbox sent" and wake: "wake_silent os sent" and inv: "client_inv c"
  shows "\<exists>gone' c' l'. client_write os types (gone, c, l) = Some (gone', c', l') \<and> client_inv c' \<and> same_client c c'"
proof (cases "has_event types kWrite")
  case True
  have st: "\<not> invalid_channel (stream_channel c)" "sb_invar (cl_send_buf c)"
    "cl_started c \<longrightarrow> watch_ok (stream_channel c) (cl_send_buf c)" and r: "sb_invar (cl_recv_buf c)"
    using inv by (auto simp: client_inv_def)
  from send_loop_ends [OF doc wake st, of "cl_recv_buf c" l] obtain gone1 ch' sbuf' rbuf' l' where
    "send_loop os (stream_channel c) (cl_send_buf c) (cl_recv_buf c) l = Some (gone1, ch', sbuf', rbuf', l')"
    "sb_invar sbuf'" "cl_started c \<longrightarrow> watch_ok ch' sbuf'" "\<not> invalid_channel ch'" "ch_fd ch' = ch_fd (stream_channel c)"
    "rbuf' \<in> {cl_recv_buf c, sb_clear (cl_recv_buf c)}" by blast
  then show ?thesis using True r inv sb_clear_correct [OF r] by (auto simp: client_write_def client_inv_def same_client_def)
qed (use inv in \<open>simp add: client_write_def same_client_def\<close>)

lemma client_error_keeps:
  assumes h: "client_handler_ok h" and inv: "client_inv c"
    and e: "client_error os h types (gone, c, l) = (gone', c', l')"
  shows "client_inv c' \<and> same_client c c' \<and> (c' = c \<or> c' = (clear_client c)\<lparr>cl_started := False\<rparr>)"
proof -
  obtain fd l1 where fd: "get_fd (stream_channel c) l = (fd, l1)" by fastforce
  obtain r k where r: "os_so_error os fd (kern l1) = (r, k)" by fastforce
  show ?thesis
  proof (cases "\<exists>err. r = Some err \<and> err \<noteq> ECONNRESET \<and> err \<noteq> EPIPE \<and> has_event types kError")
    case True
    then obtain err where "cl_on_error h err (clear_client c, l1\<lparr>kern := k\<rparr>) = (c', l')"
      using e fd r by (auto simp: client_error_def)
    then have "c' = (clear_client c)\<lparr>cl_started := False\<rparr>" using h unfolding client_handler_ok_def by (metis fst_conv)
    then show ?thesis using client_inv_idle(1) [OF client_inv_clear [OF inv]] by (simp add: same_client_def clear_client_def)
  next
    case False
    then have "c' = c" using e fd r by (auto simp: client_error_def split: if_splits option.splits)
    then show ?thesis using inv by (simp add: same_client_def)
  qed
qed

lemma client_event_returns:
  assumes doc: "stream_documented os inbox sent" and wake: "wake_silent os sent" and h: "client_handler_ok h"
    and inv: "client_inv c"
  shows "\<exists>c' l'. client_event os h types (c, l) = Some (Inr (c', l')) \<and> client_inv c' \<and> same_client c c'"
proof -
  from client_read_returns [OF doc inv, of types l] obtain g1 rbuf l1 where
    R: "client_read os types (c, l) = Some (g1, c\<lparr>cl_recv_buf := rbuf\<rparr>, l1)" "sb_invar rbuf" by blast
  then have inv1: "client_inv (c\<lparr>cl_recv_buf := rbuf\<rparr>)" using inv by (simp add: client_inv_def)
  from client_write_returns [OF doc wake inv1, of types g1 l1] obtain g2 c2 l2 where
    W: "client_write os types (g1, c\<lparr>cl_recv_buf := rbuf\<rparr>, l1) = Some (g2, c2, l2)" "client_inv c2"
    "same_client (c\<lparr>cl_recv_buf := rbuf\<rparr>) c2" by blast
  obtain g3 c3 l3 where E: "client_error os h types (g2, c2, l2) = (g3, c3, l3)" by (metis prod.exhaust)
  note E' = client_error_keeps [OF h W(2) E]
  have buf3: "sb_invar (cl_recv_buf c3)" using E' by (simp add: client_inv_def)
  have bound: "\<And>bytes w. fst (cl_on_split h c3 bytes w) \<le> int (length bytes)"
    using h by (simp add: client_handler_ok_def)
  from split_loop_returns [where on_split = "cl_on_split h c3" and on_fragment = "cl_on_fragment h c3",
      OF bound buf3, of l3] obtain buf' l4 where
    S: "split_loop (cl_on_split h c3) (cl_on_fragment h c3) (cl_recv_buf c3) l3 = Some (Inr (buf', l4))"
    "sb_invar buf'" by blast
  let ?c4 = "c3\<lparr>cl_recv_buf := buf'\<rparr>"
  have "client_inv ?c4" using conjunct1 [OF E'] S(2) by (simp add: client_inv_def)
  moreover have "same_client c ?c4" using E' W(3) by (simp add: same_client_def)
  ultimately have inv4: "client_inv ?c4" "same_client c ?c4" .
  obtain c5 l5 where D: "client_disconnect h g3 (?c4, l4) = (c5, l5)" by fastforce
  have c5: "c5 = ?c4 \<or> c5 = (clear_client ?c4)\<lparr>cl_started := False\<rparr>"
  proof (cases g3)
    case True
    then have "cl_on_disconnect h (clear_client ?c4, l4) = (c5, l5)" using D by (simp add: client_disconnect_def)
    then show ?thesis using h unfolding client_handler_ok_def by (metis fst_conv)
  qed (use D in \<open>simp add: client_disconnect_def\<close>)
  then have "client_inv c5 \<and> same_client c c5"
    using inv4 client_inv_idle(1) [OF client_inv_clear [OF inv4(1)]] by (auto simp: same_client_def clear_client_def)
  then show ?thesis using R(1) W(1) E S(1) D by (simp add: client_event_def)
qed


section \<open>Properties\<close>


text \<open>What the constructor makes satisfies the invariant.\<close>

lemma constructed_client_inv:
  assumes "construct_StreamClientSocket os self local l = Inr (c, l')" and "fds_nonneg os"
  shows "client_inv c"
proof -
  obtain sch tch l1 l2 where m: "make_stream_client_channel os local l = (Some sch, l1)"
    "make_net_timer_channel os 0 0 l1 = (Some tch, l2)"
    and c: "stream_channel c = fst (move_LoopChannel sch)" "connect_timer_channel c = fst (move_LoopChannel tch)"
      "cl_recv_buf c = make_StreamBuffer UINT16_MAX" "cl_send_buf c = make_StreamBuffer UINT16_MAX" "\<not> cl_started c"
    using assms(1) by (auto simp: construct_StreamClientSocket_def split: prod.splits option.splits)
  have sock: "\<And>k fd fam stream. fst (os_socket os fam stream k) = Inr fd \<Longrightarrow> 0 \<le> fd"
    and timer: "\<And>k fd. fst (os_timerfd_create os k) = Inr fd \<Longrightarrow> 0 \<le> fd"
    using assms(2) by (auto simp: fds_nonneg_def)
  have "owns_result (fst (os_socket os (sa_family (get_sockaddr local)) True (kern l))) l (make_stream_client_channel os local l)"
    unfolding make_stream_client_channel_def Let_def by (rule open_channel_owns) (rule sock)
  then have s: "\<not> invalid_channel sch" by (auto simp: m owns_result_def split: sum.splits)
  have "owns_result (fst (os_timerfd_create os (kern l1))) l1 (make_net_timer_channel os 0 0 l1)"
    unfolding make_net_timer_channel_def by (rule open_channel_owns) (rule timer)
  then have "\<not> invalid_channel tch" by (auto simp: m owns_result_def split: sum.splits)
  with s show ?thesis using c by (simp add: client_inv_def invalid_channel_def move_LoopChannel_def)
qed

definition demo_client :: StreamClientSocket where
  "demo_client = \<lparr>cl_recv_buf = make_StreamBuffer 8, cl_send_buf = make_StreamBuffer 8, stream_channel = demo_channel,
     connect_timer_channel = demo_channel\<lparr>ch_fd := 6\<rparr>, cl_started = False, connected = ConnDisconnected, cl_self = 7\<rparr>"

definition demo_client_handler :: "kstate client_handler" where
  "demo_client_handler = \<lparr>cl_on_split = (\<lambda>s bytes l. (if length bytes < 2 then 0 else 2, l)),
     cl_on_fragment = (\<lambda>c f l. post_heavy_task (WrapperTask (cl_self c) (ClientFragment (cl_self c) f)) l),
     cl_on_error = (\<lambda>err. client_stop ref_os), cl_on_disconnect = client_stop ref_os\<rparr>"

definition demo_client_loop :: "kstate client_loop" where
  "demo_client_loop = make_Loop 3 4 (k_init\<lparr>k_open := [5, 6]\<rparr>) {7}"

lemma demo_client_ok: "client_inv demo_client" "client_handler_ok demo_client_handler"
  using demo_channel_valid
  by (auto simp: client_inv_def demo_client_def invalid_channel_def client_handler_ok_def demo_client_handler_def client_stop_def)

lemma ref_os_wake_sent: "wake_silent ref_os k_sent"
  by (auto simp: wake_silent_def ref_os_def)


text \<open>
  C29. Messages posted before the connection stands are kept. While the client is not connected, the
  closures of any number of messages queue them whole and in order and send nothing. When the socket
  then becomes writable without an error, the client is connected and started, the messages are all
  still queued, and the write event is asked for, with the callback that sends them.
\<close>

fun post_all :: "'k os \<Rightarrow> byte list list \<Rightarrow> 'k client_state \<Rightarrow> 'k client_state" where
  "post_all os [] st = st"
| "post_all os (bytes # rest) st = post_all os rest (client_send_closure os bytes st)"

lemma post_all_queues:
  "sb_invar (cl_send_buf c) \<Longrightarrow> connected c \<noteq> ConnConnected \<or> sb_contents (cl_send_buf c) \<noteq> [] \<Longrightarrow>
   \<exists>sbuf. post_all os ms (c, l) = (c\<lparr>cl_send_buf := sbuf\<rparr>, l) \<and> sb_invar sbuf \<and>
     sb_contents sbuf = sb_contents (cl_send_buf c) @ concat ms"
proof (induction ms arbitrary: c)
  case (Cons m ms)
  let ?c = "c\<lparr>cl_send_buf := sb_insert m (cl_send_buf c)\<rparr>"
  have w: "\<not> sb_empty (cl_send_buf c) \<or> connected c \<noteq> ConnConnected"
    using Cons.prems sb_empty_iff by auto
  then have s: "client_send_closure os m (c, l) = (?c, l)"
    by (simp add: client_send_closure_def send_or_queue_def)
  have i: "sb_invar (cl_send_buf ?c)" "sb_contents (cl_send_buf ?c) = sb_contents (cl_send_buf c) @ m"
    using Cons.prems(1) by (simp_all add: sb_insert_invar sb_insert_contents)
  then have "connected ?c \<noteq> ConnConnected \<or> sb_contents (cl_send_buf ?c) \<noteq> []" using Cons.prems(2) by auto
  from Cons.IH [OF i(1) this] s i(2) show ?case by auto
next
  case Nil
  then show ?case by (intro exI [of _ "cl_send_buf c"]) simp
qed



text \<open>
  A timeout does not end the attempt. The timeout of a connecting client reports \<open>ETIMEDOUT\<close> and
  goes back to the disconnected state, but the callback of the socket does not look at the state: if the
  socket then becomes writable, before its event is taken from epoll, the client is connected and
  started although its user was told that the connection failed.
\<close>

theorem timeout_then_connected:
  assumes "client_inv c" and "connected c = ConnConnecting" and "counter_documented os cnt" and "client_handler_ok h"
    and "\<And>k. fst (os_so_error os (ch_fd (stream_channel c)) k) = None" and "has_event types kWrite"
  shows "\<exists>l1 c2 l2 c3 l3. connect_timeout os h (c, l) = Some (cl_on_error h ETIMEDOUT (c\<lparr>connected := ConnDisconnected\<rparr>, l1)) \<and>
    cl_on_error h ETIMEDOUT (c\<lparr>connected := ConnDisconnected\<rparr>, l1) = (c2, l2) \<and> connected c2 = ConnDisconnected \<and>
    connect_event os h types (c2, l2) = (c3, l3) \<and> connected c3 = ConnConnected \<and> cl_started c3"
proof -
  have "get_fd (connect_timer_channel c) l = (ch_fd (connect_timer_channel c), l)"
    using assms(1) by (simp add: client_inv_def get_fd_valid)
  moreover obtain k where "drain_counter os (ch_fd (connect_timer_channel c)) (kern l) = Some (EAGAIN, k)"
    using drain_counter_returns [OF assms(3)] by blast
  ultimately have t: "connect_timeout os h (c, l) =
      Some (cl_on_error h ETIMEDOUT (c\<lparr>connected := ConnDisconnected\<rparr>, disable_event os (connect_timer_channel c) (l\<lparr>kern := k\<rparr>)))"
    using assms(2) by (simp add: connect_timeout_def Let_def)
  let ?l1 = "disable_event os (connect_timer_channel c) (l\<lparr>kern := k\<rparr>)"
  obtain c2 l2 where e: "cl_on_error h ETIMEDOUT (c\<lparr>connected := ConnDisconnected\<rparr>, ?l1) = (c2, l2)" by fastforce
  then have c2: "c2 = c\<lparr>connected := ConnDisconnected, cl_started := False\<rparr>"
    using assms(4) unfolding client_handler_ok_def by (metis fst_conv)
  have inv2: "client_inv c2" unfolding c2 by (rule client_inv_failed(1) [OF assms(1)])
  have "stream_channel c2 = stream_channel c" by (simp add: c2)
  then have no_err: "fst (os_so_error os (ch_fd (stream_channel c2)) (kern l2)) = None" using assms(5) by simp
  obtain l3 where ev: "connect_event os h types (c2, l2) = client_start os (c2\<lparr>connected := ConnConnected\<rparr>, l3)"
    using connect_event_cases [OF inv2 assms(6), of os l2 h] no_err by auto
  obtain c3 l4 where s: "client_start os (c2\<lparr>connected := ConnConnected\<rparr>, l3) = (c3, l4)" by fastforce
  have "connected c2 = ConnDisconnected" by (simp add: c2)
  with client_start_effect(2,3) [OF client_inv_connected [OF inv2] _ s] t e ev s show ?thesis
    by (intro exI [of _ ?l1] exI [of _ c2] exI [of _ l2] exI [of _ c3] exI [of _ l4]) simp
qed

theorem timeout_then_connected_witness:
  "\<exists>st1 st2. connect_timeout ref_os demo_client_handler (demo_client\<lparr>connected := ConnConnecting\<rparr>, demo_client_loop) = Some st1 \<and>
     connect_event ref_os demo_client_handler kWrite st1 = st2 \<and> connected (fst st2) = ConnConnected"
proof -
  let ?c = "demo_client\<lparr>connected := ConnConnecting\<rparr>"
  have inv: "client_inv ?c" using demo_client_ok(1) by (simp add: client_inv_def demo_client_def)
  have "fst (os_so_error ref_os (ch_fd (stream_channel ?c)) k) = None" for k by (simp add: ref_os_def)
  moreover have "has_event kWrite kWrite" by (simp add: has_event_def event_and_def)
  ultimately show ?thesis
    using timeout_then_connected [OF inv _ ref_os_counter demo_client_ok(2), where types = kWrite and l = demo_client_loop] by fastforce
qed

text \<open>
  No reconnection. Neither the event callback nor \<open>stop\<close> leaves the connected state, even when the
  peer has gone and \<open>on_disconnect\<close> has run; and \<open>connect\<close> does nothing in that state. So once it has
  been connected, a client ignores every later \<open>connect\<close>: no system call, no error report.
\<close>

theorem connect_after_disconnect_ignored:
  assumes "stream_documented os inbox sent" and "wake_silent os sent" and "client_handler_ok h" and "client_inv c"
    and "connected c = ConnConnected"
  shows "\<exists>c' l'. client_event os h types (c, l) = Some (Inr (c', l')) \<and> connected c' = ConnConnected \<and>
    client_connect os h after_log addr timeout_ms (c', l') = (c', l') \<and>
    client_connect os h after_log addr timeout_ms (client_stop os (c', l')) = client_stop os (c', l')"
proof -
  from client_event_returns [OF assms(1-4), of types l] obtain c' l' where
    "client_event os h types (c, l) = Some (Inr (c', l'))" "same_client c c'" by blast
  then show ?thesis using assms(5)
    by (intro exI [of _ c'] exI [of _ l']) (simp add: same_client_def client_connect_def connect_waits_def client_stop_def)
qed

theorem connect_after_disconnect_ignored_witness:
  "\<exists>c' l'. client_event ref_os demo_client_handler kRead (demo_client\<lparr>connected := ConnConnected\<rparr>, demo_client_loop) =
     Some (Inr (c', l')) \<and> client_connect ref_os demo_client_handler EAGAIN demo_name 1000 (c', l') = (c', l')"
  using connect_after_disconnect_ignored [OF ref_os_stream ref_os_wake_sent demo_client_ok(2) client_inv_connected
      [OF demo_client_ok(1)], of kRead demo_client_loop EAGAIN demo_name 1000] by auto

lemma user_runs: "(user ^^ n) (u, st) = (u', st') \<Longrightarrow> (race_step user io)\<^sup>*\<^sup>* (u, s, st) (u', s, st')"
proof (induction n arbitrary: u' st')
  case (Suc n)
  obtain u1 st1 where m: "(user ^^ n) (u, st) = (u1, st1)" by (metis surj_pair)
  then have "race_step user io (u1, s, st1) (u', s, st')" using Suc.prems by (intro race_step.user_moves) simp
  with Suc.IH [OF m] show ?case by (rule rtranclp.rtrancl_into_rtrancl)
qed simp

text \<open>Alone, each thread does what the method and the closure do.\<close>

lemma connect_alone:
  "(connect_next os h after_log addr timeout_ms ^^ 6) (ConnectClaim, st) = (ConnectOver, client_connect os h after_log addr timeout_ms st)"
proof -
  obtain c l where st: "st = (c, l)" by fastforce
  let ?n = "connect_next os h after_log addr timeout_ms"
  have over: "(?n ^^ m) (ConnectOver, x) = (ConnectOver, x)" for m x by (induction m) simp_all
  have six: "(?n ^^ 6) x = (?n ^^ 4) (?n (?n x))" for x by (simp add: eval_nat_numeral funpow_swap1)
  obtain fd l1 where fd: "get_fd (stream_channel c) l = (fd, l1)" by fastforce
  obtain r k where r: "os_connect os fd (get_sockaddr addr) (get_socklen addr) (kern l1) = (r, k)" by fastforce
  have set: "(?n ^^ 4) (ConnectSet, x, y) = (ConnectOver, client_start os (x\<lparr>connected := ConnConnected\<rparr>, y))" for x y
    by (simp add: eval_nat_numeral client_start_def Let_def)
  show ?thesis unfolding six using over [of 4] set fd r
    by (cases r) (simp_all add: st client_connect_def Let_def)
qed

lemma send_alone: "(send_next os bytes ^^ 2) (SendTest, st) = (SendOver, client_send_closure os bytes st)"
  by (cases st) (auto simp: eval_nat_numeral client_send_closure_def send_or_queue_def split: prod.splits)

text \<open>
  C35. A lost message. The steps of \<open>connect\<close> and of the closure of a posted message, each thread alone,
  are \<open>client_connect\<close> and \<open>client_send_closure\<close>. But when \<open>connect\<close> succeeds at once on a user's thread
  while the io thread runs the closure, the steps can interleave so that the closure sees the old
  state and queues the message after \<open>start\<close> has looked at the empty buffer. The client is then
  connected and started with bytes waiting, and only reads and errors are asked for; and every later message
  only joins the queue, with nothing sent and nothing asked for.
\<close>

theorem immediate_connect_strands_message:
  fixes os :: "'k os" and h :: "'k client_handler" and after_log :: errno and timeout_ms :: u64
  assumes "client_inv c" and "connected c = ConnDisconnected" and "sb_contents (cl_send_buf c) = []" and "bytes \<noteq> []"
    and "os_connect os (ch_fd (stream_channel c)) (get_sockaddr addr) (get_socklen addr) (kern l) = (Inr (), k)"
  defines "user \<equiv> connect_next os h after_log addr timeout_ms" and "io \<equiv> send_next os bytes"
  shows "(\<forall>st. (user ^^ 6) (ConnectClaim, st) = (ConnectOver, client_connect os h after_log addr timeout_ms st)) \<and>
    (\<forall>st. (io ^^ 2) (SendTest, st) = (SendOver, client_send_closure os bytes st)) \<and>
    (\<exists>c' l'. (race_step user io)\<^sup>*\<^sup>* (ConnectClaim, SendTest, c, l) (ConnectOver, SendOver, c', l') \<and>
      connected c' = ConnConnected \<and> cl_started c' \<and> sb_contents (cl_send_buf c') = bytes \<and>
      \<not> has_event (event_types (stream_channel c')) kWrite \<and>
      io_buffer_queue l' = io_buffer_queue l @ [EnableCbTask (ch_fd (stream_channel c)) (event_or kRead kError) kDefault
        (cl_self c, ClientEvent (cl_self c))] \<and>
      (\<forall>ms. \<exists>sbuf. post_all os ms (c', l') = (c'\<lparr>cl_send_buf := sbuf\<rparr>, l') \<and> sb_contents sbuf = bytes @ concat ms))"
proof (intro conjI allI)
  show "(user ^^ 6) (ConnectClaim, st) = (ConnectOver, client_connect os h after_log addr timeout_ms st)" for st
    unfolding user_def by (rule connect_alone)
  show "(io ^^ 2) (SendTest, st) = (SendOver, client_send_closure os bytes st)" for st
    unfolding io_def by (rule send_alone)
  have inv: "sb_invar (cl_send_buf c)" "\<not> invalid_channel (stream_channel c)" and ns: "\<not> cl_started c"
    using assms(1,2) by (auto simp: client_inv_def)
  have empty: "sb_empty (cl_send_buf c)" using assms(3) sb_empty_iff [OF inv(1)] by simp
  let ?ch = "(stream_channel c)\<lparr>event_types := event_or kRead kError, event_modes := kDefault\<rparr>"
  let ?t = "EnableCbTask (ch_fd (stream_channel c)) (event_or kRead kError) kDefault (cl_self c, ClientEvent (cl_self c))"
  let ?c1 = "c\<lparr>connected := ConnConnected, cl_started := True, stream_channel := ?ch\<rparr>"
  let ?l1 = "post_io_task os ?t (l\<lparr>kern := k\<rparr>)"
  let ?c2 = "?c1\<lparr>cl_send_buf := sb_insert bytes (cl_send_buf c)\<rparr>"
  have conn: "client_connect os h after_log addr timeout_ms (c, l) = (?c1, ?l1)"
    using assms(2,5) inv(2) ns empty
    by (simp add: client_connect_def client_start_def start_watch_def start_types_def get_fd_valid update_event_cb_def
        enable_fd_cb_def Let_def)
  have "race_step user io (ConnectClaim, SendTest, c, l) (ConnectClaim, SendQueue, c, l)"
    using assms(2) by (intro race_step.io_moves) (simp add: io_def)
  moreover have "(race_step user io)\<^sup>*\<^sup>* (ConnectClaim, SendQueue, c, l) (ConnectOver, SendQueue, ?c1, ?l1)"
    by (rule user_runs [where n = 6]) (simp only: user_def connect_alone conn)
  moreover have "race_step user io (ConnectOver, SendQueue, ?c1, ?l1) (ConnectOver, SendOver, ?c2, ?l1)"
    by (intro race_step.io_moves) (simp add: io_def)
  ultimately have "(race_step user io)\<^sup>*\<^sup>* (ConnectClaim, SendTest, c, l) (ConnectOver, SendOver, ?c2, ?l1)"
    by (meson converse_rtranclp_into_rtranclp rtranclp.rtrancl_into_rtrancl)
  moreover have i2: "sb_invar (cl_send_buf ?c2)" "sb_contents (cl_send_buf ?c2) = bytes"
    using inv(1) assms(3) by (simp_all add: sb_insert_invar sb_insert_contents)
  moreover have "\<not> has_event (event_types (stream_channel ?c2)) kWrite"
    by (simp add: has_event_def event_and_def event_or_def kWrite_def kRead_def kError_def)
  moreover have "\<exists>sbuf. post_all os ms (?c2, ?l1) = (?c2\<lparr>cl_send_buf := sbuf\<rparr>, ?l1) \<and> sb_contents sbuf = bytes @ concat ms" for ms
    using post_all_queues [OF i2(1), of os ms ?l1] i2(2) assms(4) by auto
  ultimately show "\<exists>c' l'. (race_step user io)\<^sup>*\<^sup>* (ConnectClaim, SendTest, c, l) (ConnectOver, SendOver, c', l') \<and>
      connected c' = ConnConnected \<and> cl_started c' \<and> sb_contents (cl_send_buf c') = bytes \<and>
      \<not> has_event (event_types (stream_channel c')) kWrite \<and> io_buffer_queue l' = io_buffer_queue l @ [?t] \<and>
      (\<forall>ms. \<exists>sbuf. post_all os ms (c', l') = (c'\<lparr>cl_send_buf := sbuf\<rparr>, l') \<and> sb_contents sbuf = bytes @ concat ms)"
    by (intro exI [of _ ?c2] exI [of _ ?l1]) simp
qed

theorem immediate_connect_strands_message_witness:
  "\<exists>os :: kstate os. \<exists>c' l'. (race_step (connect_next os demo_client_handler EAGAIN demo_name 1000) (send_next os [1]))\<^sup>*\<^sup>*
     (ConnectClaim, SendTest, demo_client, demo_client_loop) (ConnectOver, SendOver, c', l') \<and> sb_contents (cl_send_buf c') = [1]"
proof -
  let ?os = "ref_os\<lparr>os_connect := (\<lambda>fd sa len k. (Inr (), k))\<rparr>"
  have c: "client_inv demo_client" "connected demo_client = ConnDisconnected" "sb_contents (cl_send_buf demo_client) = []"
    using demo_client_ok(1) by (simp_all add: demo_client_def sb_contents_make)
  have os: "os_connect ?os (ch_fd (stream_channel demo_client)) (get_sockaddr demo_name) (get_socklen demo_name) (kern demo_client_loop) =
      (Inr (), kern demo_client_loop)"
    by simp
  have "[1 :: byte] \<noteq> []" by simp
  from immediate_connect_strands_message [OF c this os, of demo_client_handler EAGAIN 1000] show ?thesis by blast
qed

end
