(* ===== verification/Stream_Callbacks.thy ===== *)
theory Stream_Callbacks
  imports Stream_Server Stream_Client
begin

text \<open>
  What the TCP and the unix classes have in common: they fill in the virtual functions of the stream
  sockets with callbacks that users register. A registered callback is a number; what it does is
  a record of functions. The contract of such a class is a locale, with what follows for the
  sockets: the handlers are the ones the stream theorems ask for, frames reach the heavy thread, and
  failures are reported.
\<close>

section \<open>User callbacks\<close>

record 'k client_user =
  cu_split :: "nat \<Rightarrow> StreamClientSocket \<Rightarrow> byte list \<Rightarrow> 'k client_loop \<Rightarrow> int \<times> 'k client_loop"
  cu_notify :: "nat \<Rightarrow> 'k client_state \<Rightarrow> 'k client_state"
  cu_fragment :: "nat \<Rightarrow> LifeChecker \<Rightarrow> byte list \<Rightarrow> 'k client_loop \<Rightarrow> 'k client_loop"

record 'k server_user =
  su_split :: "nat \<Rightarrow> StreamSession \<Rightarrow> byte list \<Rightarrow> 'k stream_loop \<Rightarrow> int \<times> 'k stream_loop"
  su_notify :: "nat \<Rightarrow> StreamSession \<Rightarrow> 'k stream_loop \<Rightarrow> 'k stream_loop"
  su_fragment :: "nat \<Rightarrow> LifeChecker \<Rightarrow> byte list \<Rightarrow> 'k stream_loop \<Rightarrow> 'k stream_loop"

text \<open>A callback claims no more bytes than it was shown, and leaves the objects of the library alone.\<close>

definition client_user_ok :: "'k client_user \<Rightarrow> bool" where
  "client_user_ok u \<longleftrightarrow> (\<forall>cb c bytes l. fst (cu_split u cb c bytes l) \<le> int (length bytes)) \<and>
     (\<forall>cb st. fst (cu_notify u cb st) = fst st)"

definition server_user_ok :: "('k \<Rightarrow> fd set) \<Rightarrow> 'k server_user \<Rightarrow> bool" where
  "server_user_ok opened u \<longleftrightarrow> (\<forall>cb ss bytes l. fst (su_split u cb ss bytes l) \<le> int (length bytes) \<and>
     calm opened l (snd (su_split u cb ss bytes l)) \<and> calm opened l (su_notify u cb ss l))"

section \<open>The contract of a client class\<close>

text \<open>How a failure ends: it is logged, the client is stopped, and the user is told of some errors.\<close>

definition fail_client :: "'k os \<Rightarrow> 'k client_user \<Rightarrow> string \<Rightarrow> (errno \<Rightarrow> bool) \<Rightarrow> nat option \<Rightarrow> errno \<Rightarrow>
    'k client_state \<Rightarrow> 'k client_state" where
  "fail_client os u msg reported cb err st =
     (let st' = client_stop os (fst st, write_log (LogCode msg err) (snd st))
      in case cb of None \<Rightarrow> st' | Some n \<Rightarrow> if reported err then cu_notify u n st' else st')"

lemma client_stop_object [simp]: "fst (client_stop os (c, l)) = c\<lparr>cl_started := False\<rparr>"
  by (simp add: client_stop_def)

lemma client_user_okD: "client_user_ok u \<Longrightarrow> fst (cu_notify u cb st) = fst st"
  "client_user_ok u \<Longrightarrow> fst (cu_split u cb c bytes l) \<le> int (length bytes)"
  unfolding client_user_ok_def by blast+

lemma fail_client_object: "client_user_ok u \<Longrightarrow> fst (fail_client os u msg reported cb err (c, l)) = c\<lparr>cl_started := False\<rparr>"
  by (simp add: fail_client_def client_user_okD(1) Let_def split: option.splits)

locale client_class =
  fixes os :: "'k os" and u :: "'k client_user" and msg :: string and reported :: "errno \<Rightarrow> bool"
    and handler :: "'t \<Rightarrow> 'k client_handler"
    and split_cb :: "'t \<Rightarrow> nat option" and fragment_cb :: "'t \<Rightarrow> nat option"
    and error_cb :: "'t \<Rightarrow> nat option" and disconnect_cb :: "'t \<Rightarrow> nat option"
  assumes split: "cl_on_split (handler t) c bytes l = (case split_cb t of None \<Rightarrow> (0, l) | Some cb \<Rightarrow> cu_split u cb c bytes l)"
    and fragment: "cl_on_fragment (handler t) c f l = (case fragment_cb t of None \<Rightarrow> l
      | Some cb \<Rightarrow> channel_post_heavy_task (cl_self c) (ClientFragment (cl_self c) f) (stream_channel c) l)"
    and error: "cl_on_error (handler t) err st = fail_client os u msg reported (error_cb t) err st"
    and disconnect: "cl_on_disconnect (handler t) st = (case disconnect_cb t of None \<Rightarrow> client_stop os st
      | Some cb \<Rightarrow> cu_notify u cb (client_stop os st))"
begin

lemma handler_ok: "client_user_ok u \<Longrightarrow> client_handler_ok (handler t)"
  by (simp add: client_handler_ok_def split error disconnect fail_client_object client_user_okD split: option.splits)

text \<open>A connection attempt that fails, by an error of the socket or by the timeout.\<close>

lemma connect_failure:
  assumes "has_event types kWrite" and "\<not> invalid_channel (stream_channel c)"
    and "os_so_error os (ch_fd (stream_channel c)) (kern l) = (Some err, k)"
  shows "connect_event os (handler t) types (c, l) = fail_client os u msg reported (error_cb t) err
    (c\<lparr>connected := ConnDisconnected\<rparr>, disable_event os (connect_timer_channel c) (l\<lparr>kern := k\<rparr>))"
  using assms by (simp add: connect_event_def get_fd_valid error)

lemma connect_late:
  assumes "counter_documented os cnt" and "connected c \<noteq> ConnConnected" and "\<not> invalid_channel (connect_timer_channel c)"
  shows "\<exists>k. connect_timeout os (handler t) (c, l) = Some (fail_client os u msg reported (error_cb t) ETIMEDOUT
    (c\<lparr>connected := ConnDisconnected\<rparr>, disable_event os (connect_timer_channel c) (l\<lparr>kern := k\<rparr>)))"
proof -
  obtain k where "drain_counter os (ch_fd (connect_timer_channel c)) (kern l) = Some (EAGAIN, k)"
    using drain_counter_returns [OF assms(1)] by blast
  then show ?thesis using assms(2,3) by (intro exI [of _ k]) (simp add: connect_timeout_def get_fd_valid error)
qed

end

section \<open>The contract of a server class\<close>

definition fail_session :: "'k os \<Rightarrow> 'k server_user \<Rightarrow> string \<Rightarrow> (errno \<Rightarrow> bool) \<Rightarrow> nat option \<Rightarrow> errno \<Rightarrow>
    StreamSession \<Rightarrow> 'k stream_loop \<Rightarrow> 'k stream_loop" where
  "fail_session os u msg reported cb err ss l =
     (let l' = session_stop os ss (write_log (LogCode msg err) l)
      in case cb of None \<Rightarrow> l' | Some n \<Rightarrow> if reported err then su_notify u n ss l' else l')"

lemma session_stop_calm: "keeps_open os opened \<Longrightarrow> calm opened l (session_stop os ss l)"
  unfolding session_stop_def by (rule calm_trans [OF calm_channel(3) calm_channel(4)])

text \<open>Frames posted one by one, by a split that only looks.\<close>

lemma deliver_posts:
  assumes "\<And>bytes w. snd (sp bytes w) = w" and "\<And>f w. fr f w = post_heavy_task (task f) w"
  shows "deliver sp fr bytes frames w = fold (\<lambda>f. post_heavy_task (task f)) frames w"
  using assms by (induction frames arbitrary: bytes w) simp_all

lemma fold_posts: "heavy_buffer_queue (fold (\<lambda>f. post_heavy_task (task f)) frames w) = heavy_buffer_queue w @ map task frames"
  by (induction frames arbitrary: w) (simp_all add: post_heavy_task_def wake_heavy_up_def)

lemma after_reads_heavy [simp]: "heavy_buffer_queue (after_reads e l) = heavy_buffer_queue l"
  by (simp add: after_reads_def write_log_def split: read_end.split)

lemma wake_heavy_queue [simp]: "heavy_buffer_queue (wake_io_up os l) = heavy_buffer_queue l"
  by (auto simp: wake_io_up_def split: prod.splits sum.splits)

locale server_class =
  fixes os :: "'k os" and u :: "'k server_user" and msg :: string and reported :: "errno \<Rightarrow> bool"
    and handler :: "'t \<Rightarrow> 'k session_handler"
    and split_cb :: "'t \<Rightarrow> nat option" and fragment_cb :: "'t \<Rightarrow> nat option"
    and error_cb :: "'t \<Rightarrow> nat option" and disconnect_cb :: "'t \<Rightarrow> nat option"
  assumes split: "on_split (handler t) ss bytes l = (case split_cb t of None \<Rightarrow> (0, l) | Some cb \<Rightarrow> su_split u cb ss bytes l)"
    and fragment: "on_fragment (handler t) ss f l = (case fragment_cb t of None \<Rightarrow> l
      | Some cb \<Rightarrow> channel_post_heavy_task (ss_self ss) (FragmentTask (ss_self ss) f) (session_channel ss) l)"
    and error: "on_session_error (handler t) err ss l = fail_session os u msg reported (error_cb t) err ss l"
    and disconnect: "on_disconnect (handler t) ss l = (case disconnect_cb t of None \<Rightarrow> session_stop os ss l
      | Some cb \<Rightarrow> su_notify u cb ss (session_stop os ss l))"
begin

lemma handler_ok:
  assumes "server_user_ok opened u" and "keeps_open os opened"
  shows "handler_ok opened (handler t)"
proof -
  have u: "calm opened l (snd (su_split u cb ss bytes l))" "calm opened l (su_notify u cb ss l)"
    "fst (su_split u cb ss bytes l) \<le> int (length bytes)" for cb ss bytes l
    using assms(1) by (simp_all add: server_user_ok_def)
  have stop: "calm opened l (session_stop os ss l)" for ss l by (rule session_stop_calm [OF assms(2)])
  have post: "calm opened l (channel_post_heavy_task life task ch l)" for life task ch and l :: "'k stream_loop"
    by (simp add: channel_post_heavy_task_def post_heavy_task_def wake_heavy_up_def calm_log) (simp add: calm_def)
  have "calm opened l (fail_session os u msg reported (error_cb t) err ss l)" for err ss l
    using calm_trans [OF calm_log(1) stop] calm_trans [OF calm_trans [OF calm_log(1) stop] u(2)]
    by (simp add: fail_session_def Let_def split: option.splits)
  moreover have "calm opened l (on_disconnect (handler t) ss l)" for ss l
    using stop calm_trans [OF stop u(2)] by (simp add: disconnect split: option.splits)
  ultimately show ?thesis using u post
    by (simp add: handler_ok_def handler_calm_def split fragment error split: option.splits)
qed

lemma split_bounded: "server_user_ok opened u \<Longrightarrow> fst (on_split (handler t) ss bytes l) \<le> int (length bytes)"
  by (simp add: split server_user_ok_def split: option.splits)

text \<open>
  A read event of a session: what was buffered and what arrived, up to an incomplete rest, becomes
  closures for the heavy thread, one per frame.
\<close>

lemma frames_posted:
  assumes doc: "stream_documented os inbox sent" and inv: "session_inv ss" and srv: "ss_server ss \<in> live l"
    and u: "server_user_ok opened u" "\<And>ss bytes l. su_split u cb ss bytes l = (sp bytes, l)"
    and cb: "split_cb t = Some cb" "fragment_cb t \<noteq> None"
    and types: "has_event types kRead" "\<not> has_event types kWrite" "\<not> has_event types kError"
  shows "\<exists>bytes e k ss' l'. session_event os (handler t) types ss l = Some (Inr (ss', l')) \<and>
    reads os (ch_fd (session_channel ss)) (kern l) bytes e k \<and>
    inbox (kern l) (ch_fd (session_channel ss)) = bytes @ inbox k (ch_fd (session_channel ss)) \<and>
    (let received = kept_bytes e (sb_contents (recv_buf ss) @ bytes);
         task = (\<lambda>f. WrapperTask (ss_self ss) (FragmentTask (ss_self ss) f));
         l2 = fold (\<lambda>f. post_heavy_task (task f)) (fst (cut sp received)) (after_reads e (l\<lparr>kern := k\<rparr>))
     in heavy_buffer_queue l2 = heavy_buffer_queue l @ map task (fst (cut sp received)) \<and>
        (if e = PeerGone then l' = on_disconnect (handler t) ss' l2 \<and> sb_contents (recv_buf ss') = []
         else l' = l2 \<and> sb_contents (recv_buf ss') = snd (cut sp received)))"
proof -
  let ?task = "\<lambda>f. WrapperTask (ss_self ss) (FragmentTask (ss_self ss) f)"
  have ch: "\<not> invalid_channel (session_channel ss)" using inv by (simp add: session_inv_def)
  from read_event_delivers [where h = "handler t", OF doc inv srv split_bounded [OF u(1), where t = t] types]
  obtain bytes e k s frames rest ss' l' where R: "session_event os (handler t) types ss l = Some (Inr (ss', l'))"
    "reads os (ch_fd (session_channel ss)) (kern l) bytes e k"
    "inbox (kern l) (ch_fd (session_channel ss)) = bytes @ inbox k (ch_fd (session_channel ss))"
    "s = ss\<lparr>recv_buf := recv_buf s\<rparr>" "sb_contents (recv_buf s) = kept_bytes e (sb_contents (recv_buf ss) @ bytes)"
    "sb_contents (recv_buf s) = concat frames @ rest" "[] \<notin> set frames"
    and T: "let l1 = after_reads e (l\<lparr>kern := k\<rparr>);
         l2 = deliver (on_split (handler t) s) (on_fragment (handler t) s) (concat frames @ rest) frames l1
     in cut_by (on_split (handler t) s) (on_fragment (handler t) s) (concat frames @ rest) frames l1 \<and>
        (if e = PeerGone then l' = on_disconnect (handler t) ss' l2 \<and> sb_contents (recv_buf ss') = [] \<and> sb_contents (send_buf ss') = []
         else l' = l2 \<and> sb_contents (recv_buf ss') = rest \<and> send_buf ss' = send_buf ss)"
    by (elim exE conjE) (rule that; assumption)
  have "ss_self s = ss_self ss" "session_channel s = session_channel ss"
    using arg_cong [OF R(4), of ss_self] arg_cong [OF R(4), of session_channel] by simp_all
  then have fr: "on_fragment (handler t) s f w = post_heavy_task (?task f) w" for f w
    using cb(2) ch by (auto simp: fragment channel_post_heavy_task_def)
  have sp: "on_split (handler t) s bs w = (sp bs, w)" for bs w by (simp add: split u(2) cb(1))
  then have "snd (on_split (handler t) s bs w) = w" for bs w by simp
  note D = deliver_posts [where sp = "on_split (handler t) s" and fr = "on_fragment (handler t) s", OF this fr]
  note T' = T [unfolded Let_def D]
  have c: "cut sp (concat frames @ rest) = (frames, rest)" by (rule cut_byD [where sp = sp, OF sp conjunct1 [OF T'] R(7)])
  have received: "kept_bytes e (sb_contents (recv_buf ss) @ bytes) = concat frames @ rest" using R(5,6) by simp
  have "if e = PeerGone
      then l' = on_disconnect (handler t) ss' (fold (\<lambda>f. post_heavy_task (?task f)) frames (after_reads e (l\<lparr>kern := k\<rparr>))) \<and>
        sb_contents (recv_buf ss') = []
      else l' = fold (\<lambda>f. post_heavy_task (?task f)) frames (after_reads e (l\<lparr>kern := k\<rparr>)) \<and> sb_contents (recv_buf ss') = rest"
    using conjunct2 [OF T'] by (cases "e = PeerGone") simp_all
  then have "let received = kept_bytes e (sb_contents (recv_buf ss) @ bytes);
      l2 = fold (\<lambda>f. post_heavy_task (?task f)) (fst (cut sp received)) (after_reads e (l\<lparr>kern := k\<rparr>))
    in heavy_buffer_queue l2 = heavy_buffer_queue l @ map ?task (fst (cut sp received)) \<and>
      (if e = PeerGone then l' = on_disconnect (handler t) ss' l2 \<and> sb_contents (recv_buf ss') = []
       else l' = l2 \<and> sb_contents (recv_buf ss') = snd (cut sp received))"
    unfolding Let_def received c fst_conv snd_conv fold_posts after_reads_heavy by simp
  then show ?thesis unfolding Let_def
    by (intro exI [of _ bytes] exI [of _ e] exI [of _ k] exI [of _ ss'] exI [of _ l'] conjI R(1-3)) simp_all
qed

end

end
