(* ===== verification/Tcp_Socket.thy ===== *)
theory Tcp_Socket
  imports Stream_Callbacks
begin

text \<open>
  The TCP sockets (\<open>include/kzevent/net/tcp_socket.hpp\<close>, \<open>src/net/tcp_socket.cpp\<close>): the factories, the
  registered callbacks, and the virtual functions over them. The base of a client is its field
  \<open>tc_base\<close>; that of a server is the \<open>server\<close> of a \<open>server_world\<close>. A closure that the heavy thread runs
  calls the callback that is registered then.
\<close>

section \<open>Client\<close>

record TcpClient =
  tc_base :: StreamClientSocket
  tc_split_cb :: "nat option"
  tc_fragment_cb :: "nat option"
  tc_error_cb :: "nat option"
  tc_disconnect_cb :: "nat option"

definition make_tcp_client :: "'k os \<Rightarrow> LifeChecker \<Rightarrow> InetAddr \<Rightarrow> 'k client_loop \<Rightarrow>
    fault + TcpClient option \<times> 'k client_loop" where
  "make_tcp_client os self local l =
     (if \<not> is_inet local then Inr (None, write_log (LogError ''tcp client err: unsupported protocol'') l)
      else and_then (construct_StreamClientSocket os self local l) (\<lambda>(c, l1).
        Inr (Some \<lparr>tc_base = c, tc_split_cb = None, tc_fragment_cb = None, tc_error_cb = None, tc_disconnect_cb = None\<rparr>,
             l1\<lparr>live := insert self (live l1)\<rparr>)))"

definition tc_set_split_cb :: "nat option \<Rightarrow> TcpClient \<Rightarrow> TcpClient" where
  "tc_set_split_cb cb t = t\<lparr>tc_split_cb := cb\<rparr>"

definition tc_set_fragment_cb :: "nat option \<Rightarrow> TcpClient \<Rightarrow> TcpClient" where
  "tc_set_fragment_cb cb t = t\<lparr>tc_fragment_cb := cb\<rparr>"

definition tc_set_error_cb :: "nat option \<Rightarrow> TcpClient \<Rightarrow> TcpClient" where
  "tc_set_error_cb cb t = t\<lparr>tc_error_cb := cb\<rparr>"

definition tc_set_disconnect_cb :: "nat option \<Rightarrow> TcpClient \<Rightarrow> TcpClient" where
  "tc_set_disconnect_cb cb t = t\<lparr>tc_disconnect_cb := cb\<rparr>"

definition tc_on_split :: "'k client_user \<Rightarrow> TcpClient \<Rightarrow> StreamClientSocket \<Rightarrow> byte list \<Rightarrow> 'k client_loop \<Rightarrow>
    int \<times> 'k client_loop" where
  "tc_on_split u t c view l = (case tc_split_cb t of None \<Rightarrow> (0, l) | Some cb \<Rightarrow> cu_split u cb c view l)"

definition tc_on_fragment :: "TcpClient \<Rightarrow> StreamClientSocket \<Rightarrow> byte list \<Rightarrow> 'k client_loop \<Rightarrow> 'k client_loop" where
  "tc_on_fragment t c fragment l =
     (if tc_fragment_cb t = None then l
      else snd (client_post_heavy_task (ClientFragment (cl_self c) fragment) (c, l)))"

definition tc_on_error :: "'k os \<Rightarrow> 'k client_user \<Rightarrow> TcpClient \<Rightarrow> errno \<Rightarrow> 'k client_state \<Rightarrow> 'k client_state" where
  "tc_on_error os u t err st =
     (case st of (c, l) \<Rightarrow>
        let st1 = client_stop os (c, write_log (LogCode ''tcp client err: '' err) l)
        in case tc_error_cb t of
             None \<Rightarrow> st1
           | Some cb \<Rightarrow>
               (case err of
                  ECONNREFUSED \<Rightarrow> cu_notify u cb st1
                | ETIMEDOUT \<Rightarrow> cu_notify u cb st1
                | ENETUNREACH \<Rightarrow> cu_notify u cb st1
                | EHOSTUNREACH \<Rightarrow> cu_notify u cb st1
                | EADDRNOTAVAIL \<Rightarrow> cu_notify u cb st1
                | _ \<Rightarrow> st1))"

definition tc_on_disconnect :: "'k os \<Rightarrow> 'k client_user \<Rightarrow> TcpClient \<Rightarrow> 'k client_state \<Rightarrow> 'k client_state" where
  "tc_on_disconnect os u t st =
     (let st1 = client_stop os st in case tc_disconnect_cb t of None \<Rightarrow> st1 | Some cb \<Rightarrow> cu_notify u cb st1)"

definition tcp_client_handler :: "'k os \<Rightarrow> 'k client_user \<Rightarrow> TcpClient \<Rightarrow> 'k client_handler" where
  "tcp_client_handler os u t = \<lparr>cl_on_split = tc_on_split u t, cl_on_fragment = tc_on_fragment t,
     cl_on_error = tc_on_error os u t, cl_on_disconnect = tc_on_disconnect os u t\<rparr>"

text \<open>The closure of \<open>on_fragment\<close>; an empty \<open>std::function\<close> throws when it is called.\<close>

definition tc_fragment_closure :: "'k client_user \<Rightarrow> TcpClient \<Rightarrow> byte list \<Rightarrow> 'k client_loop \<Rightarrow> fault + 'k client_loop" where
  "tc_fragment_closure u t fragment l =
     (case tc_fragment_cb t of
        None \<Rightarrow> Inl (Thrown ''bad_function_call'')
      | Some cb \<Rightarrow> Inr (cu_fragment u cb (cl_self (tc_base t)) fragment l))"

section \<open>Server\<close>

record TcpServer =
  ts_split_cb :: "nat option"
  ts_fragment_cb :: "nat option"
  ts_session_error_cb :: "nat option"
  ts_disconnect_cb :: "nat option"

text \<open>A server made and started, as a world without sessions; \<open>self\<close> and \<open>fresh\<close> name objects not used yet.\<close>

definition make_tcp_server :: "'k os \<Rightarrow> LifeChecker \<Rightarrow> LifeChecker \<Rightarrow> InetAddr \<Rightarrow> 'k stream_loop \<Rightarrow>
    fault + (TcpServer \<times> 'k server_world) option \<times> 'k stream_loop" where
  "make_tcp_server os self fresh local l =
     (if \<not> is_inet local then Inr (None, write_log (LogError ''tcp server err: unsupported protocol'') l)
      else and_then (construct_StreamServerSocket os self local l) (\<lambda>(srv, l1).
        let w = server_start os \<lparr>server = srv, objs = (\<lambda>_. None), held = {}, next_obj = fresh,
                  wloop = l1\<lparr>live := insert self (live l1)\<rparr>\<rparr>
        in Inr (Some (\<lparr>ts_split_cb = None, ts_fragment_cb = None, ts_session_error_cb = None, ts_disconnect_cb = None\<rparr>, w),
                wloop w)))"

definition ts_set_split_cb :: "nat option \<Rightarrow> TcpServer \<Rightarrow> TcpServer" where
  "ts_set_split_cb cb t = t\<lparr>ts_split_cb := cb\<rparr>"

definition ts_set_fragment_cb :: "nat option \<Rightarrow> TcpServer \<Rightarrow> TcpServer" where
  "ts_set_fragment_cb cb t = t\<lparr>ts_fragment_cb := cb\<rparr>"

definition ts_set_session_error_cb :: "nat option \<Rightarrow> TcpServer \<Rightarrow> TcpServer" where
  "ts_set_session_error_cb cb t = t\<lparr>ts_session_error_cb := cb\<rparr>"

definition ts_set_disconnect_cb :: "nat option \<Rightarrow> TcpServer \<Rightarrow> TcpServer" where
  "ts_set_disconnect_cb cb t = t\<lparr>ts_disconnect_cb := cb\<rparr>"

definition ts_on_split :: "'k server_user \<Rightarrow> TcpServer \<Rightarrow> StreamSession \<Rightarrow> byte list \<Rightarrow> 'k stream_loop \<Rightarrow> int \<times> 'k stream_loop" where
  "ts_on_split u t ss view l = (case ts_split_cb t of None \<Rightarrow> (0, l) | Some cb \<Rightarrow> su_split u cb ss view l)"

definition ts_on_fragment :: "TcpServer \<Rightarrow> StreamSession \<Rightarrow> byte list \<Rightarrow> 'k stream_loop \<Rightarrow> 'k stream_loop" where
  "ts_on_fragment t ss fragment l =
     (if ts_fragment_cb t = None then l
      else channel_post_heavy_task (ss_self ss) (FragmentTask (ss_self ss) fragment) (session_channel ss) l)"

definition ts_on_session_error :: "'k os \<Rightarrow> 'k server_user \<Rightarrow> TcpServer \<Rightarrow> errno \<Rightarrow> StreamSession \<Rightarrow> 'k stream_loop \<Rightarrow>
    'k stream_loop" where
  "ts_on_session_error os u t err ss l =
     (let l1 = session_stop os ss (write_log (LogCode ''tcp client err: '' err) l)
      in case ts_session_error_cb t of
           None \<Rightarrow> l1
         | Some cb \<Rightarrow>
             (case err of
                ECONNREFUSED \<Rightarrow> su_notify u cb ss l1
              | ETIMEDOUT \<Rightarrow> su_notify u cb ss l1
              | ENETUNREACH \<Rightarrow> su_notify u cb ss l1
              | EHOSTUNREACH \<Rightarrow> su_notify u cb ss l1
              | EADDRNOTAVAIL \<Rightarrow> su_notify u cb ss l1
              | _ \<Rightarrow> l1))"

definition ts_on_disconnect :: "'k os \<Rightarrow> 'k server_user \<Rightarrow> TcpServer \<Rightarrow> StreamSession \<Rightarrow> 'k stream_loop \<Rightarrow> 'k stream_loop" where
  "ts_on_disconnect os u t ss l =
     (let l1 = session_stop os ss l in case ts_disconnect_cb t of None \<Rightarrow> l1 | Some cb \<Rightarrow> su_notify u cb ss l1)"

definition tcp_server_handler :: "'k os \<Rightarrow> 'k server_user \<Rightarrow> TcpServer \<Rightarrow> 'k session_handler" where
  "tcp_server_handler os u t = \<lparr>on_split = ts_on_split u t, on_fragment = ts_on_fragment t,
     on_session_error = ts_on_session_error os u t, on_disconnect = ts_on_disconnect os u t\<rparr>"

text \<open>
  The closure of \<open>on_fragment\<close> captures the server \<open>srv\<close> as a plain pointer and the session as a strong one;
  it is guarded by the session only.
\<close>

definition ts_fragment_closure :: "'k server_user \<Rightarrow> TcpServer \<Rightarrow> LifeChecker \<Rightarrow> LifeChecker \<Rightarrow> byte list \<Rightarrow>
    'k stream_loop \<Rightarrow> fault + 'k stream_loop" where
  "ts_fragment_closure u t srv session fragment l =
     (if srv \<notin> live l then Inl (Dangling srv)
      else case ts_fragment_cb t of
             None \<Rightarrow> Inl (Thrown ''bad_function_call'')
           | Some cb \<Rightarrow> Inr (su_fragment u cb session fragment l))"

definition tcp_heavy :: "'k server_user \<Rightarrow> TcpServer \<Rightarrow> LifeChecker \<Rightarrow> ('k, stream_callback, stream_closure) client" where
  "tcp_heavy u t srv = \<lparr>run_closure = (\<lambda>task l. case task of
       FragmentTask session fragment \<Rightarrow> ts_fragment_closure u t srv session fragment l | _ \<Rightarrow> Inr l),
     run_callback = (\<lambda>_ _. Inr)\<rparr>"

section \<open>Contracts\<close>

definition tcp_reported :: "errno \<Rightarrow> bool" where
  "tcp_reported err \<longleftrightarrow> err \<in> {ECONNREFUSED, ETIMEDOUT, ENETUNREACH, EHOSTUNREACH, EADDRNOTAVAIL}"

interpretation tcp_client: client_class os u "''tcp client err: ''" tcp_reported "tcp_client_handler os u"
  tc_split_cb tc_fragment_cb tc_error_cb tc_disconnect_cb for os u
proof
  fix t :: TcpClient and err and st :: "'a client_state"
  obtain c l where st: "st = (c, l)" by fastforce
  show "cl_on_error (tcp_client_handler os u t) err st =
      fail_client os u ''tcp client err: '' tcp_reported (tc_error_cb t) err st"
    by (cases err) (simp_all add: st tcp_client_handler_def tc_on_error_def fail_client_def tcp_reported_def Let_def split: option.split)
qed (auto simp: tcp_client_handler_def tc_on_split_def tc_on_fragment_def tc_on_disconnect_def client_post_heavy_task_def
    Let_def split: option.split)

interpretation tcp_server: server_class os u "''tcp client err: ''" tcp_reported "tcp_server_handler os u"
  ts_split_cb ts_fragment_cb ts_session_error_cb ts_disconnect_cb for os u
proof
  fix t :: TcpServer and err ss and l :: "'a stream_loop"
  show "on_session_error (tcp_server_handler os u t) err ss l =
      fail_session os u ''tcp client err: '' tcp_reported (ts_session_error_cb t) err ss l"
    by (cases err) (simp_all add: tcp_server_handler_def ts_on_session_error_def fail_session_def tcp_reported_def Let_def split: option.split)
qed (auto simp: tcp_server_handler_def ts_on_split_def ts_on_fragment_def ts_on_disconnect_def Let_def split: option.split)

section \<open>Lemmas\<close>

text \<open>A session that someone holds outlives its server, and so do the closures posted for it.\<close>

lemma wake_frame [simp]: "live (wake_io_up os l) = live l" "heavy_exe_queue (wake_io_up os l) = heavy_exe_queue l"
  by (auto simp: wake_io_up_def write_log_def split: prod.splits sum.splits)

lemma destroy_heavy:
  "live (destroy_StreamSession os ss l) = live l - {ss_self ss}"
  "heavy_buffer_queue (destroy_StreamSession os ss l) = heavy_buffer_queue l"
  "heavy_exe_queue (destroy_StreamSession os ss l) = heavy_exe_queue l"
  by (simp_all add: destroy_StreamSession_def session_stop_def destroy_LoopChannel_def disable_event_def channel_post_io_task_def
      unregister_fd_def disable_fd_def post_io_task_def invalid_access_def write_log_def)

lemma drop_sessions_heavy:
  assumes "\<And>r rs. objs w r = Some rs \<Longrightarrow> ss_self rs = r" and "s \<in> held w"
  shows "(s \<in> live (wloop (drop_sessions os w rest)) \<longleftrightarrow> s \<in> live (wloop w)) \<and>
    live (wloop (drop_sessions os w rest)) \<subseteq> live (wloop w) \<and>
    heavy_buffer_queue (wloop (drop_sessions os w rest)) = heavy_buffer_queue (wloop w) \<and>
    heavy_exe_queue (wloop (drop_sessions os w rest)) = heavy_exe_queue (wloop w)"
  using assms
proof (induction rest arbitrary: w)
  case (Cons r rest)
  let ?w = "release_session os r w"
  show ?case
  proof (cases "objs w r = None \<or> r \<in> held w \<or> r \<in> snd ` set (sessions (server w))")
    case True
    then have "?w = w" by (auto simp: release_session_def split: option.splits)
    then show ?thesis using Cons by simp
  next
    case False
    then obtain rs where rs: "objs w r = Some rs" by auto
    then have w: "?w = w\<lparr>objs := (objs w)(r := None), wloop := destroy_StreamSession os rs (wloop w)\<rparr>"
      using False by (auto simp: release_session_def)
    have self: "ss_self rs = r" "r \<noteq> s" using Cons.prems rs False by auto
    have ok: "ss_self rs' = r'" if "objs ?w r' = Some rs'" for r' rs' using that Cons.prems(1) by (auto simp: w split: if_splits)
    have "s \<in> held ?w" using Cons.prems(2) by (simp add: w)
    from Cons.IH [OF ok this] show ?thesis using self by (auto simp: w destroy_heavy)
  qed
qed simp

lemma destroy_server_heavy:
  fixes os :: "'k os"
  assumes "\<And>r rs. objs w r = Some rs \<Longrightarrow> ss_self rs = r" and "s \<in> held w" and "s \<noteq> srv_self (server w)"
  defines "w' \<equiv> destroy_StreamServerSocket os w"
  shows "s \<in> live (wloop w') \<longleftrightarrow> s \<in> live (wloop w)" "srv_self (server w) \<notin> live (wloop w')"
    "heavy_buffer_queue (wloop w') = heavy_buffer_queue (wloop w)" "heavy_exe_queue (wloop w') = heavy_exe_queue (wloop w)"
proof -
  let ?w1 = "w\<lparr>server := (server w)\<lparr>server_started := False, sessions := []\<rparr>,
    wloop := disable_event os (listen_channel (server w)) ((wloop w)\<lparr>live := live (wloop w) - {srv_self (server w)}\<rparr>)\<rparr>"
  have dis: "live (disable_event os ch l) = live l" "heavy_buffer_queue (disable_event os ch l) = heavy_buffer_queue l"
      "heavy_exe_queue (disable_event os ch l) = heavy_exe_queue l" for ch and l :: "'k stream_loop"
    by (simp_all add: disable_event_def disable_fd_def post_io_task_def invalid_access_def write_log_def)
  have des: "live (destroy_LoopChannel os ch l) = live l" "heavy_buffer_queue (destroy_LoopChannel os ch l) = heavy_buffer_queue l"
      "heavy_exe_queue (destroy_LoopChannel os ch l) = heavy_exe_queue l" for ch and l :: "'k stream_loop"
    by (simp_all add: destroy_LoopChannel_def unregister_fd_def post_io_task_def)
  note D = drop_sessions_heavy [of ?w1 s os "map snd (sessions (server w))", simplified, OF assms(1,2)]
  show "s \<in> live (wloop w') \<longleftrightarrow> s \<in> live (wloop w)" "srv_self (server w) \<notin> live (wloop w')"
    "heavy_buffer_queue (wloop w') = heavy_buffer_queue (wloop w)" "heavy_exe_queue (wloop w') = heavy_exe_queue (wloop w)"
    using D assms(3) by (auto simp: w'_def destroy_StreamServerSocket_def Let_def des dis)
qed

section \<open>Properties\<close>

text \<open>
  C17. Frames reach the heavy thread. On a read event of a session of a TCP server with a split and a fragment
  callback, the socket is read to its end, and what was buffered and what was read is cut as the split
  callback says: for every frame, in order, one closure is posted to the heavy thread, and nothing else happens
  to the loop; what the split callback claims no frame for stays buffered. If the peer is gone, the disconnect
  handler follows, with the buffer emptied; after another error, which is logged, nothing is kept.
\<close>

theorem tcp_frames_reach_heavy_thread:
  assumes "stream_documented os inbox sent" and "session_inv ss" and "ss_server ss \<in> live l"
    and "server_user_ok opened u" and "\<And>ss bytes l. su_split u cb ss bytes l = (sp bytes, l)"
    and "ts_split_cb t = Some cb" and "ts_fragment_cb t \<noteq> None"
    and "has_event types kRead" and "\<not> has_event types kWrite" and "\<not> has_event types kError"
  shows "\<exists>bytes e k ss' l'. session_event os (tcp_server_handler os u t) types ss l = Some (Inr (ss', l')) \<and>
    reads os (ch_fd (session_channel ss)) (kern l) bytes e k \<and>
    inbox (kern l) (ch_fd (session_channel ss)) = bytes @ inbox k (ch_fd (session_channel ss)) \<and>
    (let received = kept_bytes e (sb_contents (recv_buf ss) @ bytes);
         task = (\<lambda>f. WrapperTask (ss_self ss) (FragmentTask (ss_self ss) f));
         l2 = fold (\<lambda>f. post_heavy_task (task f)) (fst (cut sp received)) (after_reads e (l\<lparr>kern := k\<rparr>))
     in heavy_buffer_queue l2 = heavy_buffer_queue l @ map task (fst (cut sp received)) \<and>
        (if e = PeerGone then l' = ts_on_disconnect os u t ss' l2 \<and> sb_contents (recv_buf ss') = []
         else l' = l2 \<and> sb_contents (recv_buf ss') = snd (cut sp received)))"
proof -
  have "on_disconnect (tcp_server_handler os u t) = ts_on_disconnect os u t" by (simp add: tcp_server_handler_def)
  then show ?thesis using tcp_server.frames_posted [OF assms] by (simp only:)
qed


text \<open>
  A retry that is lost. When \<open>connect\<close> fails at once, the error callback runs before the client is marked as
  disconnected again: a callback that calls \<open>connect\<close> for a second attempt, as after a later failure
  it may, has no effect at all.
\<close>

theorem retry_after_immediate_failure_ignored:
  assumes "connected c = ConnDisconnected" and "\<not> invalid_channel (stream_channel c)"
    and "os_connect os (ch_fd (stream_channel c)) (get_sockaddr addr) (get_socklen addr) (kern l) = (Inl err, k)"
    and "err \<noteq> EINPROGRESS" and "cu_notify u = (\<lambda>cb st. client_connect os h after addr2 ms2 st)"
  shows "client_connect os (tcp_client_handler os u t) after_log addr ms (c, l) =
    client_connect os (tcp_client_handler os (u\<lparr>cu_notify := (\<lambda>cb st. st)\<rparr>) t) after_log addr ms (c, l)"
proof -
  have same: "client_connect os h after addr2 ms2 st = st" if "connected (fst st) = ConnConnecting" for st
    using that by (cases st) (simp add: client_connect_def)
  show ?thesis
    using assms(1-4) same
    by (simp add: client_connect_def connect_waits_def get_fd_valid tcp_client.error fail_client_def assms(5) Let_def split: option.split)
qed

text \<open>
  C38. A closure outlives its server. The closure that \<open>on_fragment\<close> posts captures the server as a plain pointer
  and is guarded by its session, which it keeps alive: when the server is destroyed before the
  heavy thread gets to it, the closure still runs, and reads the destroyed server.
\<close>

theorem fragment_outlives_server:
  assumes "server_good opened w" and "s \<in> held w" and "s \<in> live (wloop w)" and "s \<noteq> srv_self (server w)"
    and "heavy_exe_queue (wloop w) = []" and "heavy_buffer_queue (wloop w) = WrapperTask s (FragmentTask s fragment) # rest"
  shows "heavy_turn os (tcp_heavy u t (srv_self (server w))) (wloop (destroy_StreamServerSocket os w)) =
    Inl (Dangling (srv_self (server w)))"
proof -
  have "ss_self rs = r" if "objs w r = Some rs" for r rs
    using assms(1) that by (auto simp: server_good_def good_world_def world_inv_def store_ok_def)
  note D = destroy_server_heavy [OF this assms(2,4), of os]
  show ?thesis using D assms(3,5,6)
    by (simp add: heavy_turn_def tcp_heavy_def ts_fragment_closure_def)
qed

section \<open>Witnesses\<close>

definition demo_cut :: "byte list \<Rightarrow> int" where
  "demo_cut bytes = (if length bytes < 2 then 0 else 2)"

definition demo_server_user :: "kstate server_user" where
  "demo_server_user = \<lparr>su_split = (\<lambda>cb ss bytes l. (demo_cut bytes, l)), su_notify = (\<lambda>cb ss l. l),
     su_fragment = (\<lambda>cb s f l. write_log (LogInfo ''fragment'') l)\<rparr>"

definition demo_tcp_server :: TcpServer where
  "demo_tcp_server = \<lparr>ts_split_cb = Some 1, ts_fragment_cb = Some 2, ts_session_error_cb = None, ts_disconnect_cb = None\<rparr>"

lemma demo_server_user_ok: "server_user_ok (\<lambda>k. set (k_open k)) demo_server_user"
  by (simp add: server_user_ok_def demo_server_user_def demo_cut_def)

theorem tcp_frames_reach_heavy_thread_witness:
  "\<exists>bytes e k ss' l'. session_event ref_os (tcp_server_handler ref_os demo_server_user demo_tcp_server) kRead demo_session
       demo_session_loop = Some (Inr (ss', l')) \<and> reads ref_os 5 (kern demo_session_loop) bytes e k \<and> bytes @ k_inbox k 5 = [1, 2, 3]"
proof -
  have live: "ss_server demo_session \<in> live demo_session_loop"
    and st: "ch_fd (session_channel demo_session) = 5" "k_inbox (kern demo_session_loop) 5 = [1, 2, 3]"
    by (simp_all add: demo_session_def demo_session_loop_def make_Loop_def demo_channel_def)
  have pure: "su_split demo_server_user 1 ss bytes l = (demo_cut bytes, l)" for ss bytes l by (simp add: demo_server_user_def)
  have cbs: "ts_split_cb demo_tcp_server = Some 1" "ts_fragment_cb demo_tcp_server \<noteq> None" by (simp_all add: demo_tcp_server_def)
  from tcp_frames_reach_heavy_thread [OF ref_os_stream demo_session_ok(1) live demo_server_user_ok pure cbs read_only]
  show ?thesis unfolding st by metis
qed

definition refusing_os :: "kstate os" where
  "refusing_os = ref_os\<lparr>os_so_error := (\<lambda>fd k. (Some ECONNREFUSED, k)), os_connect := (\<lambda>fd sa len k. (Inl ECONNREFUSED, k))\<rparr>"

definition demo_client_user :: "kstate client_user" where
  "demo_client_user = \<lparr>cu_split = (\<lambda>cb c bytes l. (0, l)), cu_notify = (\<lambda>cb (c, l). (c, write_log (LogInfo ''told'') l)),
     cu_fragment = (\<lambda>cb s f l. l)\<rparr>"

definition demo_tcp_client :: TcpClient where
  "demo_tcp_client = \<lparr>tc_base = demo_client, tc_split_cb = None, tc_fragment_cb = None, tc_error_cb = Some 1, tc_disconnect_cb = None\<rparr>"




theorem retry_after_immediate_failure_ignored_witness:
  "\<exists>u. client_connect refusing_os (tcp_client_handler refusing_os u demo_tcp_client) ECONNREFUSED demo_name 5 (demo_client, demo_client_loop) =
     client_connect refusing_os (tcp_client_handler refusing_os (u\<lparr>cu_notify := (\<lambda>cb st. st)\<rparr>) demo_tcp_client) ECONNREFUSED demo_name 5
       (demo_client, demo_client_loop)"
proof -
  let ?u = "demo_client_user\<lparr>cu_notify := (\<lambda>cb st. client_connect refusing_os demo_client_handler EAGAIN demo_name 5 st)\<rparr>"
  have c: "connected demo_client = ConnDisconnected" "\<not> invalid_channel (stream_channel demo_client)"
    using demo_client_ok(1) by (simp_all add: client_inv_def demo_client_def)
  have os: "os_connect refusing_os (ch_fd (stream_channel demo_client)) (get_sockaddr demo_name) (get_socklen demo_name) (kern demo_client_loop) =
      (Inl ECONNREFUSED, kern demo_client_loop)"
    by (simp add: refusing_os_def)
  have "cu_notify ?u = (\<lambda>cb st. client_connect refusing_os demo_client_handler EAGAIN demo_name 5 st)" by simp
  from retry_after_immediate_failure_ignored [OF c os _ this, of demo_tcp_client ECONNREFUSED 5] show ?thesis by blast
qed

definition demo_doomed_world :: "kstate server_world" where
  "demo_doomed_world = demo_busy_world\<lparr>held := {8}, wloop := (wloop demo_busy_world)\<lparr>heavy_buffer_queue := [WrapperTask 8 (FragmentTask 8 [1, 2])]\<rparr>\<rparr>"

theorem fragment_outlives_server_witness:
  "heavy_turn ref_os (tcp_heavy demo_server_user demo_tcp_server 7) (wloop (destroy_StreamServerSocket ref_os demo_doomed_world)) =
     Inl (Dangling 7)"
proof -
  have objs: "dom (objs demo_busy_world) = {8}" by (simp add: demo_busy_world_def)
  have "server_good (\<lambda>k. set (k_open k)) demo_doomed_world"
    using demo_busy_world_good objs
    by (simp add: server_good_def good_world_def world_inv_def store_ok_def table_ok_def removals_ok_def no_orphans_def
        demo_doomed_world_def listen_fd_def)
  moreover have "8 \<in> held demo_doomed_world" "8 \<in> live (wloop demo_doomed_world)" "srv_self (server demo_doomed_world) = 7"
    "heavy_exe_queue (wloop demo_doomed_world) = []"
    "heavy_buffer_queue (wloop demo_doomed_world) = WrapperTask 8 (FragmentTask 8 [1, 2]) # []"
    by (simp_all add: demo_doomed_world_def demo_busy_world_def demo_world_def make_Loop_def)
  ultimately show ?thesis
    using fragment_outlives_server [of "\<lambda>k. set (k_open k)" demo_doomed_world 8 "[1, 2]" "[]" ref_os demo_server_user demo_tcp_server]
    by simp
qed

end
