(* ===== verification/Unix_Socket.thy ===== *)
theory Unix_Socket
  imports Tcp_Socket
begin

text \<open>
  The unix sockets (\<open>include/kzevent/net/unix_socket.hpp\<close>, \<open>src/net/unix_socket.cpp\<close>): as the TCP ones, with
  the path of the local address, which the destructor unlinks. A client is a record with its base;
  the base of a server is the \<open>server\<close> of a \<open>server_world\<close>.
\<close>

section \<open>The path\<close>

text \<open>\<open>path_\<close> as the constructors set it, and \<open>cleanup_path\<close> of both classes.\<close>

definition unix_path :: "inet_lib \<Rightarrow> InetAddr \<Rightarrow> string" where
  "unix_path lib local = fst (get_ip_or_path lib local)"

definition cleanup_path :: "'k os \<Rightarrow> string \<Rightarrow> 'k \<Rightarrow> 'k" where
  "cleanup_path os path k = (if path \<noteq> [] \<and> path ! 0 \<noteq> CHR ''@'' then snd (os_unlink os (c_str path) k) else k)"

section \<open>Client\<close>

record UnixClient =
  uc_base :: StreamClientSocket
  uc_split_cb :: "nat option"
  uc_fragment_cb :: "nat option"
  uc_error_cb :: "nat option"
  uc_disconnect_cb :: "nat option"
  uc_path :: string

definition make_unix_client :: "'k os \<Rightarrow> inet_lib \<Rightarrow> LifeChecker \<Rightarrow> InetAddr \<Rightarrow> 'k client_loop \<Rightarrow>
    fault + UnixClient option \<times> 'k client_loop" where
  "make_unix_client os lib self local l =
     (if sa_family (get_sockaddr local) \<noteq> AF_UNIX
      then Inr (None, write_log (LogError ''unix client err: unsupported protocol'') l)
      else and_then (construct_StreamClientSocket os self local l) (\<lambda>(c, l1).
        Inr (Some \<lparr>uc_base = c, uc_split_cb = None, uc_fragment_cb = None, uc_error_cb = None, uc_disconnect_cb = None,
                   uc_path = unix_path lib local\<rparr>,
             l1\<lparr>live := insert self (live l1)\<rparr>)))"

definition uc_set_split_cb :: "nat option \<Rightarrow> UnixClient \<Rightarrow> UnixClient" where
  "uc_set_split_cb cb t = t\<lparr>uc_split_cb := cb\<rparr>"

definition uc_set_fragment_cb :: "nat option \<Rightarrow> UnixClient \<Rightarrow> UnixClient" where
  "uc_set_fragment_cb cb t = t\<lparr>uc_fragment_cb := cb\<rparr>"

definition uc_set_error_cb :: "nat option \<Rightarrow> UnixClient \<Rightarrow> UnixClient" where
  "uc_set_error_cb cb t = t\<lparr>uc_error_cb := cb\<rparr>"

definition uc_set_disconnect_cb :: "nat option \<Rightarrow> UnixClient \<Rightarrow> UnixClient" where
  "uc_set_disconnect_cb cb t = t\<lparr>uc_disconnect_cb := cb\<rparr>"

definition uc_on_split :: "'k client_user \<Rightarrow> UnixClient \<Rightarrow> StreamClientSocket \<Rightarrow> byte list \<Rightarrow> 'k client_loop \<Rightarrow>
    int \<times> 'k client_loop" where
  "uc_on_split u t c view l = (case uc_split_cb t of None \<Rightarrow> (0, l) | Some cb \<Rightarrow> cu_split u cb c view l)"

definition uc_on_fragment :: "UnixClient \<Rightarrow> StreamClientSocket \<Rightarrow> byte list \<Rightarrow> 'k client_loop \<Rightarrow> 'k client_loop" where
  "uc_on_fragment t c fragment l =
     (if uc_fragment_cb t = None then l
      else snd (client_post_heavy_task (ClientFragment (cl_self c) fragment) (c, l)))"

definition uc_on_error :: "'k os \<Rightarrow> 'k client_user \<Rightarrow> UnixClient \<Rightarrow> errno \<Rightarrow> 'k client_state \<Rightarrow> 'k client_state" where
  "uc_on_error os u t err st =
     (case st of (c, l) \<Rightarrow>
        let st1 = client_stop os (c, write_log (LogCode ''unix client err: '' err) l)
        in case uc_error_cb t of
             None \<Rightarrow> st1
           | Some cb \<Rightarrow>
               (case err of
                  ECONNREFUSED \<Rightarrow> cu_notify u cb st1
                | ENOENT \<Rightarrow> cu_notify u cb st1
                | EACCES \<Rightarrow> cu_notify u cb st1
                | ECONNRESET \<Rightarrow> cu_notify u cb st1
                | _ \<Rightarrow> st1))"

definition uc_on_disconnect :: "'k os \<Rightarrow> 'k client_user \<Rightarrow> UnixClient \<Rightarrow> 'k client_state \<Rightarrow> 'k client_state" where
  "uc_on_disconnect os u t st =
     (let st1 = client_stop os st in case uc_disconnect_cb t of None \<Rightarrow> st1 | Some cb \<Rightarrow> cu_notify u cb st1)"

definition unix_client_handler :: "'k os \<Rightarrow> 'k client_user \<Rightarrow> UnixClient \<Rightarrow> 'k client_handler" where
  "unix_client_handler os u t = \<lparr>cl_on_split = uc_on_split u t, cl_on_fragment = uc_on_fragment t,
     cl_on_error = uc_on_error os u t, cl_on_disconnect = uc_on_disconnect os u t\<rparr>"

definition uc_fragment_closure :: "'k client_user \<Rightarrow> UnixClient \<Rightarrow> byte list \<Rightarrow> 'k client_loop \<Rightarrow> fault + 'k client_loop" where
  "uc_fragment_closure u t fragment l =
     (case uc_fragment_cb t of
        None \<Rightarrow> Inl (Thrown ''bad_function_call'')
      | Some cb \<Rightarrow> Inr (cu_fragment u cb (cl_self (uc_base t)) fragment l))"

text \<open>The destructor unlinks the path, then that of the base runs.\<close>

definition destroy_UnixClient :: "'k os \<Rightarrow> UnixClient \<Rightarrow> 'k client_loop \<Rightarrow> 'k client_loop" where
  "destroy_UnixClient os t l = destroy_StreamClientSocket os (uc_base t, l\<lparr>kern := cleanup_path os (uc_path t) (kern l)\<rparr>)"

section \<open>Server\<close>

record UnixServer =
  ux_split_cb :: "nat option"
  ux_fragment_cb :: "nat option"
  ux_session_error_cb :: "nat option"
  ux_disconnect_cb :: "nat option"
  ux_path :: string

definition make_unix_server :: "'k os \<Rightarrow> inet_lib \<Rightarrow> LifeChecker \<Rightarrow> LifeChecker \<Rightarrow> InetAddr \<Rightarrow> 'k stream_loop \<Rightarrow>
    fault + (UnixServer \<times> 'k server_world) option \<times> 'k stream_loop" where
  "make_unix_server os lib self fresh local l =
     (if sa_family (get_sockaddr local) \<noteq> AF_UNIX
      then Inr (None, write_log (LogError ''unix server err: unsupported protocol'') l)
      else and_then (construct_StreamServerSocket os self local l) (\<lambda>(srv, l1).
        let w = server_start os \<lparr>server = srv, objs = (\<lambda>_. None), held = {}, next_obj = fresh,
                  wloop = l1\<lparr>live := insert self (live l1)\<rparr>\<rparr>
        in Inr (Some (\<lparr>ux_split_cb = None, ux_fragment_cb = None, ux_session_error_cb = None, ux_disconnect_cb = None,
                       ux_path = unix_path lib local\<rparr>, w),
                wloop w)))"

definition ux_set_split_cb :: "nat option \<Rightarrow> UnixServer \<Rightarrow> UnixServer" where
  "ux_set_split_cb cb t = t\<lparr>ux_split_cb := cb\<rparr>"

definition ux_set_fragment_cb :: "nat option \<Rightarrow> UnixServer \<Rightarrow> UnixServer" where
  "ux_set_fragment_cb cb t = t\<lparr>ux_fragment_cb := cb\<rparr>"

definition ux_set_session_error_cb :: "nat option \<Rightarrow> UnixServer \<Rightarrow> UnixServer" where
  "ux_set_session_error_cb cb t = t\<lparr>ux_session_error_cb := cb\<rparr>"

definition ux_set_disconnect_cb :: "nat option \<Rightarrow> UnixServer \<Rightarrow> UnixServer" where
  "ux_set_disconnect_cb cb t = t\<lparr>ux_disconnect_cb := cb\<rparr>"

definition ux_on_split :: "'k server_user \<Rightarrow> UnixServer \<Rightarrow> StreamSession \<Rightarrow> byte list \<Rightarrow> 'k stream_loop \<Rightarrow> int \<times> 'k stream_loop" where
  "ux_on_split u t ss view l = (case ux_split_cb t of None \<Rightarrow> (0, l) | Some cb \<Rightarrow> su_split u cb ss view l)"

definition ux_on_fragment :: "UnixServer \<Rightarrow> StreamSession \<Rightarrow> byte list \<Rightarrow> 'k stream_loop \<Rightarrow> 'k stream_loop" where
  "ux_on_fragment t ss fragment l =
     (if ux_fragment_cb t = None then l
      else channel_post_heavy_task (ss_self ss) (FragmentTask (ss_self ss) fragment) (session_channel ss) l)"

definition ux_on_session_error :: "'k os \<Rightarrow> 'k server_user \<Rightarrow> UnixServer \<Rightarrow> errno \<Rightarrow> StreamSession \<Rightarrow> 'k stream_loop \<Rightarrow>
    'k stream_loop" where
  "ux_on_session_error os u t err ss l =
     (let l1 = session_stop os ss (write_log (LogCode ''unix client err: '' err) l)
      in case ux_session_error_cb t of
           None \<Rightarrow> l1
         | Some cb \<Rightarrow>
             (case err of
                ECONNREFUSED \<Rightarrow> su_notify u cb ss l1
              | ENOENT \<Rightarrow> su_notify u cb ss l1
              | EACCES \<Rightarrow> su_notify u cb ss l1
              | ECONNRESET \<Rightarrow> su_notify u cb ss l1
              | _ \<Rightarrow> l1))"

definition ux_on_disconnect :: "'k os \<Rightarrow> 'k server_user \<Rightarrow> UnixServer \<Rightarrow> StreamSession \<Rightarrow> 'k stream_loop \<Rightarrow> 'k stream_loop" where
  "ux_on_disconnect os u t ss l =
     (let l1 = session_stop os ss l in case ux_disconnect_cb t of None \<Rightarrow> l1 | Some cb \<Rightarrow> su_notify u cb ss l1)"

definition unix_server_handler :: "'k os \<Rightarrow> 'k server_user \<Rightarrow> UnixServer \<Rightarrow> 'k session_handler" where
  "unix_server_handler os u t = \<lparr>on_split = ux_on_split u t, on_fragment = ux_on_fragment t,
     on_session_error = ux_on_session_error os u t, on_disconnect = ux_on_disconnect os u t\<rparr>"

definition ux_fragment_closure :: "'k server_user \<Rightarrow> UnixServer \<Rightarrow> LifeChecker \<Rightarrow> LifeChecker \<Rightarrow> byte list \<Rightarrow>
    'k stream_loop \<Rightarrow> fault + 'k stream_loop" where
  "ux_fragment_closure u t srv session fragment l =
     (if srv \<notin> live l then Inl (Dangling srv)
      else case ux_fragment_cb t of
             None \<Rightarrow> Inl (Thrown ''bad_function_call'')
           | Some cb \<Rightarrow> Inr (su_fragment u cb session fragment l))"

definition destroy_UnixServer :: "'k os \<Rightarrow> UnixServer \<Rightarrow> 'k server_world \<Rightarrow> 'k server_world" where
  "destroy_UnixServer os t w =
     destroy_StreamServerSocket os (w\<lparr>wloop := (wloop w)\<lparr>kern := cleanup_path os (ux_path t) (kern (wloop w))\<rparr>\<rparr>)"

section \<open>Contracts\<close>

definition unix_reported :: "errno \<Rightarrow> bool" where
  "unix_reported err \<longleftrightarrow> err \<in> {ECONNREFUSED, ENOENT, EACCES, ECONNRESET}"

interpretation unix_client: client_class os u "''unix client err: ''" unix_reported "unix_client_handler os u"
  uc_split_cb uc_fragment_cb uc_error_cb uc_disconnect_cb for os u
proof
  fix t :: UnixClient and err and st :: "'a client_state"
  obtain c l where st: "st = (c, l)" by fastforce
  show "cl_on_error (unix_client_handler os u t) err st =
      fail_client os u ''unix client err: '' unix_reported (uc_error_cb t) err st"
    by (cases err) (simp_all add: st unix_client_handler_def uc_on_error_def fail_client_def unix_reported_def Let_def split: option.split)
qed (auto simp: unix_client_handler_def uc_on_split_def uc_on_fragment_def uc_on_disconnect_def client_post_heavy_task_def
    Let_def split: option.split)

interpretation unix_server: server_class os u "''unix client err: ''" unix_reported "unix_server_handler os u"
  ux_split_cb ux_fragment_cb ux_session_error_cb ux_disconnect_cb for os u
proof
  fix t :: UnixServer and err ss and l :: "'a stream_loop"
  show "on_session_error (unix_server_handler os u t) err ss l =
      fail_session os u ''unix client err: '' unix_reported (ux_session_error_cb t) err ss l"
    by (cases err) (simp_all add: unix_server_handler_def ux_on_session_error_def fail_session_def unix_reported_def Let_def split: option.split)
qed (auto simp: unix_server_handler_def ux_on_split_def ux_on_fragment_def ux_on_disconnect_def Let_def split: option.split)

section \<open>Properties\<close>

text \<open>
  C18. Contracts. Whatever callbacks are registered, as long as the users' functions claim no more bytes than
  they were shown and leave the library's objects alone, the virtual functions of all four stream
  classes are ones for which the theorems on sessions, servers and clients hold.
\<close>

theorem stream_classes_meet_contracts:
  assumes "client_user_ok u" and "server_user_ok opened v" and "keeps_open os opened"
  shows "client_handler_ok (tcp_client_handler os u tc) \<and> client_handler_ok (unix_client_handler os u uc) \<and>
    handler_ok opened (tcp_server_handler os v ts) \<and> handler_ok opened (unix_server_handler os v ux)"
  by (intro conjI tcp_client.handler_ok unix_client.handler_ok tcp_server.handler_ok unix_server.handler_ok assms)

text \<open>
  \<open>unlink(2)\<close>: a success removes that name from the file system, a failure nothing.
\<close>

definition unlink_documented :: "'k os \<Rightarrow> ('k \<Rightarrow> string set) \<Rightarrow> bool" where
  "unlink_documented os files \<longleftrightarrow> (\<forall>path k r k'. os_unlink os path k = (r, k') \<longrightarrow>
     files k' = (case r of Inr _ \<Rightarrow> files k - {path} | Inl _ \<Rightarrow> files k))"

text \<open>The calls of the other destructors: all they do to the kernel is to wake the io thread up.\<close>

lemma wake_up_only:
  assumes "wake_silent os f"
  shows "f (kern (disable_event os ch l)) = f (kern l)" "f (kern (destroy_LoopChannel os ch l)) = f (kern l)"
    "f (kern (channel_post_io_task os life t ch l)) = f (kern l)"
  by (simp_all add: channel_defs posting_defs post_io_kern wake_silentD [OF assms] invalid_access_def)

lemma destroy_client_silent: "wake_silent os f \<Longrightarrow> f (kern (destroy_StreamClientSocket os (c, l))) = f (kern l)"
  by (simp add: destroy_StreamClientSocket_def client_stop_def wake_up_only)

lemma release_session_silent: "wake_silent os f \<Longrightarrow> f (kern (wloop (release_session os s w))) = f (kern (wloop w))"
  by (simp add: release_session_def destroy_StreamSession_def session_stop_def wake_up_only split: option.split)

lemma drop_sessions_silent: "wake_silent os f \<Longrightarrow> f (kern (wloop (drop_sessions os w ss))) = f (kern (wloop w))"
  by (induction ss arbitrary: w) (simp_all add: release_session_silent)

lemma destroy_server_silent: "wake_silent os f \<Longrightarrow> f (kern (wloop (destroy_StreamServerSocket os w))) = f (kern (wloop w))"
  by (simp add: destroy_StreamServerSocket_def Let_def wake_up_only drop_sessions_silent)

lemma cleanup_files:
  assumes "unlink_documented os files" and "p \<noteq> []" and "c_str p = p"
  shows "files (cleanup_path os p k) = (if hd p \<noteq> CHR ''@'' \<and> \<not> isl (fst (os_unlink os p k)) then files k - {p} else files k)"
proof -
  obtain r k' where r: "os_unlink os p k = (r, k')" by fastforce
  then show ?thesis using assms by (cases r) (auto simp: cleanup_path_def hd_conv_nth unlink_documented_def)
qed

lemma unix_path_made:
  assumes "make_unix p = Inr a \<or> (\<exists>n. p = CHR ''@'' # n \<and> make_abstract n = Inr a)"
  shows "unix_path lib a = p" "p \<noteq> []" "hd p \<noteq> CHR ''@'' \<Longrightarrow> c_str p = p"
proof -
  obtain b c where bc: "make_unix ''x'' = Inr b" "make_abstract ''x'' = Inr c"
    by (simp add: make_unix_def make_abstract_def sock_sizes NUL_def)
  show "unix_path lib a = p" using assms unix_names_are_identity [OF _ bc(1) bc(2,2)] unix_names_are_identity [OF bc(1,1) _ bc(2)]
    by (auto simp: unix_path_def)
  show "p \<noteq> []" "hd p \<noteq> CHR ''@'' \<Longrightarrow> c_str p = p" using assms by (auto simp: make_unix_Inr intro: c_str_id)
qed

text \<open>
  C32. Clean-up of socket files. A unix client or server keeps the path it was made for, whatever callbacks are
  set afterwards and whatever happens to its base. Its destruction unlinks that path and no other; for an abstract name,
  which is shown with a leading \<open>@\<close>, it unlinks nothing. A path that itself begins with \<open>@\<close> is
  taken for an abstract name, and its file stays.
\<close>

theorem unix_path_removed_on_destruction:
  assumes "make_unix p = Inr local \<or> (\<exists>n. p = CHR ''@'' # n \<and> make_abstract n = Inr local)"
    and "make_unix_client os lib self local l = Inr (Some c, l1)"
    and "make_unix_server os lib self' fresh local l' = Inr (Some (s, w), l1')"
    and "unlink_documented os files" and "wake_silent os files"
  shows "(let c' = (uc_set_split_cb scb (uc_set_fragment_cb fcb (uc_set_error_cb ecb (uc_set_disconnect_cb dcb c))))\<lparr>uc_base := base\<rparr>;
      s' = ux_set_split_cb scb (ux_set_fragment_cb fcb (ux_set_session_error_cb ecb (ux_set_disconnect_cb dcb s)));
      left = (\<lambda>k. if hd p \<noteq> CHR ''@'' \<and> \<not> isl (fst (os_unlink os p k)) then files k - {p} else files k)
    in files (kern (destroy_UnixClient os c' l2)) = left (kern l2) \<and>
       files (kern (wloop (destroy_UnixServer os s' w2))) = left (kern (wloop w2)))"
proof -
  note path = unix_path_made(1) [where lib = lib, OF assms(1)] unix_path_made(2,3) [OF assms(1)]
  have stored: "uc_path c = p" "ux_path s = p"
    using assms(2,3) path(1) by (auto simp: make_unix_client_def make_unix_server_def Let_def split: if_splits sum.splits)
  have clean: "files (cleanup_path os p k) =
      (if hd p \<noteq> CHR ''@'' \<and> \<not> isl (fst (os_unlink os p k)) then files k - {p} else files k)" for k
    using cleanup_files [OF assms(4) path(2,3)] path(2) by (cases "hd p = CHR ''@''") (simp_all add: cleanup_path_def hd_conv_nth)
  show ?thesis
    by (simp add: destroy_UnixClient_def destroy_UnixServer_def destroy_client_silent [OF assms(5)] destroy_server_silent [OF assms(5)]
      uc_set_split_cb_def uc_set_fragment_cb_def uc_set_error_cb_def uc_set_disconnect_cb_def ux_set_split_cb_def
      ux_set_fragment_cb_def ux_set_session_error_cb_def ux_set_disconnect_cb_def stored clean Let_def)
qed

text \<open>
  C39. A silent timeout. A unix client whose attempt times out is stopped and the error is logged, but the error
  callback is not called: \<open>ETIMEDOUT\<close> is not among the errors it is for, although the base class
  reports every timeout with it. A TCP client with the same callback is told.
\<close>

theorem unix_timeout_not_reported:
  assumes "counter_documented os cnt" and "connected c = ConnConnecting" and "\<not> invalid_channel (connect_timer_channel c)"
    and "uc_error_cb t = Some cb" and "tc_error_cb t' = Some cb"
  shows "\<exists>k. let stopped = (\<lambda>msg. client_stop os (c\<lparr>connected := ConnDisconnected\<rparr>, write_log (LogCode msg ETIMEDOUT)
        (disable_fd os (ch_fd (connect_timer_channel c)) (l\<lparr>kern := k\<rparr>))))
     in connect_timeout os (unix_client_handler os u t) (c, l) = Some (stopped ''unix client err: '') \<and>
       connect_timeout os (tcp_client_handler os u t') (c, l) = Some (cu_notify u cb (stopped ''tcp client err: ''))"
proof -
  obtain k where d: "drain_counter os (ch_fd (connect_timer_channel c)) (kern l) = Some (EAGAIN, k)"
    using drain_counter_returns [OF assms(1)] by blast
  show ?thesis using assms(2-5) d
    by (intro exI [of _ k]) (simp add: connect_timeout_def get_fd_valid unix_client.error tcp_client.error fail_client_def
      unix_reported_def tcp_reported_def disable_event_def Let_def)
qed

section \<open>Witnesses\<close>

lemma ref_os_unlink: "unlink_documented ref_os (\<lambda>k. set (k_files k))"
  by (auto simp: unlink_documented_def ref_os_def split: if_splits)

lemma demo_client_user_ok: "client_user_ok demo_client_user"
  by (simp add: client_user_ok_def demo_client_user_def)

definition demo_unix_client :: UnixClient where
  "demo_unix_client = \<lparr>uc_base = demo_client, uc_split_cb = None, uc_fragment_cb = None, uc_error_cb = Some 1,
     uc_disconnect_cb = None, uc_path = ''bus''\<rparr>"

definition demo_unix_server :: UnixServer where
  "demo_unix_server = \<lparr>ux_split_cb = Some 1, ux_fragment_cb = Some 2, ux_session_error_cb = None, ux_disconnect_cb = None,
     ux_path = ''@bus''\<rparr>"

theorem stream_classes_meet_contracts_witness:
  "client_handler_ok (unix_client_handler ref_os demo_client_user demo_unix_client) \<and>
   handler_ok (\<lambda>k. set (k_open k)) (unix_server_handler ref_os demo_server_user demo_unix_server)"
  using stream_classes_meet_contracts [OF demo_client_user_ok demo_server_user_ok ref_os_keeps_open,
    of demo_tcp_client demo_unix_client demo_tcp_server demo_unix_server] by blast

lemma ref_os_wake_files: "wake_silent ref_os (\<lambda>k. set (k_files k))"
  by (auto simp: wake_silent_def ref_os_def)

text \<open>A kernel that numbers its sockets 5 and its timers 6.\<close>

definition roomy_os :: "kstate os" where
  "roomy_os = ref_os\<lparr>os_socket := (\<lambda>fam stream k. (Inr 5, k)), os_timerfd_create := (\<lambda>k. (Inr 6, k))\<rparr>"

lemma roomy_os_files: "unlink_documented roomy_os (\<lambda>k. set (k_files k))" "wake_silent roomy_os (\<lambda>k. set (k_files k))"
  using ref_os_unlink ref_os_wake_files by (simp_all add: unlink_documented_def wake_silent_def roomy_os_def)

lemma unix_sockets_made:
  assumes "make_unix ''bus'' = Inr a"
  shows "\<exists>c l1. make_unix_client roomy_os demo_lib 7 a demo_client_loop = Inr (Some c, l1)"
    and "\<exists>s w l1. make_unix_server roomy_os demo_lib 7 8 a demo_session_loop = Inr (Some (s, w), l1)"
  using assms
  by (auto simp: make_unix_client_def make_unix_server_def construct_StreamClientSocket_def construct_StreamServerSocket_def
      make_stream_client_channel_def make_stream_server_channel_def make_net_timer_channel_def
      open_channel_def roomy_os_def ref_os_def make_unix_Inr get_sockaddr_def Let_def AF_UNIX_def AF_INET_def
      AF_INET6_def construct_LoopChannel_def move_LoopChannel_def)

theorem unix_path_removed_on_destruction_witness:
  "\<exists>a c l1. make_unix ''bus'' = Inr a \<and> make_unix_client roomy_os demo_lib 7 a demo_client_loop = Inr (Some c, l1) \<and>
     set (k_files (kern (destroy_UnixClient roomy_os (uc_set_error_cb (Some 1) c)
       (demo_client_loop\<lparr>kern := k_init\<lparr>k_files := [''log'', ''bus'']\<rparr>\<rparr>)))) = {''log''}"
proof -
  obtain a where a: "make_unix ''bus'' = Inr a" by (simp add: make_unix_def sock_sizes NUL_def)
  obtain c l1 s w l2 where made: "make_unix_client roomy_os demo_lib 7 a demo_client_loop = Inr (Some c, l1)"
    "make_unix_server roomy_os demo_lib 7 8 a demo_session_loop = Inr (Some (s, w), l2)"
    using unix_sockets_made [OF a] by blast
  let ?k = "k_init\<lparr>k_files := [''log'', ''bus'']\<rparr>"
  have c: "uc_split_cb c = None" "uc_fragment_cb c = None" "uc_disconnect_cb c = None"
    using made(1) by (auto simp: make_unix_client_def split: if_splits sum.splits)
  have same: "(uc_set_split_cb None (uc_set_fragment_cb None (uc_set_error_cb (Some 1) (uc_set_disconnect_cb None c))))
      \<lparr>uc_base := uc_base c\<rparr> = uc_set_error_cb (Some 1) c"
    using c by (cases c) (simp add: uc_set_split_cb_def uc_set_fragment_cb_def uc_set_error_cb_def uc_set_disconnect_cb_def)
  have "\<not> isl (fst (os_unlink roomy_os ''bus'' ?k))" "hd ''bus'' \<noteq> CHR ''@''" "set (k_files ?k) - {''bus''} = {''log''}"
    by (auto simp: roomy_os_def ref_os_def)
  then have "set (k_files (kern (destroy_UnixClient roomy_os (uc_set_error_cb (Some 1) c) (demo_client_loop\<lparr>kern := ?k\<rparr>)))) = {''log''}"
    using unix_path_removed_on_destruction [OF disjI1 [OF a] made roomy_os_files,
        where scb = None and fcb = None and ecb = "Some 1" and dcb = None and base = "uc_base c"] same by simp
  then show ?thesis using a made(1) by blast
qed

theorem unix_timeout_not_reported_witness:
  "\<exists>st. connect_timeout ref_os (unix_client_handler ref_os demo_client_user demo_unix_client)
      (demo_client\<lparr>connected := ConnConnecting\<rparr>, demo_client_loop) = Some st \<and>
    fst st = demo_client\<lparr>connected := ConnDisconnected\<rparr>"
proof -
  let ?c = "demo_client\<lparr>connected := ConnConnecting\<rparr>"
  have c: "connected ?c = ConnConnecting" "\<not> invalid_channel (connect_timer_channel ?c)"
    using demo_client_ok(1) by (simp_all add: client_inv_def)
  have "uc_error_cb demo_unix_client = Some 1" "tc_error_cb demo_tcp_client = Some 1"
    by (simp_all add: demo_unix_client_def demo_tcp_client_def)
  from unix_timeout_not_reported [OF ref_os_counter c this, where u = demo_client_user and l = demo_client_loop]
  show ?thesis by (auto simp: Let_def demo_client_def client_stop_def)
qed

end
