(* ===== verification/Dgram.thy ===== *)
theory Dgram
  imports Channel_Factory Stream_IO
begin

text \<open>
  \<open>DgramSocket\<close> (\<open>include/kzevent/net/inet.hpp\<close>, \<open>src/net/inet.cpp\<close>), the base of the UDP sockets: sending
  and receiving one datagram, multicast groups, the event callback that reads until the socket has
  nothing more. The virtual functions act on the object \<open>'s\<close> of the derived class and on the loop.
  The receive buffer is overwritten by every call and read up to the length of the call, so it is not a
  field: a call returns the bytes. \<open>'u\<close> are the closures of the derived class and of users.
\<close>

section \<open>State\<close>

datatype 'u dgram_closure = DgramSend LifeChecker "byte list" InetAddr | DgramHeavy 'u

datatype dgram_callback = DgramEvent LifeChecker | SessionScan LifeChecker

type_synonym ('k, 'u) dgram_loop = "('k, dgram_callback, 'u dgram_closure) Loop"

record DgramSocket =
  dgram_channel :: LoopChannel
  dg_started :: bool
  dg_self :: LifeChecker

record ('s, 'k, 'u) dgram_handler =
  dg_on_read :: "byte list \<Rightarrow> InetAddr \<Rightarrow> 's \<times> ('k, 'u) dgram_loop \<Rightarrow> 's \<times> ('k, 'u) dgram_loop"
  dg_on_error :: "errno \<Rightarrow> 's \<times> ('k, 'u) dgram_loop \<Rightarrow> 's \<times> ('k, 'u) dgram_loop"

definition kMaxUdpPacketSize :: nat where "kMaxUdpPacketSize = 65535"

section \<open>Operations\<close>

definition dgram_send :: "'k os \<Rightarrow> LoopChannel \<Rightarrow> byte list \<Rightarrow> InetAddr \<Rightarrow> ('k, 'u) dgram_loop \<Rightarrow> ('k, 'u) dgram_loop" where
  "dgram_send os ch bytes addr l =
     (let (fd, l0) = get_fd ch l
      in case os_sendto os fd bytes (get_sockaddr addr) (get_socklen addr) (kern l0) of
           (Inl err, k) \<Rightarrow> (if err \<noteq> EAGAIN then write_log (LogSysError err) (l0\<lparr>kern := k\<rparr>) else l0\<lparr>kern := k\<rparr>)
         | (Inr n, k) \<Rightarrow> l0\<lparr>kern := k\<rparr>)"

text \<open>The returned length, the bytes in the buffer, and the address if there is one.\<close>

definition dgram_recv :: "'k os \<Rightarrow> LoopChannel \<Rightarrow> ('k, 'u) dgram_loop \<Rightarrow>
    (int \<times> byte list \<times> InetAddr option) \<times> ('k, 'u) dgram_loop" where
  "dgram_recv os ch l =
     (let (fd, l0) = get_fd ch l
      in case os_recvfrom os fd kMaxUdpPacketSize (kern l0) of
           (Inl err, k) \<Rightarrow>
             ((-1, [], None), if err \<noteq> EAGAIN then write_log (LogSysError err) (l0\<lparr>kern := k\<rparr>) else l0\<lparr>kern := k\<rparr>)
         | (Inr (bytes, sa, len), k) \<Rightarrow>
             (case make_from_sockaddr (Some sa) len of
                Inl None \<Rightarrow> ((int (length bytes), bytes, None), l0\<lparr>kern := k\<rparr>)
              | Inl (Some e) \<Rightarrow> ((int (length bytes), bytes, None), write_log e (l0\<lparr>kern := k\<rparr>))
              | Inr addr \<Rightarrow> ((int (length bytes), bytes, Some addr), l0\<lparr>kern := k\<rparr>)))"

definition construct_DgramSocket :: "'k os \<Rightarrow> LifeChecker \<Rightarrow> InetAddr \<Rightarrow> ('k, 'u) dgram_loop \<Rightarrow>
    fault + DgramSocket \<times> ('k, 'u) dgram_loop" where
  "construct_DgramSocket os self local l =
     (case make_dgram_channel os local l of
        (None, _) \<Rightarrow> Inl (Thrown ''make udp channel failed'')
      | (Some ch, l') \<Rightarrow> Inr (\<lparr>dgram_channel = fst (move_LoopChannel ch), dg_started = False, dg_self = self\<rparr>, l'))"

text \<open>\<open>INADDR_ANY\<close> and interface 0: the kernel chooses the interface.\<close>

definition set_membership :: "'k os \<Rightarrow> (u32 \<Rightarrow> u32 \<Rightarrow> mcast_opt) \<Rightarrow> (string \<Rightarrow> u32 \<Rightarrow> mcast_opt) \<Rightarrow> InetAddr \<Rightarrow> DgramSocket \<Rightarrow>
    ('k, 'u) dgram_loop \<Rightarrow> ('k, 'u) dgram_loop" where
  "set_membership os opt4 opt6 addr d l =
     (let (fd, l0) = get_fd (dgram_channel d) l;
          set_opt = (\<lambda>opt. case os_membership os fd opt (kern l0) of
            (Inl err, k) \<Rightarrow> write_log (LogSysError err) (l0\<lparr>kern := k\<rparr>) | (Inr _, k) \<Rightarrow> l0\<lparr>kern := k\<rparr>)
      in case get_sockaddr addr of
           SockIn port ip \<Rightarrow> set_opt (opt4 ip 0)
         | SockIn6 port flow ip scope \<Rightarrow> set_opt (opt6 ip 0)
         | _ \<Rightarrow> write_log (LogError ''invalid multicast address!'') l0)"

definition joint_group :: "'k os \<Rightarrow> InetAddr \<Rightarrow> DgramSocket \<Rightarrow> ('k, 'u) dgram_loop \<Rightarrow> ('k, 'u) dgram_loop" where
  "joint_group os = set_membership os IP_ADD_MEMBERSHIP IPV6_JOIN_GROUP"

definition leave_group :: "'k os \<Rightarrow> InetAddr \<Rightarrow> DgramSocket \<Rightarrow> ('k, 'u) dgram_loop \<Rightarrow> ('k, 'u) dgram_loop" where
  "leave_group os = set_membership os IP_DROP_MEMBERSHIP IPV6_LEAVE_GROUP"

definition dgram_post_send_task :: "'k os \<Rightarrow> byte list \<Rightarrow> InetAddr \<Rightarrow> DgramSocket \<Rightarrow> ('k, 'u) dgram_loop \<Rightarrow> ('k, 'u) dgram_loop" where
  "dgram_post_send_task os bytes source d l =
     channel_post_io_task os (dg_self d) (DgramSend (dg_self d) bytes source) (dgram_channel d) l"

definition dgram_post_heavy_task :: "'u \<Rightarrow> DgramSocket \<Rightarrow> ('k, 'u) dgram_loop \<Rightarrow> ('k, 'u) dgram_loop" where
  "dgram_post_heavy_task task d l = channel_post_heavy_task (dg_self d) (DgramHeavy task) (dgram_channel d) l"

text \<open>The closure of \<open>post_send_task\<close>.\<close>

definition dgram_send_closure :: "'k os \<Rightarrow> byte list \<Rightarrow> InetAddr \<Rightarrow> DgramSocket \<Rightarrow> ('k, 'u) dgram_loop \<Rightarrow> ('k, 'u) dgram_loop" where
  "dgram_send_closure os bytes source d l = dgram_send os (dgram_channel d) bytes source l"

text \<open>The read loop of the event callback, and the callback.\<close>

partial_function (option) dgram_read_loop :: "'k os \<Rightarrow> LoopChannel \<Rightarrow>
    (byte list \<Rightarrow> InetAddr \<Rightarrow> 's \<times> ('k, 'u) dgram_loop \<Rightarrow> 's \<times> ('k, 'u) dgram_loop) \<Rightarrow>
    's \<times> ('k, 'u) dgram_loop \<Rightarrow> ('s \<times> ('k, 'u) dgram_loop) option" where
  "dgram_read_loop os ch on_read st =
     (case dgram_recv os ch (snd st) of ((len, bytes, source), l) \<Rightarrow>
        (case source of
           None \<Rightarrow> Some (fst st, l)
         | Some addr \<Rightarrow> dgram_read_loop os ch on_read (on_read (take (nat len) bytes) addr (fst st, l))))"

definition dgram_event :: "'k os \<Rightarrow> ('s, 'k, 'u) dgram_handler \<Rightarrow> EventType \<Rightarrow> DgramSocket \<Rightarrow>
    's \<times> ('k, 'u) dgram_loop \<Rightarrow> ('s \<times> ('k, 'u) dgram_loop) option" where
  "dgram_event os h types d st =
     (case (if has_event types kRead then dgram_read_loop os (dgram_channel d) (dg_on_read h) st else Some st) of
        None \<Rightarrow> None
      | Some (s, l) \<Rightarrow> Some (
          if has_event types kError
          then let (fd, l0) = get_fd (dgram_channel d) l
               in case os_so_error os fd (kern l0) of
                    (None, k) \<Rightarrow> (s, l0\<lparr>kern := k\<rparr>)
                  | (Some err, k) \<Rightarrow> dg_on_error h err (s, l0\<lparr>kern := k\<rparr>)
          else (s, l)))"

definition dgram_start :: "'k os \<Rightarrow> DgramSocket \<times> ('k, 'u) dgram_loop \<Rightarrow> DgramSocket \<times> ('k, 'u) dgram_loop" where
  "dgram_start os st =
     (case st of (d, l) \<Rightarrow>
        if dg_started d then (d, l)
        else let (ch, l') = update_event_cb os (dg_self d) (event_or kRead kError) kDefault (DgramEvent (dg_self d)) (dgram_channel d) l
             in (d\<lparr>dg_started := True, dgram_channel := ch\<rparr>, l'))"

definition dgram_stop :: "'k os \<Rightarrow> DgramSocket \<times> ('k, 'u) dgram_loop \<Rightarrow> DgramSocket \<times> ('k, 'u) dgram_loop" where
  "dgram_stop os st = (case st of (d, l) \<Rightarrow> (d\<lparr>dg_started := False\<rparr>, disable_event os (dgram_channel d) l))"

definition destroy_DgramSocket :: "'k os \<Rightarrow> DgramSocket \<Rightarrow> ('k, 'u) dgram_loop \<Rightarrow> ('k, 'u) dgram_loop" where
  "destroy_DgramSocket os d l =
     (case dgram_stop os (d, l\<lparr>live := live l - {dg_self d}\<rparr>) of (d', l') \<Rightarrow> destroy_LoopChannel os (dgram_channel d') l')"

section \<open>Lemmas\<close>

text \<open>A datagram as it is handed over: cut to the buffer, with the address it came from.\<close>

definition parsable :: "byte list \<times> sockaddr \<times> nat \<Rightarrow> bool" where
  "parsable d \<longleftrightarrow> (case d of (whole, sa, len) \<Rightarrow> \<exists>a. make_from_sockaddr (Some sa) len = Inr a)"

definition handed_over :: "byte list \<times> sockaddr \<times> nat \<Rightarrow> byte list \<times> InetAddr" where
  "handed_over d = (case d of (whole, sa, len) \<Rightarrow> (take kMaxUdpPacketSize whole, projr (make_from_sockaddr (Some sa) len)))"

lemma dgram_recv_effect:
  assumes doc: "dgram_documented os arrived out" and ch: "\<not> invalid_channel ch"
    and par: "\<forall>d \<in> set (arrived (kern l) (ch_fd ch)). parsable d" and recv: "dgram_recv os ch l = ((len, bytes, src), l')"
  shows "src = Some addr \<Longrightarrow> \<exists>d. arrived (kern l) (ch_fd ch) = d # arrived (kern l') (ch_fd ch) \<and>
      (take (nat len) bytes, addr) = handed_over d \<and> elog l' = elog l"
    and "src = None \<Longrightarrow> arrived (kern l') = arrived (kern l) \<and>
      (arrived (kern l) (ch_fd ch) = [] \<or> (\<exists>err. elog l' = elog l @ [LogSysError err]))"
proof -
  obtain r k where r: "os_recvfrom os (ch_fd ch) kMaxUdpPacketSize (kern l) = (r, k)" by fastforce
  note D = recvfrom_documentedD [OF doc r]
  note unf = recv [unfolded dgram_recv_def get_fd_valid [OF ch] Let_def prod.case r]
  have "(\<forall>addr. src = Some addr \<longrightarrow> (\<exists>d. arrived (kern l) (ch_fd ch) = d # arrived (kern l') (ch_fd ch) \<and>
      (take (nat len) bytes, addr) = handed_over d \<and> elog l' = elog l)) \<and> (src = None \<longrightarrow> arrived (kern l') = arrived (kern l) \<and>
      (arrived (kern l) (ch_fd ch) = [] \<or> (\<exists>err. elog l' = elog l @ [LogSysError err])))"
  proof (cases r)
    case (Inl err)
    then show ?thesis using unf D(2,3) by (auto simp: write_log_def split: if_splits)
  next
    case (Inr x)
    obtain bs sa slen where x: "x = (bs, sa, slen)" by (metis prod.exhaust)
    from D(4) Inr x obtain whole where w: "arrived (kern l) (ch_fd ch) = (whole, sa, slen) # arrived k (ch_fd ch)"
      "bs = take kMaxUdpPacketSize whole" by blast
    then obtain a where a: "make_from_sockaddr (Some sa) slen = Inr a" using par by (auto simp: parsable_def)
    have "handed_over (whole, sa, slen) = (bs, a)" by (simp add: handed_over_def a w(2))
    then show ?thesis using unf Inr x a w(1) by auto
  qed
  then show "src = Some addr \<Longrightarrow> \<exists>d. arrived (kern l) (ch_fd ch) = d # arrived (kern l') (ch_fd ch) \<and>
      (take (nat len) bytes, addr) = handed_over d \<and> elog l' = elog l"
    "src = None \<Longrightarrow> arrived (kern l') = arrived (kern l) \<and>
      (arrived (kern l) (ch_fd ch) = [] \<or> (\<exists>err. elog l' = elog l @ [LogSysError err]))" by blast+
qed

lemma dgram_recv_valid: "dgram_recv os ch l = ((len, bytes, Some addr), l') \<Longrightarrow> valid_addr addr"
  by (auto simp: dgram_recv_def Let_def split: prod.splits sum.splits option.splits dest: received_addr_valid)

text \<open>A handler that only adds to the log, and a loop that ended with an error it logged.\<close>

definition adds_to_log :: "(byte list \<Rightarrow> InetAddr \<Rightarrow> 's \<times> ('k, 'u) dgram_loop \<Rightarrow> 's \<times> ('k, 'u) dgram_loop) \<Rightarrow> bool" where
  "adds_to_log on_read \<longleftrightarrow> (\<forall>data addr st. \<exists>more. elog (snd (on_read data addr st)) = elog (snd st) @ more)"

definition read_failed :: "('k, 'u) dgram_loop \<Rightarrow> ('k, 'u) dgram_loop \<Rightarrow> bool" where
  "read_failed l l' \<longleftrightarrow> (\<exists>pre err. elog l' = elog l @ pre @ [LogSysError err])"

text \<open>
  The loop hands over datagrams in the order of arrival. \<open>Q ds st\<close> holds after \<open>on_read\<close> has been called
  with \<open>ds\<close>; receiving does not disturb it.
\<close>

lemma dgram_read_loop_returns:
  assumes doc: "dgram_documented os arrived out" and ch: "\<not> invalid_channel ch"
    and quiet: "\<And>data addr s l. arrived (kern (snd (on_read data addr (s, l)))) = arrived (kern l)"
    and frame: "\<And>ds s l r l1. dgram_recv os ch l = (r, l1) \<Longrightarrow> Q ds (s, l) \<Longrightarrow> Q ds (s, l1)"
    and handle: "\<And>ds data addr s l. valid_addr addr \<Longrightarrow> Q ds (s, l) \<Longrightarrow> Q (ds @ [(data, addr)]) (on_read data addr (s, l))"
  shows "\<forall>d \<in> set (arrived (kern l) (ch_fd ch)). parsable d \<Longrightarrow> Q ds (s, l) \<Longrightarrow>
    \<exists>s' l' n. dgram_read_loop os ch on_read (s, l) = Some (s', l') \<and>
      n \<le> length (arrived (kern l) (ch_fd ch)) \<and> Q (ds @ map handed_over (take n (arrived (kern l) (ch_fd ch)))) (s', l') \<and>
      arrived (kern l') (ch_fd ch) = drop n (arrived (kern l) (ch_fd ch)) \<and>
      (n = length (arrived (kern l) (ch_fd ch)) \<or> (\<exists>pre err. elog l' = pre @ [LogSysError err])) \<and>
      (adds_to_log on_read \<longrightarrow> n = length (arrived (kern l) (ch_fd ch)) \<or> read_failed l l')"
proof (induction "length (arrived (kern l) (ch_fd ch))" arbitrary: ds s l rule: less_induct)
  case less
  obtain len bytes src l1 where r: "dgram_recv os ch l = ((len, bytes, src), l1)" by (metis prod.exhaust)
  note E = dgram_recv_effect [OF doc ch less.prems(1) r] and q1 = frame [OF r less.prems(2)]
  show ?case
  proof (cases src)
    case None
    then have "dgram_read_loop os ch on_read (s, l) = Some (s, l1)"
      using r by (simp add: dgram_read_loop.simps [of os ch])
    then show ?thesis using E(2) [OF None] q1 by (intro exI [of _ s] exI [of _ l1] exI [of _ 0]) (auto simp: read_failed_def)
  next
    case (Some addr)
    obtain s2 l2 where o: "on_read (take (nat len) bytes) addr (s, l1) = (s2, l2)" by fastforce
    from E(1) [OF Some] obtain d where d: "arrived (kern l) (ch_fd ch) = d # arrived (kern l1) (ch_fd ch)"
      "(take (nat len) bytes, addr) = handed_over d" "elog l1 = elog l" by blast
    have a2: "arrived (kern l2) = arrived (kern l1)" using quiet [of "take (nat len) bytes" addr s l1] o by simp
    have q2: "Q (ds @ [handed_over d]) (s2, l2)"
      using handle [OF dgram_recv_valid [OF r [unfolded Some]] q1, of "take (nat len) bytes"] o d(2) by simp
    have "length (arrived (kern l2) (ch_fd ch)) < length (arrived (kern l) (ch_fd ch))"
      "\<forall>d \<in> set (arrived (kern l2) (ch_fd ch)). parsable d" using d(1) a2 less.prems(1) by auto
    from less.hyps [OF this q2] obtain s' l' n where
      R: "dgram_read_loop os ch on_read (s2, l2) = Some (s', l')" "n \<le> length (arrived (kern l2) (ch_fd ch))"
      "Q ((ds @ [handed_over d]) @ map handed_over (take n (arrived (kern l2) (ch_fd ch)))) (s', l')"
      "arrived (kern l') (ch_fd ch) = drop n (arrived (kern l2) (ch_fd ch))"
      "n = length (arrived (kern l2) (ch_fd ch)) \<or> (\<exists>pre err. elog l' = pre @ [LogSysError err])"
      "adds_to_log on_read \<longrightarrow> n = length (arrived (kern l2) (ch_fd ch)) \<or> read_failed l2 l'" by blast
    have log: "adds_to_log on_read \<longrightarrow> n = length (arrived (kern l2) (ch_fd ch)) \<or> read_failed l l'"
    proof (intro impI)
      assume a: "adds_to_log on_read"
      then obtain more where "elog l2 = elog l @ more" using o d(3) unfolding adds_to_log_def by (metis snd_conv)
      then show "n = length (arrived (kern l2) (ch_fd ch)) \<or> read_failed l l'" using R(6) a by (auto simp: read_failed_def)
    qed
    have "dgram_read_loop os ch on_read (s, l) = Some (s', l')"
      using r Some o R(1) by (simp add: dgram_read_loop.simps [of os ch _ "(s, l)"])
    then show ?thesis using R(2-5) log a2 d(1)
      by (intro exI [of _ s'] exI [of _ l'] exI [of _ "Suc n"]) auto
  qed
qed

text \<open>A property of the object and the loop that every call of \<open>on_read\<close> keeps, whatever the kernel does.\<close>

lemma dgram_read_loop_keeps:
  assumes frame: "\<And>s l r l1. dgram_recv os ch l = (r, l1) \<Longrightarrow> P (s, l) \<Longrightarrow> P (s, l1)"
    and handle: "\<And>data addr s l. valid_addr addr \<Longrightarrow> P (s, l) \<Longrightarrow> P (on_read data addr (s, l))"
    and run: "dgram_read_loop os ch on_read st = Some st'" and start: "P st"
  shows "P st'"
proof -
  have "(os', ch', f) = (os, ch, on_read) \<longrightarrow> P st \<longrightarrow> P st'" if "dgram_read_loop os' ch' f st = Some st'" for os' ch' f
    using that
  proof (rule dgram_read_loop.raw_induct [where P = "\<lambda>os' ch' f st st'. (os', ch', f) = (os, ch, on_read) \<longrightarrow> P st \<longrightarrow> P st'", rotated], goal_cases)
    case (1 loop os' ch' f st st')
    obtain len bytes src l1 where r: "dgram_recv os' ch' (snd st) = ((len, bytes, src), l1)" by (metis prod.exhaust)
    show ?case
    proof (intro impI)
      assume same: "(os', ch', f) = (os, ch, on_read)" and p: "P st"
      have p1: "P (fst st, l1)" using frame [of "snd st" _ l1 "fst st"] r same p by simp
      show "P st'"
      proof (cases src)
        case None
        then show ?thesis using 1(2) r p1 by simp
      next
        case (Some addr)
        have "valid_addr addr" using dgram_recv_valid r Some by blast
        from handle [OF this p1] have "P (f (take (nat len) bytes) addr (fst st, l1))" using same by simp
        then show ?thesis using 1(1) 1(2) r Some same by simp
      qed
    qed
  qed
  then show ?thesis using run start by blast
qed

section \<open>Properties\<close>

text \<open>
  C20. Receiving. On a read event the loop of a datagram socket returns. It hands the datagrams that have
  arrived to \<open>on_read\<close> one by one, in order, each whole (a UDP datagram fits the buffer) and with the
  address it came from. It stops when none is left, or at the first call that fails, whose error it
  logs: then the rest stays in the socket.
\<close>

theorem datagrams_read_in_order:
  assumes "dgram_documented os arrived out" and "\<not> invalid_channel (dgram_channel d)"
    and "\<And>data addr s l. arrived (kern (snd (dg_on_read h data addr (s, l)))) = arrived (kern l)"
    and "\<And>data addr s l. seen (fst (dg_on_read h data addr (s, l))) = seen s @ [(data, addr)]"
    and "\<forall>(whole, sa, len) \<in> set (arrived (kern l) (ch_fd (dgram_channel d))).
      length whole \<le> 65535 \<and> (\<exists>a. make_from_sockaddr (Some sa) len = Inr a)"
    and "has_event types kRead" and "\<not> has_event types kError"
  shows "\<exists>s' l' n. dgram_event os h types d (s, l) = Some (s', l') \<and>
    seen s' = seen s @ map (\<lambda>(whole, sa, len). (whole, projr (make_from_sockaddr (Some sa) len)))
      (take n (arrived (kern l) (ch_fd (dgram_channel d)))) \<and>
    arrived (kern l') (ch_fd (dgram_channel d)) = drop n (arrived (kern l) (ch_fd (dgram_channel d))) \<and>
    (arrived (kern l') (ch_fd (dgram_channel d)) = [] \<or> (\<exists>pre err. elog l' = pre @ [LogSysError err]))"
proof -
  let ?ds = "arrived (kern l) (ch_fd (dgram_channel d))"
  have par: "\<forall>d \<in> set ?ds. parsable d" using assms(5) by (auto simp: parsable_def)
  have "\<exists>s' l' n. dgram_read_loop os (dgram_channel d) (dg_on_read h) (s, l) = Some (s', l') \<and> n \<le> length ?ds \<and>
      seen (fst (s', l')) = seen s @ [] @ map handed_over (take n ?ds) \<and> arrived (kern l') (ch_fd (dgram_channel d)) = drop n ?ds \<and>
      (n = length ?ds \<or> (\<exists>pre err. elog l' = pre @ [LogSysError err])) \<and>
      (adds_to_log (dg_on_read h) \<longrightarrow> n = length ?ds \<or> read_failed l l')"
    using assms(4) by (intro dgram_read_loop_returns [where Q = "\<lambda>ds st. seen (fst st) = seen s @ ds", OF assms(1-3) _ _ par]) auto
  then obtain s' l' n where
    R: "dgram_read_loop os (dgram_channel d) (dg_on_read h) (s, l) = Some (s', l')" "seen s' = seen s @ map handed_over (take n ?ds)"
    "arrived (kern l') (ch_fd (dgram_channel d)) = drop n ?ds" "n = length ?ds \<or> (\<exists>pre err. elog l' = pre @ [LogSysError err])" by auto
  have "map handed_over (take n ?ds) = map (\<lambda>(whole, sa, len). (whole, projr (make_from_sockaddr (Some sa) len))) (take n ?ds)"
    using assms(5) by (intro map_cong) (auto simp: handed_over_def kMaxUdpPacketSize_def dest!: in_set_takeD)
  moreover have "dgram_event os h types d (s, l) = Some (s', l')" using R(1) assms(6,7) by (simp add: dgram_event_def)
  ultimately show ?thesis using R by (intro exI [of _ s'] exI [of _ l'] exI [of _ n]) auto
qed

definition demo_dgram :: DgramSocket where
  "demo_dgram = \<lparr>dgram_channel = demo_channel, dg_started = True, dg_self = 7\<rparr>"

definition demo_dgram_loop :: "(kstate, nat) dgram_loop" where
  "demo_dgram_loop = make_Loop 3 4 (k_init\<lparr>k_dgrams := (\<lambda>_. [])(5 := [([1, 2], SockIn 80 1, 16), ([3], SockIn 80 2, 16)]),
     k_room := (\<lambda>_. 8)\<rparr>) {7}"

definition recorder :: "((byte list \<times> InetAddr) list, kstate, nat) dgram_handler" where
  "recorder = \<lparr>dg_on_read = (\<lambda>data addr (s, l). (s @ [(data, addr)], l)), dg_on_error = (\<lambda>err st. st)\<rparr>"

theorem datagrams_read_in_order_witness:
  "\<exists>s' l'. dgram_event ref_os recorder kRead demo_dgram ([], demo_dgram_loop) = Some (s', l') \<and>
     (\<exists>n. map fst s' = take n [[1, 2], [3]])"
proof -
  have "\<not> invalid_channel (dgram_channel demo_dgram)" using demo_channel_valid by (simp add: demo_dgram_def)
  moreover have "has_event kRead kRead" "\<not> has_event kRead kError"
    by (simp_all add: has_event_def event_and_def kRead_def kError_def)
  moreover have ds: "k_dgrams (kern demo_dgram_loop) (ch_fd (dgram_channel demo_dgram)) = [([1, 2], SockIn 80 1, 16), ([3], SockIn 80 2, 16)]"
    by (simp add: demo_dgram_loop_def make_Loop_def demo_dgram_def demo_channel_def)
  moreover have "\<forall>(whole, sa, len) \<in> set (k_dgrams (kern demo_dgram_loop) (ch_fd (dgram_channel demo_dgram))).
      length whole \<le> 65535 \<and> (\<exists>a. make_from_sockaddr (Some sa) len = Inr a)"
    by (simp add: ds make_from_sockaddr_def sizeof_sockaddr_in_def)
  ultimately obtain s' l' n where R: "dgram_event ref_os recorder kRead demo_dgram ([], demo_dgram_loop) = Some (s', l')"
    "s' = [] @ map (\<lambda>(whole, sa, len). (whole, projr (make_from_sockaddr (Some sa) len)))
      (take n (k_dgrams (kern demo_dgram_loop) (ch_fd (dgram_channel demo_dgram))))"
    using datagrams_read_in_order [OF ref_os_dgram, of demo_dgram recorder "\<lambda>s. s" demo_dgram_loop kRead "[]"]
    by (auto simp: recorder_def)
  have "map fst s' = take n [[1, 2], [3]]" unfolding R(2) ds by (simp add: take_map [symmetric])
  then show ?thesis using R(1) by blast
qed

end
