(* ===== verification/Udp_Socket.thy ===== *)
theory Udp_Socket
  imports Dgram Timer
begin

text \<open>
  The UDP sockets (\<open>include/kzevent/net/udp_socket.hpp\<close>, \<open>src/net/udp_socket.cpp\<close>) over \<open>DgramSocket\<close>: a
  node that hears everyone, a client with one peer, a server with a session per peer. A callback
  the user may register is an optional number. \<open>sessions\<close> of the server, an \<open>unordered_map\<close> keyed by
  address, is the list of its entries; its keys are compared with \<open>operator==\<close>. The sessions are
  objects of a store, which closures and user code reach by name.
\<close>

section \<open>State\<close>

datatype udp_closure =
    NodeRead LifeChecker "byte list" InetAddr
  | ClientRead LifeChecker "byte list"
  | NewSession LifeChecker nat "byte list"
  | SessionRead LifeChecker nat "byte list"
  | UdpUser nat

type_synonym 'k udp_loop = "('k, udp_closure) dgram_loop"

record UdpNode =
  node_dgram :: DgramSocket
  node_read_cb :: "nat option"

record UdpClient =
  client_dgram :: DgramSocket
  client_read_cb :: "nat option"
  client_error_cb :: "nat option"
  client_source :: InetAddr

record UdpSession =
  us_user_context :: "nat option"
  us_source :: InetAddr
  us_time_stamp :: int
  us_server :: LifeChecker

record UdpServer =
  server_dgram :: DgramSocket
  new_session_cb :: "nat option"
  server_read_cb :: "nat option"
  udp_sessions :: "(InetAddr \<times> nat) list"
  session_store :: "nat \<Rightarrow> UdpSession option"
  next_session :: nat
  server_local :: InetAddr
  scan_channel :: LoopChannel
  session_timeout_ms :: u64
  scan_started :: bool

definition kMinScanIntervalMs :: u64 where "kMinScanIntervalMs = 100"
definition kMaxScanIntervalMs :: u64 where "kMaxScanIntervalMs = 10000"
definition kScanFrequencyDivisor :: u64 where "kScanFrequencyDivisor = 10"

section \<open>Node\<close>

definition make_udp_node :: "'k os \<Rightarrow> LifeChecker \<Rightarrow> InetAddr \<Rightarrow> 'k udp_loop \<Rightarrow> fault + UdpNode option \<times> 'k udp_loop" where
  "make_udp_node os self local l =
     (if \<not> is_inet local then Inr (None, write_log (LogError ''udp node err: unsupported protocol'') l)
      else and_then (construct_DgramSocket os self local l) (\<lambda>(d, l1).
        case dgram_start os (d, l1\<lparr>live := insert self (live l1)\<rparr>) of (d', l2) \<Rightarrow>
          Inr (Some \<lparr>node_dgram = d', node_read_cb = None\<rparr>, l2)))"

definition node_set_read_cb :: "nat option \<Rightarrow> UdpNode \<Rightarrow> UdpNode" where
  "node_set_read_cb cb n = n\<lparr>node_read_cb := cb\<rparr>"

definition node_on_read :: "byte list \<Rightarrow> InetAddr \<Rightarrow> UdpNode \<times> 'k udp_loop \<Rightarrow> UdpNode \<times> 'k udp_loop" where
  "node_on_read data source st =
     (case st of (n, l) \<Rightarrow>
        if node_read_cb n = None then (n, l)
        else (n, dgram_post_heavy_task (NodeRead (dg_self (node_dgram n)) data source) (node_dgram n) l))"

definition node_on_error :: "errno \<Rightarrow> UdpNode \<times> 'k udp_loop \<Rightarrow> UdpNode \<times> 'k udp_loop" where
  "node_on_error err st = (case st of (n, l) \<Rightarrow> (n, write_log (LogCode ''udp node err: '' err) l))"

section \<open>Client\<close>

definition make_udp_client :: "'k os \<Rightarrow> LifeChecker \<Rightarrow> InetAddr \<Rightarrow> InetAddr \<Rightarrow> 'k udp_loop \<Rightarrow>
    fault + UdpClient option \<times> 'k udp_loop" where
  "make_udp_client os self local source l =
     (if \<not> is_inet local then Inr (None, write_log (LogError ''udp client err: unsupported protocol'') l)
      else if sa_family (get_sockaddr local) \<noteq> sa_family (get_sockaddr source)
      then Inr (None, write_log (LogError ''udp client err: source and target protocol mismatch'') l)
      else and_then (construct_DgramSocket os self local l) (\<lambda>(d, l1).
        case dgram_start os (d, l1\<lparr>live := insert self (live l1)\<rparr>) of (d', l2) \<Rightarrow>
          Inr (Some \<lparr>client_dgram = d', client_read_cb = None, client_error_cb = None, client_source = source\<rparr>, l2)))"

definition client_set_read_cb :: "nat option \<Rightarrow> UdpClient \<Rightarrow> UdpClient" where
  "client_set_read_cb cb c = c\<lparr>client_read_cb := cb\<rparr>"

definition client_set_error_cb :: "nat option \<Rightarrow> UdpClient \<Rightarrow> UdpClient" where
  "client_set_error_cb cb c = c\<lparr>client_error_cb := cb\<rparr>"

definition udp_client_post_send_task :: "'k os \<Rightarrow> byte list \<Rightarrow> UdpClient \<Rightarrow> 'k udp_loop \<Rightarrow> 'k udp_loop" where
  "udp_client_post_send_task os data c l = dgram_post_send_task os data (client_source c) (client_dgram c) l"

definition udp_client_on_read :: "byte list \<Rightarrow> InetAddr \<Rightarrow> UdpClient \<times> 'k udp_loop \<Rightarrow> UdpClient \<times> 'k udp_loop" where
  "udp_client_on_read data source st =
     (case st of (c, l) \<Rightarrow>
        if client_read_cb c = None then (c, l)
        else if addr_neq source (client_source c)
        then (c, write_log (LogInfo ''udp client read data from unexpected source'') l)
        else (c, dgram_post_heavy_task (ClientRead (dg_self (client_dgram c)) data) (client_dgram c) l))"

text \<open>\<open>run_cb\<close> is what a registered callback of the user does when it is called on the io thread.\<close>

definition udp_client_on_error :: "(nat \<Rightarrow> 'k udp_loop \<Rightarrow> 'k udp_loop) \<Rightarrow> errno \<Rightarrow> UdpClient \<times> 'k udp_loop \<Rightarrow>
    UdpClient \<times> 'k udp_loop" where
  "udp_client_on_error run_cb err st =
     (case st of (c, l) \<Rightarrow>
        let l1 = write_log (LogCode ''udp client err: '' err) l
        in case client_error_cb c of
             None \<Rightarrow> (c, l1)
           | Some cb \<Rightarrow> (c, if err = ECONNREFUSED then run_cb cb l1 else l1))"

section \<open>Server\<close>

text \<open>The factory of a session: a wrong family is logged, and the session is made all the same.\<close>

definition make_udp_session :: "UdpServer \<Rightarrow> InetAddr \<Rightarrow> int \<Rightarrow> 'k udp_loop \<Rightarrow> UdpSession \<times> 'k udp_loop" where
  "make_udp_session srv source stamp l =
     (\<lparr>us_user_context = None, us_source = source, us_time_stamp = stamp, us_server = dg_self (server_dgram srv)\<rparr>,
      if sa_family (get_sockaddr (server_local srv)) \<noteq> sa_family (get_sockaddr source)
      then write_log (LogError ''udp session err: source and target protocol mismatch'') l else l)"

definition us_set_user_context :: "nat option \<Rightarrow> UdpSession \<Rightarrow> UdpSession" where
  "us_set_user_context ctx ss = ss\<lparr>us_user_context := ctx\<rparr>"

definition us_get_user_context :: "UdpSession \<Rightarrow> nat option" where
  "us_get_user_context ss = us_user_context ss"

definition us_post_send_task :: "'k os \<Rightarrow> byte list \<Rightarrow> UdpSession \<Rightarrow> UdpServer \<Rightarrow> 'k udp_loop \<Rightarrow> 'k udp_loop" where
  "us_post_send_task os data ss srv l =
     (if us_server ss \<notin> live l then l else dgram_post_send_task os data (us_source ss) (server_dgram srv) l)"

definition us_post_heavy_task :: "nat \<Rightarrow> UdpSession \<Rightarrow> UdpServer \<Rightarrow> 'k udp_loop \<Rightarrow> 'k udp_loop" where
  "us_post_heavy_task fun_id ss srv l =
     (if us_server ss \<notin> live l then l else dgram_post_heavy_task (UdpUser fun_id) (server_dgram srv) l)"

definition scan_interval :: "u64 \<Rightarrow> u64" where
  "scan_interval timeout_ms =
     (let scan_time = timeout_ms div kScanFrequencyDivisor
      in if scan_time < kMinScanIntervalMs then kMinScanIntervalMs
         else if scan_time > kMaxScanIntervalMs then kMaxScanIntervalMs else scan_time)"

definition construct_UdpServer :: "'k os \<Rightarrow> LifeChecker \<Rightarrow> InetAddr \<Rightarrow> u64 \<Rightarrow> 'k udp_loop \<Rightarrow> fault + UdpServer \<times> 'k udp_loop" where
  "construct_UdpServer os self local timeout_ms l =
     and_then (construct_DgramSocket os self local l) (\<lambda>(d, l1).
       let scan_time = scan_interval timeout_ms
       in case make_net_timer_channel os scan_time scan_time l1 of
            (None, _) \<Rightarrow> Inl (Thrown ''make timer channel failed'')
          | (Some ch, l2) \<Rightarrow>
              Inr (\<lparr>server_dgram = d, new_session_cb = None, server_read_cb = None, udp_sessions = [],
                    session_store = (\<lambda>_. None), next_session = 0, server_local = local,
                    scan_channel = fst (move_LoopChannel ch), session_timeout_ms = timeout_ms, scan_started = False\<rparr>, l2))"

definition udp_server_start :: "'k os \<Rightarrow> UdpServer \<times> 'k udp_loop \<Rightarrow> UdpServer \<times> 'k udp_loop" where
  "udp_server_start os st =
     (case st of (srv, l) \<Rightarrow>
        case dgram_start os (server_dgram srv, l) of (d, l1) \<Rightarrow>
          let srv1 = srv\<lparr>server_dgram := d\<rparr>
          in if scan_started srv1 then (srv1, l1)
             else let (ch, l2) = update_event_cb os (dg_self d) kRead kDefault (SessionScan (dg_self d)) (scan_channel srv1) l1
                  in (srv1\<lparr>scan_started := True, scan_channel := ch\<rparr>, l2))"

definition udp_server_stop :: "'k os \<Rightarrow> UdpServer \<times> 'k udp_loop \<Rightarrow> UdpServer \<times> 'k udp_loop" where
  "udp_server_stop os st =
     (case st of (srv, l) \<Rightarrow>
        case dgram_stop os (server_dgram srv, l) of (d, l1) \<Rightarrow>
          (srv\<lparr>server_dgram := d, scan_started := False\<rparr>, disable_event os (scan_channel srv) l1))"

text \<open>The destructor of the class, of its timer channel, and of the base.\<close>

definition destroy_UdpServer :: "'k os \<Rightarrow> UdpServer \<Rightarrow> 'k udp_loop \<Rightarrow> 'k udp_loop" where
  "destroy_UdpServer os srv l =
     (let l0 = l\<lparr>live := live l - {dg_self (server_dgram srv)}\<rparr>
      in destroy_DgramSocket os (server_dgram srv)
           (destroy_LoopChannel os (scan_channel srv) (disable_event os (scan_channel srv) l0)))"

definition make_udp_server :: "'k os \<Rightarrow> LifeChecker \<Rightarrow> InetAddr \<Rightarrow> u64 \<Rightarrow> 'k udp_loop \<Rightarrow>
    fault + UdpServer option \<times> 'k udp_loop" where
  "make_udp_server os self local timeout_ms l =
     (if \<not> is_inet local then Inr (None, write_log (LogError ''udp server err: unsupported protocol'') l)
      else if timeout_ms = 0 then Inr (None, write_log (LogError ''udp server err: session_timeout_ms cannot be 0'') l)
      else and_then (construct_UdpServer os self local timeout_ms l) (\<lambda>(srv, l1).
        case udp_server_start os (srv, l1\<lparr>live := insert self (live l1)\<rparr>) of (srv', l2) \<Rightarrow> Inr (Some srv', l2)))"

definition set_new_session_cb :: "nat option \<Rightarrow> UdpServer \<Rightarrow> UdpServer" where
  "set_new_session_cb cb srv = srv\<lparr>new_session_cb := cb\<rparr>"

definition server_set_read_cb :: "nat option \<Rightarrow> UdpServer \<Rightarrow> UdpServer" where
  "server_set_read_cb cb srv = srv\<lparr>server_read_cb := cb\<rparr>"

text \<open>\<open>sessions_.find(source)\<close>.\<close>

definition find_session :: "InetAddr \<Rightarrow> UdpServer \<Rightarrow> (InetAddr \<times> nat) option" where
  "find_session source srv = find (\<lambda>(a, sid). addr_eq source a) (udp_sessions srv)"

definition add_session :: "InetAddr \<Rightarrow> UdpSession \<Rightarrow> UdpServer \<Rightarrow> UdpServer" where
  "add_session source ss srv =
     srv\<lparr>udp_sessions := udp_sessions srv @ [(source, next_session srv)],
         session_store := (session_store srv)(next_session srv \<mapsto> ss), next_session := Suc (next_session srv)\<rparr>"

definition touch_session :: "nat \<Rightarrow> int \<Rightarrow> UdpServer \<Rightarrow> UdpServer" where
  "touch_session sid now srv =
     (case session_store srv sid of
        None \<Rightarrow> srv
      | Some ss \<Rightarrow> srv\<lparr>session_store := (session_store srv)(sid \<mapsto> ss\<lparr>us_time_stamp := now\<rparr>)\<rparr>)"

definition udp_server_on_read :: "'k os \<Rightarrow> byte list \<Rightarrow> InetAddr \<Rightarrow> UdpServer \<times> 'k udp_loop \<Rightarrow> UdpServer \<times> 'k udp_loop" where
  "udp_server_on_read os data source st =
     (case st of (srv, l) \<Rightarrow>
        let self = dg_self (server_dgram srv)
        in if server_read_cb srv = None \<and> new_session_cb srv = None then (srv, l)
           else case find_session source srv of
             None \<Rightarrow>
               (let (now, k) = os_steady_now os (kern l);
                    (ss, l1) = make_udp_session srv source now (l\<lparr>kern := k\<rparr>);
                    sid = next_session srv
                in (add_session source ss srv,
                    dgram_post_heavy_task (if new_session_cb srv \<noteq> None then NewSession self sid data else SessionRead self sid data)
                      (server_dgram srv) l1))
           | Some (a, sid) \<Rightarrow>
               if server_read_cb srv = None then (srv, l)
               else let (now, k) = os_steady_now os (kern l)
                    in (touch_session sid now srv, dgram_post_heavy_task (SessionRead self sid data) (server_dgram srv) (l\<lparr>kern := k\<rparr>)))"

definition udp_server_on_error :: "errno \<Rightarrow> UdpServer \<times> 'k udp_loop \<Rightarrow> UdpServer \<times> 'k udp_loop" where
  "udp_server_on_error err st = (case st of (srv, l) \<Rightarrow> (srv, write_log (LogCode ''udp server err: '' err) l))"

text \<open>
  The closures that the heavy thread runs, guarded by the socket. \<open>call\<close> is what a registered callback
  does to the state \<open>'w\<close> of the caller; the callback is the one registered then, and an empty
  \<open>std::function\<close> throws when it is called.
\<close>

definition node_closure :: "(nat \<Rightarrow> LifeChecker \<Rightarrow> byte list \<Rightarrow> InetAddr \<Rightarrow> 'w \<Rightarrow> fault + 'w) \<Rightarrow> UdpNode \<Rightarrow> udp_closure \<Rightarrow> 'w \<Rightarrow>
    fault + 'w" where
  "node_closure call n task w =
     (case task of
        NodeRead self data source \<Rightarrow>
          (case node_read_cb n of None \<Rightarrow> Inl (Thrown ''bad_function_call'') | Some cb \<Rightarrow> call cb self data source w)
      | _ \<Rightarrow> Inr w)"

definition udp_client_closure :: "(nat \<Rightarrow> LifeChecker \<Rightarrow> byte list \<Rightarrow> 'w \<Rightarrow> fault + 'w) \<Rightarrow> UdpClient \<Rightarrow> udp_closure \<Rightarrow> 'w \<Rightarrow>
    fault + 'w" where
  "udp_client_closure call c task w =
     (case task of
        ClientRead self data \<Rightarrow>
          (case client_read_cb c of None \<Rightarrow> Inl (Thrown ''bad_function_call'') | Some cb \<Rightarrow> call cb self data w)
      | _ \<Rightarrow> Inr w)"

definition udp_server_closure :: "(nat \<Rightarrow> nat \<Rightarrow> byte list \<Rightarrow> 'w \<Rightarrow> fault + 'w) \<Rightarrow> UdpServer \<Rightarrow> udp_closure \<Rightarrow> 'w \<Rightarrow>
    fault + 'w" where
  "udp_server_closure call srv task w =
     (case task of
        NewSession self sid data \<Rightarrow>
          (case new_session_cb srv of None \<Rightarrow> Inl (Thrown ''bad_function_call'') | Some cb \<Rightarrow> call cb sid data w)
      | SessionRead self sid data \<Rightarrow>
          (case server_read_cb srv of None \<Rightarrow> Inl (Thrown ''bad_function_call'') | Some cb \<Rightarrow> call cb sid data w)
      | _ \<Rightarrow> Inr w)"

text \<open>The scan: the entries that stay, in one pass. The subtraction and the conversion of the timeout may overflow.\<close>

fun scan_entries :: "int \<Rightarrow> u64 \<Rightarrow> (nat \<Rightarrow> UdpSession option) \<Rightarrow> (InetAddr \<times> nat) list \<Rightarrow> fault + (InetAddr \<times> nat) list" where
  "scan_entries now timeout_ms store [] = Inr []"
| "scan_entries now timeout_ms store ((a, sid) # rest) =
     (case store sid of
        None \<Rightarrow> Inl (OutOfRange (int sid))
      | Some ss \<Rightarrow>
          and_then (signed64 (now - us_time_stamp ss)) (\<lambda>duration.
            and_then (milliseconds timeout_ms) (\<lambda>limit.
              and_then (scan_entries now timeout_ms store rest) (\<lambda>kept.
                Inr (if duration > limit then kept else (a, sid) # kept)))))"

definition udp_server_scan :: "'k os \<Rightarrow> UdpServer \<times> 'k udp_loop \<Rightarrow> fault + UdpServer \<times> 'k udp_loop" where
  "udp_server_scan os st =
     (case st of (srv, l) \<Rightarrow>
        let (fd, l0) = get_fd (scan_channel srv) l
        in case drain_counter os fd (kern l0) of
             None \<Rightarrow> Inl Diverged
           | Some (err, k) \<Rightarrow>
               if err \<noteq> EAGAIN then Inl (SysFatal err)
               else let (now, k1) = os_steady_now os k
                    in and_then (scan_entries now (session_timeout_ms srv) (session_store srv) (udp_sessions srv)) (\<lambda>kept.
                         Inr (srv\<lparr>udp_sessions := kept\<rparr>, l0\<lparr>kern := k1\<rparr>)))"

section \<open>Lemmas\<close>

lemma elog_eta: "l\<lparr>elog := elog l\<rparr> = l" "l\<lparr>kern := k, elog := elog l\<rparr> = l\<lparr>kern := k\<rparr>" for l :: "('k, 'cb, 't) Loop"
  by (cases l; simp)+

lemma dgram_recv_frame:
  assumes "dgram_recv os ch l = (r, l1)"
  obtains k e where "l1 = l\<lparr>kern := k, elog := e\<rparr>"
proof -
  obtain fd l0 where g: "get_fd ch l = (fd, l0)" by fastforce
  then have l0: "l0 = l\<lparr>elog := elog l0\<rparr>"
    by (auto simp: get_fd_def invalid_access_def write_log_def elog_eta split: if_splits)
  obtain x k where x: "os_recvfrom os fd kMaxUdpPacketSize (kern l0) = (x, k)" by fastforce
  have "l1 = l0\<lparr>kern := k, elog := elog l1\<rparr>"
    using assms g x by (auto simp: dgram_recv_def write_log_def Let_def elog_eta split: sum.splits option.splits if_splits)
  also have "\<dots> = l\<lparr>kern := k, elog := elog l1\<rparr>" by (subst l0) (cases l; simp)
  finally show thesis using that by blast
qed

lemma find_filter_unique:
  "sorted_wrt (\<lambda>x y. \<not> (P x \<and> P y)) xs \<Longrightarrow>
   find P (filter Q xs) = (case find P xs of None \<Rightarrow> None | Some e \<Rightarrow> if Q e then Some e else None)"
proof (induction xs)
  case (Cons x xs)
  have "find P (filter Q xs) = None" if "P x" using Cons.prems that by (auto simp: find_None_iff)
  then show ?case using Cons by (auto split: option.splits)
qed simp

text \<open>
  The invariant of a server: the keys are addresses, no two of them equal; the entries name different
  sessions of the store, each with the address it is filed under and a time of the clock.
\<close>

definition entry_ok :: "UdpServer \<Rightarrow> InetAddr \<times> nat \<Rightarrow> bool" where
  "entry_ok srv e = (case e of (a, sid) \<Rightarrow> valid_addr a \<and> sid < next_session srv \<and>
     (\<exists>ss. session_store srv sid = Some ss \<and> us_source ss = a \<and> 0 \<le> us_time_stamp ss \<and> us_time_stamp ss < 2 ^ 62))"

definition udp_inv :: "UdpServer \<Rightarrow> bool" where
  "udp_inv srv \<longleftrightarrow> (\<forall>e \<in> set (udp_sessions srv). entry_ok srv e) \<and> distinct (map snd (udp_sessions srv)) \<and>
     sorted_wrt (\<lambda>x y. \<not> addr_eq (fst x) (fst y)) (udp_sessions srv)"

lemma udp_invD:
  assumes "udp_inv srv"
  shows "list_all (\<lambda>(a, sid). valid_addr a) (udp_sessions srv)"
    and "(a, sid) \<in> set (udp_sessions srv) \<Longrightarrow> \<exists>ss. session_store srv sid = Some ss \<and> us_source ss = a \<and>
      0 \<le> us_time_stamp ss \<and> us_time_stamp ss < 2 ^ 62"
    and "(a, sid) \<in> set (udp_sessions srv) \<Longrightarrow> sid < next_session srv \<and> valid_addr a"
  using assms by (auto simp: udp_inv_def list_all_iff entry_ok_def)

text \<open>A valid address equals one key at most.\<close>

lemma one_key:
  assumes "udp_inv srv" and "valid_addr b"
  shows "sorted_wrt (\<lambda>x y. \<not> ((case x of (a, sid) \<Rightarrow> addr_eq b a) \<and> (case y of (a, sid) \<Rightarrow> addr_eq b a))) (udp_sessions srv)"
proof (rule sorted_wrt_mono_rel)
  show "sorted_wrt (\<lambda>x y. \<not> addr_eq (fst x) (fst y)) (udp_sessions srv)" using assms by (simp add: udp_inv_def)
  fix x y assume xy: "x \<in> set (udp_sessions srv)" "y \<in> set (udp_sessions srv)" "\<not> addr_eq (fst x) (fst y)"
  have "valid_addr (fst x)" "valid_addr (fst y)" using xy assms(1) by (auto simp: udp_inv_def entry_ok_def)
  then show "\<not> ((case x of (a, sid) \<Rightarrow> addr_eq b a) \<and> (case y of (a, sid) \<Rightarrow> addr_eq b a))"
    using xy(3) addr_key.eq_sym [of b "fst x"] addr_key.eq_trans [of "fst x" b "fst y"] assms(2) by (auto split: prod.splits)
qed

lemma find_session_Some:
  assumes "find_session b srv = Some (a, sid)"
  shows "(a, sid) \<in> set (udp_sessions srv)" and "addr_eq b a"
  using assms by (auto simp: find_session_def find_Some_iff dest: nth_mem)

lemma find_session_None: "find_session b srv = None \<longleftrightarrow> (\<forall>(a, sid) \<in> set (udp_sessions srv). \<not> addr_eq b a)"
  by (auto simp: find_session_def find_None_iff)

text \<open>Equal addresses find the same entry, and different ones different entries.\<close>

lemma find_session_cong:
  assumes "udp_inv srv" and "valid_addr a" and "valid_addr b" and "addr_eq a b"
  shows "find_session a srv = find_session b srv"
  using addr_key.find_respects_eq [OF assms(2-4) udp_invD(1) [OF assms(1)]] by (simp add: find_session_def)

lemma find_session_inj:
  assumes inv: "udp_inv srv" and ok: "valid_addr a" "valid_addr b"
    and f: "find_session a srv = Some (x, sid)" "find_session b srv = Some (y, sid)"
  shows "addr_eq a b"
proof -
  note m = find_session_Some [OF f(1)] find_session_Some [OF f(2)]
  then have "x = y" using inv eq_key_imp_eq_value [of "map (\<lambda>(a, s). (s, a)) (udp_sessions srv)" sid x y]
    by (force simp: udp_inv_def comp_def split_def)
  moreover have "valid_addr x" using m(1) udp_invD(3) [OF inv] by blast
  ultimately show ?thesis using m ok addr_key.eq_sym addr_key.eq_trans by blast
qed

lemma find_add_session:
  "find_session b (add_session a ss srv) =
     (case find_session b srv of None \<Rightarrow> if addr_eq b a then Some (a, next_session srv) else None | Some e \<Rightarrow> Some e)"
proof -
  have "find P (xs @ [x]) = (case find P xs of None \<Rightarrow> if P x then Some x else None | Some e \<Rightarrow> Some e)" for P xs and x :: "InetAddr \<times> nat"
    by (induction xs) auto
  then show ?thesis by (simp add: find_session_def add_session_def)
qed

lemma add_session_store [simp]: "session_store (add_session a ss srv) = (session_store srv)(next_session srv \<mapsto> ss)"
  by (simp add: add_session_def)

lemma find_touch_session [simp]: "find_session b (touch_session sid now srv) = find_session b srv"
  by (simp add: find_session_def touch_session_def split: option.splits)

lemma add_session_inv:
  assumes inv: "udp_inv srv" and a: "valid_addr a" and new: "find_session a srv = None"
    and ss: "us_source ss = a" "0 \<le> us_time_stamp ss" "us_time_stamp ss < 2 ^ 62"
  shows "udp_inv (add_session a ss srv)"
proof -
  let ?srv = "add_session a ss srv"
  have old: "sid < next_session srv \<and> valid_addr b" if "(b, sid) \<in> set (udp_sessions srv)" for b sid
    using udp_invD(3) [OF inv that] .
  have "entry_ok ?srv e" if "e \<in> set (udp_sessions srv)" for e
    using that udp_invD(2,3) [OF inv, of "fst e" "snd e"] by (auto simp: entry_ok_def add_session_def split: prod.splits)
  moreover have "entry_ok ?srv (a, next_session srv)" using a ss by (auto simp: entry_ok_def add_session_def)
  moreover have "next_session srv \<notin> snd ` set (udp_sessions srv)" using old by fastforce
  moreover have "\<not> addr_eq (fst x) a" if "x \<in> set (udp_sessions srv)" for x
    using new that old [of "fst x" "snd x"] addr_key.eq_sym [of "fst x" a] a by (auto simp: find_session_None)
  ultimately show ?thesis using inv by (auto simp: udp_inv_def add_session_def sorted_wrt_append)
qed

lemma store_update_inv:
  assumes inv: "udp_inv srv" and "session_store srv sid = Some ss" and "us_source ss' = us_source ss"
    and "0 \<le> us_time_stamp ss \<Longrightarrow> us_time_stamp ss < 2 ^ 62 \<Longrightarrow> 0 \<le> us_time_stamp ss' \<and> us_time_stamp ss' < 2 ^ 62"
  shows "udp_inv (srv\<lparr>session_store := (session_store srv)(sid \<mapsto> ss')\<rparr>)"
proof -
  have "entry_ok (srv\<lparr>session_store := (session_store srv)(sid \<mapsto> ss')\<rparr>) e" if "e \<in> set (udp_sessions srv)" for e
    using udp_invD(2,3) [OF inv, of "fst e" "snd e"] that assms(2-4) by (auto simp: entry_ok_def split: prod.splits)
  then show ?thesis using inv by (simp add: udp_inv_def)
qed

lemma touch_session_inv: "udp_inv srv \<Longrightarrow> 0 \<le> now \<Longrightarrow> now < 2 ^ 62 \<Longrightarrow> udp_inv (touch_session sid now srv)"
  by (auto simp: touch_session_def intro: store_update_inv split: option.splits)

text \<open>The object after a datagram, and what was posted for it.\<close>

lemma on_read_object:
  assumes "os_steady_now os (kern l) = (now, k)"
  shows "fst (udp_server_on_read os data a (srv, l)) =
      (if server_read_cb srv = None \<and> new_session_cb srv = None then srv
       else case find_session a srv of
              None \<Rightarrow> add_session a \<lparr>us_user_context = None, us_source = a, us_time_stamp = now,
                us_server = dg_self (server_dgram srv)\<rparr> srv
            | Some (x, sid) \<Rightarrow> if server_read_cb srv = None then srv else touch_session sid now srv)"
  using assms by (auto simp: udp_server_on_read_def make_udp_session_def Let_def split: option.splits)

lemma on_read_posts:
  assumes "\<not> invalid_channel (dgram_channel (server_dgram srv))" and "server_read_cb srv \<noteq> None"
    and "find_session a (fst (udp_server_on_read os data a (srv, l))) = Some (x, sid)"
  shows "heavy_buffer_queue (snd (udp_server_on_read os data a (srv, l))) = heavy_buffer_queue l @
      [WrapperTask (dg_self (server_dgram srv)) (DgramHeavy
        ((if new_session_cb srv \<noteq> None \<and> find_session a srv = None then NewSession else SessionRead)
          (dg_self (server_dgram srv)) sid data))]"
proof -
  obtain now k where now: "os_steady_now os (kern l) = (now, k)" by fastforce
  show ?thesis
  proof (cases "find_session a srv")
    case None
    have "sid = next_session srv" using assms(2,3) None by (simp add: on_read_object [OF now] find_add_session split: if_splits)
    then show ?thesis using assms(1,2) now None
      by (cases "new_session_cb srv")
        (simp_all add: udp_server_on_read_def Let_def make_udp_session_def dgram_post_heavy_task_def channel_post_heavy_task_def
          post_heavy_task_def wake_heavy_up_def)
  next
    case (Some e)
    obtain y sid' where e: "e = (y, sid')" by fastforce
    then have "sid = sid'" using assms(2,3) Some by (auto simp: on_read_object [OF now])
    then show ?thesis using assms(1,2) now Some e
      by (simp add: udp_server_on_read_def Let_def dgram_post_heavy_task_def channel_post_heavy_task_def
          post_heavy_task_def wake_heavy_up_def)
  qed
qed

lemma on_read_kern: "kern (snd (udp_server_on_read os data a (srv, l))) \<in> {kern l, snd (os_steady_now os (kern l))}"
  by (auto simp: udp_server_on_read_def Let_def make_udp_session_def dgram_post_heavy_task_def channel_post_heavy_task_def
      post_heavy_task_def wake_heavy_up_def invalid_access_def split: option.splits prod.splits)

lemma on_read_same:
  "new_session_cb (fst (udp_server_on_read os data a (srv, l))) = new_session_cb srv"
  "server_read_cb (fst (udp_server_on_read os data a (srv, l))) = server_read_cb srv"
  "server_dgram (fst (udp_server_on_read os data a (srv, l))) = server_dgram srv"
  "session_timeout_ms (fst (udp_server_on_read os data a (srv, l))) = session_timeout_ms srv"
  by (cases "os_steady_now os (kern l)"; simp add: on_read_object add_session_def touch_session_def split: option.splits)+

lemma on_read_inv:
  assumes "clock_in_range os" and "udp_inv srv" and "valid_addr a"
  shows "udp_inv (fst (udp_server_on_read os data a (srv, l)))"
proof -
  obtain now k where now: "os_steady_now os (kern l) = (now, k)" by fastforce
  note t = clock_in_rangeD [OF assms(1) now]
  show ?thesis using assms t
    by (auto simp: on_read_object [OF now] intro!: add_session_inv touch_session_inv split: option.splits)
qed

text \<open>A key is found once it is there, and what was found stays.\<close>

lemma on_read_finds:
  assumes "server_read_cb srv \<noteq> None" and "valid_addr a"
  shows "find_session b (fst (udp_server_on_read os data a (srv, l))) =
    (case find_session b srv of
       Some e \<Rightarrow> Some e
     | None \<Rightarrow> if addr_eq b a \<and> find_session a srv = None then Some (a, next_session srv) else None)"
proof -
  obtain now k where now: "os_steady_now os (kern l) = (now, k)" by fastforce
  show ?thesis using assms
    by (auto simp: on_read_object [OF now] find_add_session split: option.splits)
qed

text \<open>The scan, on times of the clock and a timeout that fits.\<close>

lemma scan_entries_filter:
  assumes "0 \<le> now" and "now < 2 ^ 62" and "unat timeout_ms * 1000000 < 2 ^ 62"
  shows "\<forall>(a, sid) \<in> set es. \<exists>ss. store sid = Some ss \<and> 0 \<le> us_time_stamp ss \<and> us_time_stamp ss < 2 ^ 62 \<Longrightarrow>
    scan_entries now timeout_ms store es =
      Inr (filter (\<lambda>(a, sid). now - us_time_stamp (the (store sid)) \<le> int (unat timeout_ms) * 1000000) es)"
proof (induction es)
  case (Cons e es)
  obtain a sid where e: "e = (a, sid)" by fastforce
  then obtain ss where ss: "store sid = Some ss" "0 \<le> us_time_stamp ss" "us_time_stamp ss < 2 ^ 62" using Cons.prems by auto
  have "signed64 (now - us_time_stamp ss) = Inr (now - us_time_stamp ss)" using ss assms(1,2) by (simp add: signed64_def)
  then show ?case using Cons e ss(1) milliseconds_small [OF assms(3)] by simp
qed simp

lemma filter_sessions_inv: "udp_inv srv \<Longrightarrow> udp_inv (srv\<lparr>udp_sessions := filter P (udp_sessions srv)\<rparr>)"
  by (auto simp: udp_inv_def entry_ok_def sorted_wrt_filter distinct_map inj_on_def split: prod.splits)

lemma scan_keeps_young:
  assumes clock: "clock_in_range os" "counter_documented os cnt" and inv: "udp_inv srv"
    and ms: "unat (session_timeout_ms srv) * 1000000 < 2 ^ 62"
  shows "\<exists>now l'. udp_server_scan os (srv, l) = Inr (srv\<lparr>udp_sessions :=
      filter (\<lambda>(a, sid). now - us_time_stamp (the (session_store srv sid)) \<le> int (unat (session_timeout_ms srv)) * 1000000)
        (udp_sessions srv)\<rparr>, l') \<and> (\<exists>k. os_steady_now os k = (now, kern l'))"
proof -
  obtain fd l0 where g: "get_fd (scan_channel srv) l = (fd, l0)" by fastforce
  obtain k where d: "drain_counter os fd (kern l0) = Some (EAGAIN, k)"
    using drain_counter_returns [OF clock(2), of fd "kern l0"] by blast
  obtain now k1 where now: "os_steady_now os k = (now, k1)" by fastforce
  have "\<forall>(a, sid) \<in> set (udp_sessions srv). \<exists>ss. session_store srv sid = Some ss \<and> 0 \<le> us_time_stamp ss \<and> us_time_stamp ss < 2 ^ 62"
    using udp_invD(2) [OF inv] by fast
  from scan_entries_filter [OF _ _ ms this] clock_in_rangeD [OF clock(1) now]
  show ?thesis using g d now
    by (intro exI [of _ now] exI [of _ "l0\<lparr>kern := k1\<rparr>"] conjI exI [of _ k]) (simp_all add: udp_server_scan_def)
qed

lemma scan_entries_subset: "scan_entries now ms store es = Inr kept \<Longrightarrow>
    kept = filter (\<lambda>(a, sid). \<not> now - us_time_stamp (the (store sid)) > projr (milliseconds ms)) es"
proof (induction es arbitrary: kept)
  case (Cons e es)
  then show ?case by (cases e) (auto simp: signed64_Inr split: option.splits if_splits)
qed simp

lemma scan_inv: "udp_server_scan os (srv, l) = Inr (srv', l') \<Longrightarrow> udp_inv srv \<Longrightarrow> udp_inv srv'"
  by (auto simp: udp_server_scan_def Let_def intro: filter_sessions_inv dest!: scan_entries_subset
      split: prod.splits option.splits if_splits)

section \<open>Steps\<close>

definition udp_server_handler :: "'k os \<Rightarrow> (UdpServer, 'k, udp_closure) dgram_handler" where
  "udp_server_handler os = \<lparr>dg_on_read = udp_server_on_read os, dg_on_error = udp_server_on_error\<rparr>"

text \<open>What can happen to a server: its callbacks on the io thread, and what users call.\<close>

inductive udp_step :: "'k os \<Rightarrow> UdpServer \<times> 'k udp_loop \<Rightarrow> UdpServer \<times> 'k udp_loop \<Rightarrow> bool" for os where
  hearing: "dgram_event os (udp_server_handler os) types (server_dgram srv) (srv, l) = Some st \<Longrightarrow> udp_step os (srv, l) st"
| scanning: "udp_server_scan os (srv, l) = Inr st \<Longrightarrow> udp_step os (srv, l) st"
| starting: "udp_step os (srv, l) (udp_server_start os (srv, l))"
| stopping: "udp_step os (srv, l) (udp_server_stop os (srv, l))"
| new_session: "udp_step os (srv, l) (set_new_session_cb cb srv, l)"
| read_session: "udp_step os (srv, l) (server_set_read_cb cb srv, l)"
| user_context: "session_store srv sid = Some ss \<Longrightarrow>
    udp_step os (srv, l) (srv\<lparr>session_store := (session_store srv)(sid \<mapsto> us_set_user_context ctx ss)\<rparr>, l)"
| replying: "session_store srv sid = Some ss \<Longrightarrow> udp_step os (srv, l) (srv, us_post_send_task os data ss srv l)"
| working: "session_store srv sid = Some ss \<Longrightarrow> udp_step os (srv, l) (srv, us_post_heavy_task f ss srv l)"
| elsewhere: "udp_step os (srv, l) (srv, l')"

inductive udp_run :: "'k os \<Rightarrow> UdpServer \<times> 'k udp_loop \<Rightarrow> UdpServer \<times> 'k udp_loop \<Rightarrow> bool" for os st0 where
  begin_run: "udp_run os st0 st0"
| then_step: "udp_run os st0 st \<Longrightarrow> udp_step os st st' \<Longrightarrow> udp_run os st0 st'"

lemma server_event_inv:
  assumes clock: "clock_in_range os" and inv: "udp_inv srv"
    and run: "dgram_event os (udp_server_handler os) types d (srv, l) = Some (srv', l')"
  shows "udp_inv srv'"
proof -
  have "udp_inv s" if "dgram_read_loop os ch (udp_server_on_read os) (srv, l) = Some (s, l1)" for ch s l1
  proof -
    have "udp_inv (fst (s, l1))"
      by (rule dgram_read_loop_keeps [where P = "\<lambda>st. udp_inv (fst st)", OF _ _ that])
        (simp_all add: inv on_read_inv [OF clock])
    then show ?thesis by simp
  qed
  then show ?thesis using run inv
    by (auto simp: dgram_event_def udp_server_handler_def udp_server_on_error_def Let_def split: option.splits prod.splits if_splits)
qed

lemma udp_inv_cong:
  "udp_inv srv \<Longrightarrow> udp_sessions srv' = udp_sessions srv \<Longrightarrow> session_store srv' = session_store srv \<Longrightarrow>
   next_session srv' = next_session srv \<Longrightarrow> udp_inv srv'"
  by (auto simp: udp_inv_def entry_ok_def)

lemma udp_step_inv:
  assumes clock: "clock_in_range os" and step: "udp_step os (srv, l) (srv', l')" and inv: "udp_inv srv"
  shows "udp_inv srv'"
  using step
proof cases
  case hearing
  then show ?thesis using server_event_inv [OF clock inv] by blast
next
  case scanning
  then show ?thesis using scan_inv inv by blast
next
  case starting
  then show ?thesis
    by (intro udp_inv_cong [OF inv]) (auto simp: udp_server_start_def Let_def split: prod.splits if_splits)
next
  case stopping
  then show ?thesis by (intro udp_inv_cong [OF inv]) (auto simp: udp_server_stop_def split: prod.splits)
next
  case (user_context sid ss ctx)
  then show ?thesis by (auto simp: us_set_user_context_def intro: store_update_inv [OF inv])
qed (use inv in \<open>auto intro: udp_inv_cong simp: set_new_session_cb_def server_set_read_cb_def\<close>)

lemma construct_server_inv: "construct_UdpServer os self local ms l0 = Inr (srv, l) \<Longrightarrow> udp_inv srv"
proof -
  assume made: "construct_UdpServer os self local ms l0 = Inr (srv, l)"
  then obtain d l1 where d: "construct_DgramSocket os self local l0 = Inr (d, l1)" by (auto simp: construct_UdpServer_def)
  obtain r l2 where "make_net_timer_channel os (scan_interval ms) (scan_interval ms) l1 = (r, l2)" by fastforce
  then show ?thesis using made d by (cases r) (auto simp: construct_UdpServer_def udp_inv_def)
qed

lemma udp_run_inv:
  assumes "clock_in_range os" and "udp_inv (fst st0)" and "udp_run os st0 st"
  shows "udp_inv (fst st)"
  using assms(3)
proof (induction rule: udp_run.induct)
  case (then_step st st')
  then show ?case using udp_step_inv [OF assms(1)] by (metis prod.collapse)
qed (use assms(2) in simp)

text \<open>The table as peers see it: the session of an address, with the time of its last datagram.\<close>

type_synonym peer_table = "InetAddr \<Rightarrow> (nat \<times> int) option"

definition session_of :: "UdpServer \<Rightarrow> peer_table" where
  "session_of srv b =
     (case find_session b srv of
        None \<Rightarrow> None
      | Some (a, sid) \<Rightarrow> map_option (\<lambda>ss. (sid, us_time_stamp ss)) (session_store srv sid))"

text \<open>The specification of the table: what a datagram and a scan do to it.\<close>

definition peer_received :: "bool \<Rightarrow> bool \<Rightarrow> int \<Rightarrow> nat \<Rightarrow> InetAddr \<Rightarrow> peer_table \<Rightarrow> peer_table" where
  "peer_received hears news now fresh a tab = (\<lambda>b.
     if (hears \<or> news) \<and> addr_eq a b
     then (case tab b of None \<Rightarrow> Some (fresh, now) | Some (sid, t) \<Rightarrow> Some (sid, if hears then now else t))
     else tab b)"

definition peers_expired :: "int \<Rightarrow> int \<Rightarrow> peer_table \<Rightarrow> peer_table" where
  "peers_expired now limit tab = (\<lambda>b.
     case tab b of None \<Rightarrow> None | Some (sid, t) \<Rightarrow> if now - t > limit then None else Some (sid, t))"

lemma session_of_add:
  assumes "udp_inv srv" and "valid_addr a" and "valid_addr b" and "find_session a srv = None"
  shows "session_of (add_session a ss srv) b = (if addr_eq a b then Some (next_session srv, us_time_stamp ss) else session_of srv b)"
proof (cases "find_session b srv")
  case None
  then show ?thesis using addr_key.eq_sym [of a b] addr_key.eq_sym [of b a] assms(2,3)
    by (auto simp: session_of_def find_add_session)
next
  case (Some e)
  obtain x sid where e: "e = (x, sid)" by fastforce
  have "sid \<noteq> next_session srv" using find_session_Some(1) Some e udp_invD(3) [OF assms(1)] by fastforce
  moreover have "\<not> addr_eq a b" using find_session_cong [OF assms(1-3)] assms(4) Some by auto
  ultimately show ?thesis using Some e by (simp add: session_of_def find_add_session)
qed

lemma session_of_touch:
  assumes "udp_inv srv" and "valid_addr a" and "valid_addr b" and "find_session a srv = Some (x, sid)"
  shows "session_of (touch_session sid now srv) b = (if addr_eq a b then Some (sid, now) else session_of srv b)"
proof -
  obtain ss where ss: "session_store srv sid = Some ss"
    using find_session_Some(1) [OF assms(4)] udp_invD(2) [OF assms(1)] by blast
  show ?thesis
  proof (cases "addr_eq a b")
    case True
    then have "find_session b srv = Some (x, sid)" using find_session_cong [OF assms(1-3)] assms(4) by simp
    then show ?thesis using True ss by (simp add: session_of_def) (simp add: touch_session_def)
  next
    case False
    then have "find_session b srv \<noteq> Some (y, sid)" for y using find_session_inj [OF assms(1-3) assms(4)] by auto
    then show ?thesis using False ss by (auto simp: session_of_def touch_session_def find_session_def split: option.splits)
  qed
qed

lemma on_read_refines:
  assumes inv: "udp_inv srv" and a: "valid_addr a" and b: "valid_addr b" and now: "os_steady_now os (kern l) = (now, k)"
  shows "session_of (fst (udp_server_on_read os data a (srv, l))) b =
    peer_received (server_read_cb srv \<noteq> None) (new_session_cb srv \<noteq> None) now (next_session srv) a (session_of srv) b"
proof (cases "find_session a srv")
  case None
  then have "addr_eq a b \<Longrightarrow> session_of srv b = None" using find_session_cong [OF inv a b] by (simp add: session_of_def)
  then show ?thesis using None session_of_add [OF inv a b None] by (auto simp: on_read_object [OF now] peer_received_def)
next
  case (Some e)
  obtain x sid where e: "e = (x, sid)" by fastforce
  obtain ss where ss: "session_store srv sid = Some ss"
    using find_session_Some(1) [OF Some [unfolded e]] udp_invD(2) [OF inv] by blast
  have "addr_eq a b \<Longrightarrow> session_of srv b = Some (sid, us_time_stamp ss)"
    by (simp add: session_of_def find_session_cong [OF inv a b, symmetric] Some e ss)
  then show ?thesis using session_of_touch [OF inv a b Some [unfolded e]] Some e
    by (auto simp: on_read_object [OF now] peer_received_def)
qed

lemma session_of_filter:
  assumes inv: "udp_inv srv" and b: "valid_addr b"
  shows "session_of (srv\<lparr>udp_sessions := filter (\<lambda>(a, sid). now - us_time_stamp (the (session_store srv sid)) \<le> limit)
      (udp_sessions srv)\<rparr>) b = peers_expired now limit (session_of srv) b"
proof -
  let ?Q = "\<lambda>(a, sid). now - us_time_stamp (the (session_store srv sid)) \<le> limit"
  have find: "find_session b (srv\<lparr>udp_sessions := filter ?Q (udp_sessions srv)\<rparr>) =
      (case find_session b srv of None \<Rightarrow> None | Some e \<Rightarrow> if ?Q e then Some e else None)"
    using find_filter_unique [OF one_key [OF inv b]] by (simp add: find_session_def)
  have "\<exists>ss. session_store srv sid = Some ss" if "find_session b srv = Some (x, sid)" for x sid
    using find_session_Some(1) [OF that] udp_invD(2) [OF inv] by blast
  then show ?thesis unfolding session_of_def find peers_expired_def by (fastforce split: option.splits prod.splits if_splits)
qed

text \<open>
  The closure posted for the \<open>i\<close>-th datagram of an event: for the session of its sender, and to the
  new-session callback if there is one and the sender was not known before.
\<close>

definition delivered_to :: "UdpServer \<Rightarrow> UdpServer \<Rightarrow> (byte list \<times> InetAddr) list \<Rightarrow> nat \<Rightarrow> nat \<Rightarrow> udp_closure \<Rightarrow> bool" where
  "delivered_to srv0 srv ds i sid c \<longleftrightarrow> (\<exists>x. find_session (snd (ds ! i)) srv = Some (x, sid)) \<and>
     c = (if new_session_cb srv0 \<noteq> None \<and> find_session (snd (ds ! i)) srv0 = None \<and> (\<forall>j<i. \<not> addr_eq (snd (ds ! i)) (snd (ds ! j)))
          then NewSession else SessionRead) (dg_self (server_dgram srv0)) sid (fst (ds ! i))"

definition routed :: "UdpServer \<Rightarrow> 'k udp_loop \<Rightarrow> (byte list \<times> InetAddr) list \<Rightarrow> UdpServer \<times> 'k udp_loop \<Rightarrow> bool" where
  "routed srv0 l0 ds st \<longleftrightarrow> (case st of (srv, l) \<Rightarrow>
     udp_inv srv \<and> server_dgram srv = server_dgram srv0 \<and> new_session_cb srv = new_session_cb srv0 \<and>
     server_read_cb srv = server_read_cb srv0 \<and> (\<forall>d \<in> set ds. valid_addr (snd d)) \<and>
     (\<forall>b. valid_addr b \<longrightarrow> find_session b srv = None \<longleftrightarrow> find_session b srv0 = None \<and> (\<forall>d \<in> set ds. \<not> addr_eq b (snd d))) \<and>
     (\<exists>cs sids. heavy_buffer_queue l = heavy_buffer_queue l0 @ map (\<lambda>c. WrapperTask (dg_self (server_dgram srv0)) (DgramHeavy c)) cs \<and>
        length cs = length ds \<and> (\<forall>i<length ds. delivered_to srv0 srv ds i (sids i) (cs ! i))))"

lemma delivered_later:
  assumes "delivered_to srv0 srv ds i sid c" and "i < length ds" and "server_read_cb srv \<noteq> None" and "valid_addr a"
  shows "delivered_to srv0 (fst (udp_server_on_read os data a (srv, l))) (ds @ [d]) i sid c"
  using assms on_read_finds [OF assms(3,4), of "snd (ds ! i)" os data l]
  by (auto simp: delivered_to_def nth_append)

lemma find_none_after:
  assumes inv: "udp_inv srv" and cb: "server_read_cb srv \<noteq> None" and ok: "valid_addr a" "valid_addr b"
  shows "find_session b (fst (udp_server_on_read os data a (srv, l))) = None \<longleftrightarrow> find_session b srv = None \<and> \<not> addr_eq b a"
proof -
  have "find_session b srv = find_session a srv" if "addr_eq b a" using find_session_cong [OF inv ok(2,1) that] .
  then show ?thesis unfolding on_read_finds [OF cb ok(1)] by (auto split: option.splits)
qed

lemma routed_step:
  assumes clock: "clock_in_range os" and r: "routed srv0 l0 ds (srv, l)" and a: "valid_addr a"
    and cb: "server_read_cb srv0 \<noteq> None" and ch: "\<not> invalid_channel (dgram_channel (server_dgram srv0))"
  shows "routed srv0 l0 (ds @ [(data, a)]) (udp_server_on_read os data a (srv, l))"
proof -
  let ?st = "udp_server_on_read os data a (srv, l)"
  from r have inv: "udp_inv srv" and same: "server_dgram srv = server_dgram srv0" "new_session_cb srv = new_session_cb srv0"
      "server_read_cb srv = server_read_cb srv0" and ok: "\<forall>d \<in> set ds. valid_addr (snd d)"
    and known: "\<And>b. valid_addr b \<Longrightarrow> find_session b srv = None \<longleftrightarrow> find_session b srv0 = None \<and> (\<forall>d \<in> set ds. \<not> addr_eq b (snd d))"
    by (auto simp: routed_def)
  from r obtain cs sids where cs: "heavy_buffer_queue l = heavy_buffer_queue l0 @ map (\<lambda>c. WrapperTask (dg_self (server_dgram srv0)) (DgramHeavy c)) cs"
      "length cs = length ds" "\<forall>i<length ds. delivered_to srv0 srv ds i (sids i) (cs ! i)"
    by (auto simp: routed_def)
  have cb': "server_read_cb srv \<noteq> None" and ch': "\<not> invalid_channel (dgram_channel (server_dgram srv))" using cb ch same by auto
  have "addr_eq a a" using addr_key.eq_refl [OF a] .
  then obtain x sid where f: "find_session a (fst ?st) = Some (x, sid)"
    using find_none_after [OF inv cb' a a, of os data l] by auto
  define c where "c = (if new_session_cb srv \<noteq> None \<and> find_session a srv = None then NewSession else SessionRead)
      (dg_self (server_dgram srv)) sid data"
  have posts: "heavy_buffer_queue (snd ?st) = heavy_buffer_queue l @ [WrapperTask (dg_self (server_dgram srv0)) (DgramHeavy c)]"
    unfolding c_def using on_read_posts [OF ch' cb' f] same by simp
  have last: "delivered_to srv0 (fst ?st) (ds @ [(data, a)]) (length ds) sid c"
    using f known [OF a] same by (auto simp: delivered_to_def c_def nth_append all_set_conv_all_nth)
  have "\<forall>i<length (ds @ [(data, a)]). delivered_to srv0 (fst ?st) (ds @ [(data, a)]) i ((sids(length ds := sid)) i) ((cs @ [c]) ! i)"
  proof (intro allI impI)
    fix i assume "i < length (ds @ [(data, a)])"
    then consider "i < length ds" | "i = length ds" by fastforce
    then show "delivered_to srv0 (fst ?st) (ds @ [(data, a)]) i ((sids(length ds := sid)) i) ((cs @ [c]) ! i)"
    proof cases
      case 1
      then show ?thesis using delivered_later [OF cs(3) [rule_format, OF 1] 1 cb' a, of os data l "(data, a)"] cs(2)
        by (simp add: nth_append)
    qed (use last cs(2) in \<open>simp add: nth_append\<close>)
  qed
  then have posted: "\<exists>cs' sids'. heavy_buffer_queue (snd ?st) = heavy_buffer_queue l0 @
      map (\<lambda>c. WrapperTask (dg_self (server_dgram srv0)) (DgramHeavy c)) cs' \<and> length cs' = length (ds @ [(data, a)]) \<and>
      (\<forall>i<length (ds @ [(data, a)]). delivered_to srv0 (fst ?st) (ds @ [(data, a)]) i (sids' i) (cs' ! i))"
    using cs(1,2) posts by (intro exI [of _ "cs @ [c]"] exI [of _ "sids(length ds := sid)"]) simp
  have table: "\<forall>b. valid_addr b \<longrightarrow> find_session b (fst ?st) = None \<longleftrightarrow>
      find_session b srv0 = None \<and> (\<forall>d \<in> set (ds @ [(data, a)]). \<not> addr_eq b (snd d))"
  proof (intro allI impI)
    fix b assume b: "valid_addr b"
    show "find_session b (fst ?st) = None \<longleftrightarrow> find_session b srv0 = None \<and> (\<forall>d \<in> set (ds @ [(data, a)]). \<not> addr_eq b (snd d))"
      unfolding find_none_after [OF inv cb' a b] known [OF b] by auto
  qed
  have fields: "server_dgram (fst ?st) = server_dgram srv0" "new_session_cb (fst ?st) = new_session_cb srv0"
      "server_read_cb (fst ?st) = server_read_cb srv0"
    using on_read_same [of os data a srv l] same by simp_all
  show ?thesis unfolding routed_def case_prod_beta
    using on_read_inv [OF clock inv a] fields table posted ok a by (intro conjI) (blast | simp)+
qed

lemma routed_recv: "dgram_recv os ch l = (r, l1) \<Longrightarrow> routed srv l0 ds (s, l) \<Longrightarrow> routed srv l0 ds (s, l1)"
  by (erule dgram_recv_frame) (simp add: routed_def)

lemma server_adds_to_log: "adds_to_log (udp_server_on_read os)"
proof -
  have "\<exists>more. elog (snd (udp_server_on_read os data a (srv, l))) = elog l @ more" for data a srv l
    by (auto simp: udp_server_on_read_def make_udp_session_def dgram_post_heavy_task_def channel_post_heavy_task_def
        post_heavy_task_def wake_heavy_up_def invalid_access_def write_log_def Let_def split: prod.splits option.splits)
  then show ?thesis by (simp add: adds_to_log_def)
qed

lemma client_adds_to_log: "adds_to_log (udp_client_on_read :: byte list \<Rightarrow> InetAddr \<Rightarrow> UdpClient \<times> 'k udp_loop \<Rightarrow> _)"
proof -
  have "\<exists>more. elog (snd (udp_client_on_read data a (c, l))) = elog l @ more" for data a c and l :: "'k udp_loop"
    by (auto simp: udp_client_on_read_def dgram_post_heavy_task_def channel_post_heavy_task_def
        post_heavy_task_def wake_heavy_up_def invalid_access_def write_log_def)
  then show ?thesis by (simp add: adds_to_log_def)
qed

section \<open>Properties\<close>

text \<open>
  C15. The session table of a UDP server. In every order of datagrams, scans, errors and user calls from
  its construction, with a clock in range: entries are filed under well-formed addresses; two
  addresses reach the same session exactly when they are equal; and the lookup by buckets that
  \<open>std::unordered_map\<close> does, with any hash functions, finds what a scan of the whole table finds.
\<close>

theorem udp_sessions_keyed_by_peer:
  assumes "construct_UdpServer os self local ms l0 = Inr st0" and "udp_run os st0 (srv, l)" and "clock_in_range os"
    and "valid_addr a" and "valid_addr b"
  shows "(\<forall>(key, sid) \<in> set (udp_sessions srv). valid_addr key \<and> (\<exists>ss. session_store srv sid = Some ss \<and> us_source ss = key)) \<and>
    (find_session a srv = Some (x, sid) \<and> find_session b srv = Some (y, sid') \<longrightarrow> (sid = sid' \<longleftrightarrow> addr_eq a b)) \<and>
    find (\<lambda>(key, sid). addr_eq a key)
      (filter (\<lambda>(key, sid). unat (addr_hash lib key) mod n = unat (addr_hash lib a) mod n) (udp_sessions srv)) = find_session a srv"
proof (intro conjI impI)
  have inv: "udp_inv srv"
    using udp_run_inv [OF assms(3) _ assms(2)] construct_server_inv assms(1) by (metis fst_conv prod.collapse)
  show "\<forall>(key, sid) \<in> set (udp_sessions srv). valid_addr key \<and> (\<exists>ss. session_store srv sid = Some ss \<and> us_source ss = key)"
    using udp_invD(2,3) [OF inv] by blast
  show "sid = sid' \<longleftrightarrow> addr_eq a b" if "find_session a srv = Some (x, sid) \<and> find_session b srv = Some (y, sid')"
    using that find_session_inj [OF inv assms(4,5)] find_session_cong [OF inv assms(4,5)] by auto
  show "find (\<lambda>(key, sid). addr_eq a key)
      (filter (\<lambda>(key, sid). unat (addr_hash lib key) mod n = unat (addr_hash lib a) mod n) (udp_sessions srv)) = find_session a srv"
    using addr_key.bucket_find [OF assms(4) udp_invD(1) [OF inv], of lib n] by (simp add: find_session_def)
qed

text \<open>
  C14. Refinement. As peers see it, the table is a map from addresses to a session and the time of its last
  datagram. A datagram opens a fresh session for an unknown peer and, when a read callback is set,
  renews the time of a known one; a scan ends exactly the sessions idle for longer than the
  timeout. Neither touches any other peer, and no scan fails.
\<close>

theorem udp_table_refines_peers:
  assumes "udp_inv srv" and "valid_addr a" and "valid_addr b" and "os_steady_now os (kern l) = (now, k)"
    and "clock_in_range os" and "counter_documented os cnt" and "unat (session_timeout_ms srv) * 1000000 < 2 ^ 62"
  shows "session_of (fst (udp_server_on_read os data a (srv, l))) b =
      peer_received (server_read_cb srv \<noteq> None) (new_session_cb srv \<noteq> None) now (next_session srv) a (session_of srv) b \<and>
    (\<exists>srv' l' t. udp_server_scan os (srv, l) = Inr (srv', l') \<and> (\<exists>k. os_steady_now os k = (t, kern l')) \<and>
      session_of srv' b = peers_expired t (int (unat (session_timeout_ms srv)) * 1000000) (session_of srv) b)"
proof
  show "session_of (fst (udp_server_on_read os data a (srv, l))) b =
      peer_received (server_read_cb srv \<noteq> None) (new_session_cb srv \<noteq> None) now (next_session srv) a (session_of srv) b"
    by (rule on_read_refines [OF assms(1-4)])
  show "\<exists>srv' l' t. udp_server_scan os (srv, l) = Inr (srv', l') \<and> (\<exists>k. os_steady_now os k = (t, kern l')) \<and>
      session_of srv' b = peers_expired t (int (unat (session_timeout_ms srv)) * 1000000) (session_of srv) b"
    using scan_keeps_young [OF assms(5,6,1,7), of l] session_of_filter [OF assms(1,3)] by metis
qed

text \<open>
  C16. Routing. A read event of a UDP server with a read callback takes every datagram from the socket, unless a
  call fails, which is logged. For every datagram taken, and for nothing else, it posts one closure to
  the heavy thread, in the order of arrival, with the datagram's bytes. Two datagrams go to the same session
  exactly when they came from equal addresses, and a peer's first datagram, and no other, goes to the
  new-session callback if one is set.
\<close>

theorem udp_server_routes_by_peer:
  assumes "udp_inv srv" and "server_read_cb srv \<noteq> None" and "\<not> invalid_channel (dgram_channel (server_dgram srv))"
    and "dgram_documented os arrived out" and "clock_in_range os" and "\<And>k. arrived (snd (os_steady_now os k)) = arrived k"
    and "\<forall>(whole, sa, len) \<in> set (arrived (kern l) (ch_fd (dgram_channel (server_dgram srv)))).
      \<exists>a. make_from_sockaddr (Some sa) len = Inr a"
    and "has_event types kRead" and "\<not> has_event types kError"
  shows "\<exists>srv' l' n cs sids.
    dgram_event os (udp_server_handler os) types (server_dgram srv) (srv, l) = Some (srv', l') \<and> udp_inv srv' \<and>
    arrived (kern l') (ch_fd (dgram_channel (server_dgram srv))) =
      drop n (arrived (kern l) (ch_fd (dgram_channel (server_dgram srv)))) \<and>
    (n = length (arrived (kern l) (ch_fd (dgram_channel (server_dgram srv)))) \<or>
      n < length (arrived (kern l) (ch_fd (dgram_channel (server_dgram srv)))) \<and>
      (\<exists>pre err. elog l' = elog l @ pre @ [LogSysError err])) \<and>
    (let ds = map handed_over (take n (arrived (kern l) (ch_fd (dgram_channel (server_dgram srv))))) in
      heavy_buffer_queue l' = heavy_buffer_queue l @ map (\<lambda>c. WrapperTask (dg_self (server_dgram srv)) (DgramHeavy c)) cs \<and>
      length cs = length ds \<and> (\<forall>i<length ds. delivered_to srv srv' ds i (sids i) (cs ! i)) \<and>
      (\<forall>i<length ds. \<forall>j<length ds. sids i = sids j \<longleftrightarrow> addr_eq (snd (ds ! i)) (snd (ds ! j))))"
proof -
  let ?ch = "dgram_channel (server_dgram srv)"
  let ?all = "arrived (kern l) (ch_fd ?ch)"
  have par: "\<forall>d \<in> set ?all. parsable d" using assms(7) by (auto simp: parsable_def)
  have start: "routed srv l [] (srv, l)" using assms(1) by (simp add: routed_def)
  have quiet: "arrived (kern (snd (udp_server_on_read os data a (s, l1)))) = arrived (kern l1)" for data a s l1
    using on_read_kern [of os data a s l1] assms(6) by auto
  have "\<exists>srv' l' n. dgram_read_loop os ?ch (udp_server_on_read os) (srv, l) = Some (srv', l') \<and> n \<le> length ?all \<and>
      routed srv l ([] @ map handed_over (take n ?all)) (srv', l') \<and>
      arrived (kern l') (ch_fd ?ch) = drop n ?all \<and> (n = length ?all \<or> (\<exists>pre err. elog l' = pre @ [LogSysError err])) \<and>
      (adds_to_log (udp_server_on_read os) \<longrightarrow> n = length ?all \<or> read_failed l l')"
    by (rule dgram_read_loop_returns [where Q = "routed srv l", OF assms(4,3) quiet _ _ par start])
      (use routed_recv routed_step [OF assms(5) _ _ assms(2,3)] in blast)+
  then obtain srv' l' n where R: "dgram_read_loop os ?ch (udp_server_on_read os) (srv, l) = Some (srv', l')"
    "routed srv l (map handed_over (take n ?all)) (srv', l')" "n \<le> length ?all"
    "arrived (kern l') (ch_fd ?ch) = drop n ?all" "n = length ?all \<or> read_failed l l'"
    using server_adds_to_log [of os] by auto
  have rest: "arrived (kern l') (ch_fd ?ch) = drop n ?all"
    "n = length ?all \<or> n < length ?all \<and> (\<exists>pre err. elog l' = elog l @ pre @ [LogSysError err])"
    using R(3-5) le_neq_implies_less unfolding read_failed_def by blast+
  let ?ds = "map handed_over (take n ?all)"
  have event: "dgram_event os (udp_server_handler os) types (server_dgram srv) (srv, l) = Some (srv', l')"
    using R(1) assms(8,9) by (simp add: dgram_event_def udp_server_handler_def)
  from R(2) obtain cs sids where C: "udp_inv srv'" "\<forall>d \<in> set ?ds. valid_addr (snd d)"
      "heavy_buffer_queue l' = heavy_buffer_queue l @ map (\<lambda>c. WrapperTask (dg_self (server_dgram srv)) (DgramHeavy c)) cs"
      "length cs = length ?ds" "\<forall>i<length ?ds. delivered_to srv srv' ?ds i (sids i) (cs ! i)"
    unfolding routed_def by auto
  have same: "sids i = sids j \<longleftrightarrow> addr_eq (snd (?ds ! i)) (snd (?ds ! j))" if ij: "i < length ?ds" "j < length ?ds" for i j
  proof -
    obtain x y where xy: "find_session (snd (?ds ! i)) srv' = Some (x, sids i)" "find_session (snd (?ds ! j)) srv' = Some (y, sids j)"
      using C(5) ij unfolding delivered_to_def by blast
    have v: "valid_addr (snd (?ds ! i))" "valid_addr (snd (?ds ! j))" using C(2) ij nth_mem by blast+
    show ?thesis using xy find_session_inj [OF C(1) v] find_session_cong [OF C(1) v] by auto
  qed
  show ?thesis unfolding Let_def using event C(1,3,4,5) same rest
    by (intro exI [of _ srv'] exI [of _ l'] exI [of _ n] exI [of _ cs] exI [of _ sids] conjI) blast+
qed

text \<open>
  C30. Replies. The session that the first datagram of an IP peer opens sends to the very socket address
  that the kernel reported for that datagram, IPv6 scope and flow included: its \<open>post_send_task\<close> posts
  one closure, which makes one \<open>sendto\<close> of the whole reply to that address, and nothing else: the reply
  goes out unless that call fails. The failure is logged, except that of a full socket: then the
  reply is dropped silently.
\<close>

theorem udp_reply_reaches_sender:
  assumes "make_from_sockaddr (Some sa) len = Inr a" and "is_inet a" and "find_session a srv = None"
    and "server_read_cb srv \<noteq> None \<or> new_session_cb srv \<noteq> None"
    and "udp_server_on_read os data a (srv, l) = (srv', l')" and "session_store srv' (next_session srv) = Some ss"
    and "us_server ss \<in> live l1" and "\<not> invalid_channel (dgram_channel (server_dgram srv'))" and "dgram_documented os arrived out"
  shows "us_post_send_task os reply ss srv' l1 =
      post_io_task os (WrapperTask (us_server ss) (DgramSend (us_server ss) reply a)) l1 \<and>
    (let fd = ch_fd (dgram_channel (server_dgram srv')); l3 = dgram_send_closure os reply a (server_dgram srv') l2
     in case os_sendto os fd reply sa (get_socklen a) (kern l2) of
          (Inr _, k) \<Rightarrow> l3 = l2\<lparr>kern := k\<rparr> \<and> out k = (out (kern l2))(fd := out (kern l2) fd @ [(reply, sa)])
        | (Inl err, k) \<Rightarrow> out k = out (kern l2) \<and> kern l3 = k \<and>
            elog l3 = elog l2 @ (if err = EAGAIN then [] else [LogSysError err]))"
proof
  obtain now k where now: "os_steady_now os (kern l) = (now, k)" by fastforce
  have srv': "srv' = add_session a \<lparr>us_user_context = None, us_source = a, us_time_stamp = now,
      us_server = dg_self (server_dgram srv)\<rparr> srv"
    using on_read_object [OF now, of data a srv] assms(3-5) by auto
  then have ss: "us_source ss = a" "us_server ss = dg_self (server_dgram srv)" and d: "server_dgram srv' = server_dgram srv"
    using assms(6) by (auto simp: add_session_def)
  show "us_post_send_task os reply ss srv' l1 =
      post_io_task os (WrapperTask (us_server ss) (DgramSend (us_server ss) reply a)) l1"
    using assms(7,8) ss d
    by (simp add: us_post_send_task_def dgram_post_send_task_def channel_post_io_task_def)
  have sa: "get_sockaddr a = sa" using assms(1,2)
    by (cases sa) (auto simp: make_from_sockaddr_def get_sockaddr_def is_inet_def make_unix_Inr make_abstract_Inr Let_def
        AF_UNIX_def AF_INET_def AF_INET6_def split: if_splits)
  obtain r k2 where r: "os_sendto os (ch_fd (dgram_channel (server_dgram srv'))) reply sa (get_socklen a) (kern l2) = (r, k2)"
    by fastforce
  show "let fd = ch_fd (dgram_channel (server_dgram srv')); l3 = dgram_send_closure os reply a (server_dgram srv') l2
     in case os_sendto os fd reply sa (get_socklen a) (kern l2) of
          (Inr _, k) \<Rightarrow> l3 = l2\<lparr>kern := k\<rparr> \<and> out k = (out (kern l2))(fd := out (kern l2) fd @ [(reply, sa)])
        | (Inl err, k) \<Rightarrow> out k = out (kern l2) \<and> kern l3 = k \<and>
            elog l3 = elog l2 @ (if err = EAGAIN then [] else [LogSysError err])"
    using sendto_documentedD [OF assms(9) r] r sa
    by (cases r) (simp_all add: dgram_send_closure_def dgram_send_def get_fd_valid [OF assms(8)] write_log_def)
qed

text \<open>
  Scan interval. It is a tenth of the timeout, but at least 100 milliseconds and at most ten seconds, so
  a timeout of a second or more is never overrun by more than a tenth; the \<open>timespec\<close> it is turned
  into is legal and not zero, which would disarm the timer.
\<close>

theorem scan_interval_bounds:
  shows "100 \<le> unat (scan_interval ms) \<and> unat (scan_interval ms) \<le> 10000 \<and>
    (1000 \<le> unat ms \<longrightarrow> unat (scan_interval ms) = min (unat ms div 10) 10000) \<and>
    timespec_of (scan_interval ms) = (int (unat (scan_interval ms) div 1000), int (unat (scan_interval ms) mod 1000 * 1000000)) \<and>
    timespec_of (scan_interval ms) \<noteq> (0, 0)"
proof -
  have iv: "unat (scan_interval ms) = max 100 (min (unat ms div 10) 10000)"
    by (auto simp: scan_interval_def Let_def kMinScanIntervalMs_def kMaxScanIntervalMs_def kScanFrequencyDivisor_def
        word_less_nat_alt unat_div)
  moreover have ts: "timespec_of w = (int (unat w div 1000), int (unat w mod 1000 * 1000000))" if "unat w \<le> 10000" for w
  proof -
    have "unat (w mod 1000 * 1000000) = unat w mod 1000 * 1000000"
      using mod_less_divisor [of 1000 "unat w"] by (simp add: unat_word_ariths)
    then show ?thesis by (simp add: timespec_of_def uint_nat unat_div del: of_nat_mult)
  qed
  ultimately show ?thesis by (auto simp: ts)
qed

text \<open>
  C36. A session with traffic expires. When only the new-session callback is set, the datagrams of a
  known peer are dropped and do not renew its session: the first scan after the timeout, counted
  from the first datagram, ends it however recent the last one is.
\<close>

theorem active_session_expires:
  assumes "udp_inv srv" and "valid_addr a" and "find_session a srv = Some (x, sid)" and "session_store srv sid = Some ss"
    and "server_read_cb srv = None"
    and "clock_in_range os" and "counter_documented os cnt" and "unat (session_timeout_ms srv) * 1000000 < 2 ^ 62"
  shows "udp_server_on_read os data a (srv, l) = (srv, l) \<and>
    (\<exists>srv' l' now. udp_server_scan os (udp_server_on_read os data a (srv, l)) = Inr (srv', l') \<and>
      (\<exists>k. os_steady_now os k = (now, kern l')) \<and>
      (now - us_time_stamp ss > int (unat (session_timeout_ms srv)) * 1000000 \<longrightarrow> find_session a srv' = None))"
proof -
  have same: "udp_server_on_read os data a (srv, l) = (srv, l)"
    using assms(3,5) by (simp add: udp_server_on_read_def Let_def)
  obtain srv' l' now where S: "udp_server_scan os (srv, l) = Inr (srv', l')" "\<exists>k. os_steady_now os k = (now, kern l')"
      "srv' = srv\<lparr>udp_sessions := filter (\<lambda>(a, sid). now - us_time_stamp (the (session_store srv sid)) \<le>
        int (unat (session_timeout_ms srv)) * 1000000) (udp_sessions srv)\<rparr>"
    using scan_keeps_young [OF assms(6,7,1,8), of l] by blast
  have "find_session a srv' = None" if "now - us_time_stamp ss > int (unat (session_timeout_ms srv)) * 1000000"
    using find_filter_unique [OF one_key [OF assms(1,2)]] assms(3,4) that
    by (simp add: find_session_def S(3))
  then show ?thesis unfolding same using S(1,2) by blast
qed

text \<open>
  C31. A UDP client hears its peer only. A read event of a client with a read callback takes every datagram from
  the socket, unless a call fails, which is logged; of those taken it posts exactly the ones that came
  from the peer's address to the heavy thread, in order, and drops the others.
\<close>

definition udp_client_handler :: "(nat \<Rightarrow> 'k udp_loop \<Rightarrow> 'k udp_loop) \<Rightarrow> (UdpClient, 'k, udp_closure) dgram_handler" where
  "udp_client_handler run_cb = \<lparr>dg_on_read = udp_client_on_read, dg_on_error = udp_client_on_error run_cb\<rparr>"

theorem udp_client_hears_peer_only:
  assumes "client_read_cb c \<noteq> None" and "\<not> invalid_channel (dgram_channel (client_dgram c))" and "dgram_documented os arrived out"
    and "\<forall>(whole, sa, len) \<in> set (arrived (kern l) (ch_fd (dgram_channel (client_dgram c)))).
      \<exists>a. make_from_sockaddr (Some sa) len = Inr a"
    and "has_event types kRead" and "\<not> has_event types kError"
  shows "\<exists>l' n. dgram_event os (udp_client_handler run_cb) types (client_dgram c) (c, l) = Some (c, l') \<and>
    arrived (kern l') (ch_fd (dgram_channel (client_dgram c))) =
      drop n (arrived (kern l) (ch_fd (dgram_channel (client_dgram c)))) \<and>
    (n = length (arrived (kern l) (ch_fd (dgram_channel (client_dgram c)))) \<or>
      n < length (arrived (kern l) (ch_fd (dgram_channel (client_dgram c)))) \<and>
      (\<exists>pre err. elog l' = elog l @ pre @ [LogSysError err])) \<and>
    heavy_buffer_queue l' = heavy_buffer_queue l @
      map (\<lambda>(data, a). WrapperTask (dg_self (client_dgram c)) (DgramHeavy (ClientRead (dg_self (client_dgram c)) data)))
        (filter (\<lambda>(data, a). addr_eq a (client_source c))
          (map handed_over (take n (arrived (kern l) (ch_fd (dgram_channel (client_dgram c)))))))"
proof -
  let ?ch = "dgram_channel (client_dgram c)"
  let ?all = "arrived (kern l) (ch_fd ?ch)"
  let ?posts = "\<lambda>ds. map (\<lambda>(data, a). WrapperTask (dg_self (client_dgram c)) (DgramHeavy (ClientRead (dg_self (client_dgram c)) data)))
        (filter (\<lambda>(data, a). addr_eq a (client_source c)) ds)"
  let ?Q = "\<lambda>ds st. fst st = c \<and> heavy_buffer_queue (snd st) = heavy_buffer_queue l @ ?posts ds"
  have par: "\<forall>d \<in> set ?all. parsable d" using assms(4) by (auto simp: parsable_def)
  have quiet: "arrived (kern (snd (udp_client_on_read data a (s, l1)))) = arrived (kern l1)" for data a s l1
    by (auto simp: udp_client_on_read_def dgram_post_heavy_task_def channel_post_heavy_task_def post_heavy_task_def
        wake_heavy_up_def invalid_access_def)
  have frame: "?Q ds (s, l2)" if recv: "dgram_recv os ch l1 = (r, l2)" and q: "?Q ds (s, l1)" for ds s l1 r l2 ch
  proof -
    obtain k e where "l2 = l1\<lparr>kern := k, elog := e\<rparr>" using recv by (rule dgram_recv_frame)
    then show ?thesis using q by simp
  qed
  have handle: "?Q (ds @ [(data, a)]) (udp_client_on_read data a (s, l1))" if "?Q ds (s, l1)" for ds data a s l1
    using that assms(1,2) by (auto simp: udp_client_on_read_def addr_neq_def dgram_post_heavy_task_def
        channel_post_heavy_task_def post_heavy_task_def wake_heavy_up_def)
  have "\<exists>s' l' n. dgram_read_loop os ?ch udp_client_on_read (c, l) = Some (s', l') \<and> n \<le> length ?all \<and>
      ?Q ([] @ map handed_over (take n ?all)) (s', l') \<and>
      arrived (kern l') (ch_fd ?ch) = drop n ?all \<and> (n = length ?all \<or> (\<exists>pre err. elog l' = pre @ [LogSysError err])) \<and>
      (adds_to_log (udp_client_on_read :: _ \<Rightarrow> _ \<Rightarrow> UdpClient \<times> 'a udp_loop \<Rightarrow> _) \<longrightarrow> n = length ?all \<or> read_failed l l')"
    by (rule dgram_read_loop_returns [where Q = ?Q, OF assms(3,2) quiet _ _ par]) (use frame handle in \<open>blast | simp\<close>)+
  then obtain l' n where "dgram_read_loop os ?ch udp_client_on_read (c, l) = Some (c, l')"
    "heavy_buffer_queue l' = heavy_buffer_queue l @ ?posts (map handed_over (take n ?all))" "n \<le> length ?all"
    "arrived (kern l') (ch_fd ?ch) = drop n ?all" "n = length ?all \<or> read_failed l l'"
    using client_adds_to_log by auto
  moreover from this(3,5) have "n = length ?all \<or> n < length ?all \<and> (\<exists>pre err. elog l' = elog l @ pre @ [LogSysError err])"
    using le_neq_implies_less unfolding read_failed_def by blast
  ultimately show ?thesis using assms(5,6)
    by (intro exI [of _ l'] exI [of _ n]) (simp add: dgram_event_def udp_client_handler_def)
qed

section \<open>Witnesses\<close>

definition demo_peer :: InetAddr where "demo_peer = \<lparr>addr_storage = SockIn 80 1, socklen = 16\<rparr>"
definition demo_other :: InetAddr where "demo_other = \<lparr>addr_storage = SockIn 80 2, socklen = 16\<rparr>"

lemma demo_peers: "valid_addr demo_peer" "valid_addr demo_other" "addr_eq demo_peer demo_peer" "\<not> addr_eq demo_peer demo_other"
  "\<not> addr_eq demo_other demo_peer" "make_from_sockaddr (Some (SockIn 80 1)) 16 = Inr demo_peer"
  "make_from_sockaddr (Some (SockIn 80 2)) 16 = Inr demo_other"
  by (simp_all add: demo_peer_def demo_other_def valid_addr_def addr_eq_def make_from_sockaddr_def sizeof_sockaddr_in_def)

definition demo_server :: UdpServer where
  "demo_server = \<lparr>server_dgram = demo_dgram, new_session_cb = Some 1, server_read_cb = Some 2, udp_sessions = [],
     session_store = (\<lambda>_. None), next_session = 0, server_local = demo_peer, scan_channel = demo_channel,
     session_timeout_ms = 1000, scan_started = True\<rparr>"

definition demo_udp_loop :: "kstate udp_loop" where
  "demo_udp_loop = make_Loop 3 4 (k_init\<lparr>k_dgrams := (\<lambda>_. [([1, 2], SockIn 80 1, 16)]), k_room := (\<lambda>_. 8)\<rparr>) {7}"

text \<open>One session, of \<open>demo_peer\<close>, opened at time 0.\<close>

definition demo_busy_server :: "nat option \<Rightarrow> UdpServer" where
  "demo_busy_server cb = add_session demo_peer
     \<lparr>us_user_context = None, us_source = demo_peer, us_time_stamp = 0, us_server = 7\<rparr> (demo_server\<lparr>server_read_cb := cb\<rparr>)"

lemma demo_server_inv: "udp_inv demo_server" "udp_inv (demo_busy_server cb)"
proof -
  show "udp_inv demo_server" by (simp add: udp_inv_def demo_server_def)
  have "udp_inv (demo_server\<lparr>server_read_cb := cb\<rparr>)" by (simp add: udp_inv_def demo_server_def)
  then show "udp_inv (demo_busy_server cb)" unfolding demo_busy_server_def
    by (rule add_session_inv) (simp_all add: demo_peers find_session_def demo_server_def)
qed

lemma late_dgram: "dgram_documented ref_os_late k_dgrams k_out" "\<And>k. k_dgrams (snd (os_steady_now ref_os_late k)) = k_dgrams k"
  using ref_os_dgram by (simp_all add: dgram_documented_def ref_os_late_def)

lemma kRead_only: "has_event kRead kRead" "\<not> has_event kRead kError"
  by (simp_all add: has_event_def event_and_def kRead_def kError_def)

text \<open>A server without sessions hears the one datagram of \<open>demo_udp_loop\<close>.\<close>

lemma demo_hearing:
  assumes ch: "\<not> invalid_channel (dgram_channel (server_dgram srv))" and "udp_sessions srv = []" and "server_read_cb srv = Some cb"
  shows "\<exists>ss l. dgram_event ref_os_late (udp_server_handler ref_os_late) kRead (server_dgram srv) (srv, demo_udp_loop) =
    Some (add_session demo_peer ss srv, l)"
proof -
  let ?ch = "dgram_channel (server_dgram srv)" and ?os = ref_os_late
  have os: "os_recvfrom ?os = k_recvfrom" "os_steady_now ?os k = (10, k\<lparr>k_clock := 10\<rparr>)" for k
    by (simp_all add: ref_os_late_def ref_os_def)
  obtain l1 where one: "dgram_recv ?os ?ch demo_udp_loop = ((2, [1, 2], Some demo_peer), l1)" "k_dgrams (kern l1) (ch_fd ?ch) = []"
    by (simp add: dgram_recv_def get_fd_valid [OF ch] os k_recvfrom_def demo_udp_loop_def make_Loop_def demo_peers kMaxUdpPacketSize_def)
  obtain srv2 l2 where o: "udp_server_on_read ?os [1, 2] demo_peer (srv, l1) = (srv2, l2)" by fastforce
  have "find_session demo_peer srv = None" using assms(2) by (simp add: find_session_def)
  then obtain ss where s2: "srv2 = add_session demo_peer ss srv"
    using on_read_object [OF os(2), of "[1, 2]" demo_peer srv l1] o assms(3) by simp
  have "k_dgrams (kern l2) (ch_fd ?ch) = []"
    using on_read_kern [of ?os "[1, 2]" demo_peer srv l1] o one(2) late_dgram(2) by auto
  then obtain l3 where two: "dgram_recv ?os ?ch l2 = ((-1, [], None), l3)"
    by (simp add: dgram_recv_def get_fd_valid [OF ch] os k_recvfrom_def)
  have "dgram_read_loop ?os ?ch (udp_server_on_read ?os) (srv, demo_udp_loop) = Some (srv2, l3)"
    using one(1) o two by (simp add: dgram_read_loop.simps [of ?os ?ch])
  then show ?thesis using s2 kRead_only
    by (intro exI [of _ ss] exI [of _ l3]) (simp add: dgram_event_def udp_server_handler_def)
qed

lemma demo_constructed: "\<exists>srv l. construct_UdpServer ref_os_late 7 demo_peer 1000 demo_udp_loop = Inr (srv, l) \<and>
    udp_sessions srv = [] \<and> \<not> invalid_channel (dgram_channel (server_dgram srv)) \<and> next_session srv = 0"
  by (simp add: construct_UdpServer_def construct_DgramSocket_def make_dgram_channel_def make_net_timer_channel_def
      open_channel_def ref_os_late_def ref_os_def k_open_fd_def k_fresh_def demo_udp_loop_def k_init_def make_Loop_def
      demo_peer_def Let_def get_sockaddr_def get_socklen_def AF_INET_def AF_INET6_def construct_LoopChannel_def
      move_LoopChannel_def register_fd_def post_io_task_def wake_io_up_def scan_interval_def kMinScanIntervalMs_def
      kMaxScanIntervalMs_def kScanFrequencyDivisor_def destroy_LoopChannel_def invalid_channel_def)

theorem udp_sessions_keyed_by_peer_witness:
  "\<exists>st0 srv l. construct_UdpServer ref_os_late 7 demo_peer 1000 demo_udp_loop = Inr st0 \<and> udp_run ref_os_late st0 (srv, l) \<and>
     find_session demo_peer srv = Some (demo_peer, 0) \<and>
     find (\<lambda>(key, sid). addr_eq demo_peer key)
       (filter (\<lambda>(key, sid). unat (addr_hash demo_lib key) mod 7 = unat (addr_hash demo_lib demo_peer) mod 7) (udp_sessions srv)) =
       Some (demo_peer, 0)"
proof -
  obtain srv0 l0 where made: "construct_UdpServer ref_os_late 7 demo_peer 1000 demo_udp_loop = Inr (srv0, l0)"
    "udp_sessions srv0 = []" "\<not> invalid_channel (dgram_channel (server_dgram srv0))" "next_session srv0 = 0"
    using demo_constructed by blast
  define srv1 where "srv1 = server_set_read_cb (Some 2) srv0"
  have run1: "udp_run ref_os_late (srv0, l0) (srv1, demo_udp_loop)" unfolding srv1_def
    using udp_run.then_step [OF udp_run.then_step [OF udp_run.begin_run udp_step.read_session] udp_step.elsewhere] .
  obtain ss l where "dgram_event ref_os_late (udp_server_handler ref_os_late) kRead (server_dgram srv1) (srv1, demo_udp_loop) =
      Some (add_session demo_peer ss srv1, l)"
    using demo_hearing [of srv1 2] made by (auto simp: srv1_def server_set_read_cb_def)
  from udp_run.then_step [OF run1 udp_step.hearing [OF this]]
  have run: "udp_run ref_os_late (srv0, l0) (add_session demo_peer ss srv1, l)" .
  have f: "find_session demo_peer (add_session demo_peer ss srv1) = Some (demo_peer, 0)"
    using made by (simp add: find_add_session demo_peers srv1_def server_set_read_cb_def) (simp add: find_session_def)
  from udp_sessions_keyed_by_peer [OF made(1) run ref_os_late_ok(3) demo_peers(1,2), of demo_peer 0 demo_peer 0 demo_lib 7]
  have "find (\<lambda>(key, sid). addr_eq demo_peer key)
      (filter (\<lambda>(key, sid). unat (addr_hash demo_lib key) mod 7 = unat (addr_hash demo_lib demo_peer) mod 7)
        (udp_sessions (add_session demo_peer ss srv1))) = Some (demo_peer, 0)"
    unfolding f by simp
  then show ?thesis using made(1) run f
    by (intro exI [of _ "(srv0, l0)"] exI [of _ "add_session demo_peer ss srv1"] exI [of _ l] conjI)
qed

theorem udp_table_refines_peers_witness:
  "session_of (fst (udp_server_on_read ref_os_late [1] demo_other (demo_busy_server (Some 2), demo_udp_loop))) demo_other = Some (1, 10) \<and>
   (\<exists>srv' l' t. udp_server_scan ref_os_late (demo_busy_server (Some 2), demo_udp_loop) = Inr (srv', l') \<and>
     session_of srv' demo_other = None)"
proof -
  have now: "os_steady_now ref_os_late (kern demo_udp_loop) = (10, (kern demo_udp_loop)\<lparr>k_clock := 10\<rparr>)"
    by (simp add: ref_os_late_def)
  have "unat (session_timeout_ms (demo_busy_server (Some 2))) * 1000000 < 2 ^ 62"
    by (simp add: demo_busy_server_def add_session_def demo_server_def)
  note P = udp_table_refines_peers [OF demo_server_inv(2) demo_peers(2,2) now ref_os_late_ok(3,1) this, of "[1]"]
  have "find_session demo_other (demo_busy_server (Some 2)) = None"
    by (simp add: demo_busy_server_def find_add_session demo_peers) (simp add: find_session_def demo_server_def)
  then have "session_of (demo_busy_server (Some 2)) demo_other = None" by (simp add: session_of_def)
  moreover have "addr_eq demo_other demo_other" by (rule addr_key.eq_refl [OF demo_peers(2)])
  moreover have "server_read_cb (demo_busy_server (Some 2)) = Some 2" "next_session (demo_busy_server (Some 2)) = 1"
    by (simp_all add: demo_busy_server_def add_session_def demo_server_def)
  ultimately show ?thesis using P by (auto simp: peer_received_def peers_expired_def)
qed

theorem udp_server_routes_by_peer_witness:
  "\<exists>srv' l'. dgram_event ref_os_late (udp_server_handler ref_os_late) kRead demo_dgram (demo_server, demo_udp_loop) = Some (srv', l') \<and>
     udp_inv srv' \<and> find_session demo_peer srv' = Some (demo_peer, 0)"
proof -
  have c: "server_read_cb demo_server \<noteq> None" "server_dgram demo_server = demo_dgram" "dgram_channel demo_dgram = demo_channel"
      "udp_sessions demo_server = []" "next_session demo_server = 0" "server_read_cb demo_server = Some 2"
    by (simp_all add: demo_server_def demo_dgram_def)
  have ch: "\<not> invalid_channel (dgram_channel (server_dgram demo_server))" using c demo_channel_valid by simp
  have par: "\<forall>(whole, sa, len) \<in> set (k_dgrams (kern demo_udp_loop) (ch_fd (dgram_channel (server_dgram demo_server)))).
      \<exists>a. make_from_sockaddr (Some sa) len = Inr a"
    by (simp add: demo_udp_loop_def make_Loop_def demo_peers)
  from udp_server_routes_by_peer [OF demo_server_inv(1) c(1) ch late_dgram(1) ref_os_late_ok(3) late_dgram(2) par kRead_only]
  obtain srv' l' where R: "dgram_event ref_os_late (udp_server_handler ref_os_late) kRead demo_dgram (demo_server, demo_udp_loop) =
      Some (srv', l')" "udp_inv srv'"
    unfolding c(2) by blast
  obtain ss where "srv' = add_session demo_peer ss demo_server"
    using demo_hearing [OF ch c(4,6)] R(1) c(2) by auto
  then have "find_session demo_peer srv' = Some (demo_peer, 0)"
    using c(4,5) by (simp add: find_add_session demo_peers) (simp add: find_session_def)
  then show ?thesis using R by blast
qed

theorem udp_reply_reaches_sender_witness:
  "\<exists>srv l ss. udp_server_on_read ref_os_late [1] demo_peer (demo_server, demo_udp_loop) = (srv, l) \<and> session_store srv 0 = Some ss \<and>
     us_post_send_task ref_os_late [9] ss srv l = post_io_task ref_os_late (WrapperTask 7 (DgramSend 7 [9] demo_peer)) l"
proof -
  have now: "os_steady_now ref_os_late (kern demo_udp_loop) = (10, (kern demo_udp_loop)\<lparr>k_clock := 10\<rparr>)"
    by (simp add: ref_os_late_def)
  obtain srv l where o: "udp_server_on_read ref_os_late [1] demo_peer (demo_server, demo_udp_loop) = (srv, l)" by fastforce
  have f: "find_session demo_peer demo_server = None" "server_read_cb demo_server = Some 2" "is_inet demo_peer"
    by (simp_all add: find_session_def demo_server_def is_inet_def demo_peer_def get_sockaddr_def)
  define ss where "ss = \<lparr>us_user_context = None, us_source = demo_peer, us_time_stamp = 10, us_server = 7\<rparr>"
  have srv: "srv = add_session demo_peer ss demo_server"
    using on_read_object [OF now, of "[1]" demo_peer demo_server] o f(1,2) by (simp add: ss_def demo_server_def demo_dgram_def)
  have st: "session_store srv (next_session demo_server) = Some ss" "next_session demo_server = 0" by (simp_all add: srv demo_server_def)
  have "live l = {7}" using o
    by (auto simp: udp_server_on_read_def demo_server_def find_session_def make_udp_session_def demo_udp_loop_def make_Loop_def
        dgram_post_heavy_task_def channel_post_heavy_task_def demo_dgram_def demo_channel_valid post_heavy_task_def wake_heavy_up_def
        split_beta Let_def)
  then have "us_server ss \<in> live l" by (simp add: ss_def)
  moreover have "\<not> invalid_channel (dgram_channel (server_dgram srv))"
    using demo_channel_valid by (simp add: srv add_session_def demo_server_def demo_dgram_def)
  ultimately show ?thesis
    using udp_reply_reaches_sender [OF demo_peers(6) f(3,1) _ o st(1) _ _ late_dgram(1), of l "[9]" l] f(2) o st ss_def by auto
qed

theorem scan_interval_bounds_witness: "unat (scan_interval 60000) = 6000 \<and> unat (scan_interval 10) = 100"
  using scan_interval_bounds [of 60000] scan_interval_bounds [of 10]
  by (simp add: scan_interval_def kMinScanIntervalMs_def kMaxScanIntervalMs_def kScanFrequencyDivisor_def Let_def)

theorem active_session_expires_witness:
  "udp_server_on_read ref_os_late [1] demo_peer (demo_busy_server None, demo_udp_loop) = (demo_busy_server None, demo_udp_loop)"
proof -
  let ?ss = "\<lparr>us_user_context = None, us_source = demo_peer, us_time_stamp = 0, us_server = 7\<rparr>"
  have f: "find_session demo_peer (demo_busy_server None) = Some (demo_peer, 0)"
    by (simp add: demo_busy_server_def find_add_session demo_peers) (simp add: find_session_def demo_server_def)
  have s: "session_store (demo_busy_server None) 0 = Some ?ss" "server_read_cb (demo_busy_server None) = None"
      "unat (session_timeout_ms (demo_busy_server None)) * 1000000 < 2 ^ 62"
    by (simp_all add: demo_busy_server_def demo_server_def add_session_def)
  show ?thesis
    using active_session_expires [OF demo_server_inv(2) demo_peers(1) f s(1,2) ref_os_late_ok(3,1) s(3)] by blast
qed

definition demo_udp_client :: UdpClient where
  "demo_udp_client = \<lparr>client_dgram = demo_dgram, client_read_cb = Some 1, client_error_cb = None, client_source = demo_peer\<rparr>"

text \<open>A datagram of the peer, then one of another address.\<close>

definition demo_two_loop :: "kstate udp_loop" where
  "demo_two_loop = make_Loop 3 4 (k_init\<lparr>k_dgrams := (\<lambda>_. [([1, 2], SockIn 80 1, 16), ([3], SockIn 80 2, 16)])\<rparr>) {7}"

lemma demo_client_event:
  "\<exists>l'. dgram_event ref_os_late (udp_client_handler (\<lambda>_ l. l)) kRead demo_dgram (demo_udp_client, demo_two_loop) =
     Some (demo_udp_client, l') \<and> elog l' = [LogInfo ''udp client read data from unexpected source'']"
proof -
  let ?ch = "dgram_channel demo_dgram" and ?os = ref_os_late
  have ch: "\<not> invalid_channel ?ch" using demo_channel_valid by (simp add: demo_dgram_def)
  have os: "os_recvfrom ?os = k_recvfrom" by (simp add: ref_os_late_def ref_os_def)
  obtain l1 where one: "dgram_recv ?os ?ch demo_two_loop = ((2, [1, 2], Some demo_peer), l1)"
      "k_dgrams (kern l1) (ch_fd ?ch) = [([3], SockIn 80 2, 16)]" "elog l1 = []"
    by (simp add: dgram_recv_def get_fd_valid [OF ch] os k_recvfrom_def demo_two_loop_def make_Loop_def demo_peers kMaxUdpPacketSize_def)
  obtain l2 where r1: "udp_client_on_read [1, 2] demo_peer (demo_udp_client, l1) = (demo_udp_client, l2)" "kern l2 = kern l1" "elog l2 = []"
    using ch one(3) by (auto simp: udp_client_on_read_def demo_udp_client_def addr_neq_def demo_peers dgram_post_heavy_task_def
        channel_post_heavy_task_def post_heavy_task_def wake_heavy_up_def)
  obtain l3 where two: "dgram_recv ?os ?ch l2 = ((1, [3], Some demo_other), l3)" "k_dgrams (kern l3) (ch_fd ?ch) = []" "elog l3 = []"
    using one(2) r1(2,3) by (simp add: dgram_recv_def get_fd_valid [OF ch] os k_recvfrom_def demo_peers kMaxUdpPacketSize_def)
  obtain l4 where r2: "udp_client_on_read [3] demo_other (demo_udp_client, l3) = (demo_udp_client, l4)" "kern l4 = kern l3"
      "elog l4 = [LogInfo ''udp client read data from unexpected source'']"
    using two(3) by (simp add: udp_client_on_read_def demo_udp_client_def addr_neq_def demo_peers write_log_def)
  obtain l5 where three: "dgram_recv ?os ?ch l4 = ((-1, [], None), l5)" "elog l5 = elog l4"
    using two(2) r2(2) by (simp add: dgram_recv_def get_fd_valid [OF ch] os k_recvfrom_def)
  have "dgram_read_loop ?os ?ch udp_client_on_read (demo_udp_client, demo_two_loop) = Some (demo_udp_client, l5)"
    using one(1) r1(1) two(1) r2(1) three(1) by (simp add: dgram_read_loop.simps [of ?os ?ch])
  then show ?thesis using three(2) r2(3) kRead_only by (intro exI [of _ l5]) (simp add: dgram_event_def udp_client_handler_def)
qed

theorem udp_client_hears_peer_only_witness:
  "\<exists>l'. dgram_event ref_os_late (udp_client_handler (\<lambda>_ l. l)) kRead demo_dgram (demo_udp_client, demo_two_loop) =
     Some (demo_udp_client, l') \<and> heavy_buffer_queue l' = [WrapperTask (dg_self demo_dgram) (DgramHeavy (ClientRead (dg_self demo_dgram) [1, 2]))]"
proof -
  have c: "client_read_cb demo_udp_client \<noteq> None" "client_dgram demo_udp_client = demo_dgram" "client_source demo_udp_client = demo_peer"
    by (simp_all add: demo_udp_client_def)
  have ds: "k_dgrams (kern demo_two_loop) fd = [([1, 2], SockIn 80 1, 16), ([3], SockIn 80 2, 16)]" "heavy_buffer_queue demo_two_loop = []" for fd
    by (simp_all add: demo_two_loop_def make_Loop_def)
  have ch: "\<not> invalid_channel (dgram_channel (client_dgram demo_udp_client))"
    using c demo_channel_valid by (simp add: demo_dgram_def)
  have par: "\<forall>(whole, sa, len) \<in> set (k_dgrams (kern demo_two_loop) (ch_fd (dgram_channel (client_dgram demo_udp_client)))).
      \<exists>a. make_from_sockaddr (Some sa) len = Inr a"
    by (simp add: ds demo_peers)
  obtain l' where L: "dgram_event ref_os_late (udp_client_handler (\<lambda>_ l. l)) kRead demo_dgram (demo_udp_client, demo_two_loop) =
      Some (demo_udp_client, l')" "elog l' = [LogInfo ''udp client read data from unexpected source'']"
    using demo_client_event by blast
  from udp_client_hears_peer_only [OF c(1) ch late_dgram(1) par kRead_only, of "\<lambda>_ l. l"]
  obtain l2 n where R: "Some (demo_udp_client, l') = Some (demo_udp_client, l2)"
    "n = length [([1 :: byte, 2], SockIn 80 1, 16 :: nat), ([3], SockIn 80 2, 16)] \<or>
      (\<exists>pre err. elog l2 = elog demo_two_loop @ pre @ [LogSysError err])"
    "heavy_buffer_queue l2 = [] @ map (\<lambda>(data, a). WrapperTask (dg_self demo_dgram) (DgramHeavy (ClientRead (dg_self demo_dgram) data)))
        (filter (\<lambda>(data, a). addr_eq a demo_peer) (map handed_over (take n [([1, 2], SockIn 80 1, 16), ([3], SockIn 80 2, 16)])))"
    unfolding c ds L(1) by blast
  have same: "l2 = l'" using R(1) by simp
  then have "n = 2" using R(2) L(2) by auto
  then have "heavy_buffer_queue l' = [WrapperTask (dg_self demo_dgram) (DgramHeavy (ClientRead (dg_self demo_dgram) [1, 2]))]"
    using R(3) same by (simp add: handed_over_def demo_peers kMaxUdpPacketSize_def)
  then show ?thesis using L(1) by blast
qed

end
