(* ===== verification/Log.thy ===== *)
theory Log
  imports Loop_Core
begin

text \<open>
  The log (\<open>include/kzevent/log.hpp\<close>, \<open>src/log.cpp\<close>, \<open>include/kzevent/sys_error.hpp\<close>): lines are written to
  a file that is replaced by a new one after \<open>kMaxLines\<close> lines. The file system, the wall clock and
  \<open>std::put_time\<close> are parameters; \<open>'f\<close> is the state of the file system. The mutex makes a write one
  step. The other theories record what is logged as a \<open>log_entry\<close>, which \<open>rendered\<close> turns into text.
\<close>

section \<open>State\<close>

datatype Level = LevelInfo | LevelError | LevelFatal

text \<open>
  \<open>lg_exists\<close> may throw; \<open>lg_open\<close> opens a file for appending, \<open>lg_append\<close> writes one line and flushes it; \<open>lg_time\<close>
  reads the wall clock in seconds; the two formats are those of the file name and of a line.
\<close>

record 'f log_os =
  lg_exists :: "string \<Rightarrow> 'f \<Rightarrow> bool option \<times> 'f"
  lg_create :: "string \<Rightarrow> 'f \<Rightarrow> bool \<times> 'f"
  lg_time :: "'f \<Rightarrow> int \<times> 'f"
  lg_open :: "string \<Rightarrow> 'f \<Rightarrow> bool \<times> 'f"
  lg_append :: "string \<Rightarrow> string \<Rightarrow> 'f \<Rightarrow> bool \<times> 'f"
  lg_file_format :: "int \<Rightarrow> string"
  lg_line_format :: "int \<Rightarrow> string"

text \<open>The stream: the path of the open file, and whether its state is good; \<open>errors\<close> is what went to \<open>std::cerr\<close>.\<close>

record LogManager =
  log_file :: "string option"
  log_good :: bool
  log_dir :: string
  current_line_count :: int
  cerr :: "string list"

definition kMaxLines :: int where "kMaxLines = 5000"

section \<open>Operations\<close>

fun level_to_string :: "Level \<Rightarrow> string" where
  "level_to_string LevelInfo = ''INFO ''"
| "level_to_string LevelError = ''ERROR''"
| "level_to_string LevelFatal = ''FATAL''"

text \<open>The constructor; \<open>None\<close> when it throws.\<close>

definition construct_LogManager :: "'f log_os \<Rightarrow> string \<Rightarrow> 'f \<Rightarrow> LogManager option \<times> 'f" where
  "construct_LogManager os root k =
     (let dir = root @ ''/kz_logs''; m = \<lparr>log_file = None, log_good = True, log_dir = dir, current_line_count = 0, cerr = []\<rparr>
      in case lg_exists os dir k of
           (None, k1) \<Rightarrow> (None, k1)
         | (Some True, k1) \<Rightarrow> (Some m, k1)
         | (Some False, k1) \<Rightarrow>
             (case lg_create os dir k1 of
                (True, k2) \<Rightarrow> (Some m, k2)
              | (False, k2) \<Rightarrow> (Some (m\<lparr>cerr := [''failed to create kz_logs directory: '' @ dir]\<rparr>), k2)))"

definition new_log_file :: "'f log_os \<Rightarrow> LogManager \<times> 'f \<Rightarrow> LogManager \<times> 'f" where
  "new_log_file os st =
     (case st of (m, k) \<Rightarrow>
        let (t, k1) = lg_time os k;
            path = log_dir m @ ''/kz_log_'' @ lg_file_format os t @ ''.txt'';
            (opened, k2) = lg_open os path k1
        in (m\<lparr>log_file := (if opened then Some path else None), log_good := opened,
              cerr := (if opened then cerr m else cerr m @ [''FATAL: failed to open kz_logs file: '' @ path]),
              current_line_count := 0\<rparr>, k2))"

text \<open>A line as it is written.\<close>

definition log_line :: "'f log_os \<Rightarrow> int \<Rightarrow> Level \<Rightarrow> string \<Rightarrow> string \<Rightarrow> string" where
  "log_line os t level tid payload =
     ''['' @ lg_line_format os t @ ''] ['' @ level_to_string level @ ''] [TID:'' @ tid @ ''] '' @ payload"

definition log_write :: "'f log_os \<Rightarrow> string \<Rightarrow> Level \<Rightarrow> string \<Rightarrow> LogManager \<times> 'f \<Rightarrow> LogManager \<times> 'f" where
  "log_write os tid level payload st =
     (case (if log_file (fst st) = None \<or> current_line_count (fst st) \<ge> kMaxLines then new_log_file os st else st) of (m, k) \<Rightarrow>
        let (t, k1) = lg_time os k;
            (good, k2) = (case log_file m of
              None \<Rightarrow> (False, k1)
            | Some path \<Rightarrow> if log_good m then lg_append os path (log_line os t level tid payload) k1 else (False, k1))
        in (m\<lparr>log_good := good, current_line_count := current_line_count m + 1\<rparr>, k2))"

text \<open>\<open>log_impl\<close>: the manager is made at the first use, and again if that threw.\<close>

definition log_impl :: "'f log_os \<Rightarrow> string \<Rightarrow> string \<Rightarrow> Level \<Rightarrow> string \<Rightarrow> LogManager option \<times> 'f \<Rightarrow> LogManager option \<times> 'f" where
  "log_impl os root tid level payload st =
     (case st of
        (Some m, k) \<Rightarrow> (case log_write os tid level payload (m, k) of (m', k') \<Rightarrow> (Some m', k'))
      | (None, k) \<Rightarrow>
          (case construct_LogManager os root k of
             (None, k1) \<Rightarrow> (None, k1)
           | (Some m, k1) \<Rightarrow> (case log_write os tid level payload (m, k1) of (m', k') \<Rightarrow> (Some m', k'))))"

text \<open>\<open>log\<close>: the arguments, joined; the macros put the place in front of them.\<close>

definition log_args :: "'f log_os \<Rightarrow> string \<Rightarrow> string \<Rightarrow> Level \<Rightarrow> string list \<Rightarrow> LogManager option \<times> 'f \<Rightarrow> LogManager option \<times> 'f" where
  "log_args os root tid level args = log_impl os root tid level (concat args)"

definition kz_log :: "'f log_os \<Rightarrow> string \<Rightarrow> string \<Rightarrow> Level \<Rightarrow> string \<Rightarrow> string \<Rightarrow> string list \<Rightarrow>
    LogManager option \<times> 'f \<Rightarrow> LogManager option \<times> 'f" where
  "kz_log os root tid level file line args = log_args os root tid level (''['' # file # '':'' # line # ''] '' # args)"

text \<open>
  The entries the other theories record, as level and arguments; \<open>number\<close> and \<open>message\<close> are the decimal and the text of
  an error. \<open>sys_error::error()\<close> logs \<open>LogSysError\<close>; \<open>sys_error::fatal()\<close> logs the same text and throws.
\<close>

fun rendered :: "(errno \<Rightarrow> string) \<Rightarrow> (errno \<Rightarrow> string) \<Rightarrow> log_entry \<Rightarrow> Level \<times> string list" where
  "rendered number message (LogInfo s) = (LevelInfo, [s])"
| "rendered number message (LogError s) = (LevelError, [s])"
| "rendered number message (LogSysError err) = (LevelError, [''errno: '', number err, '', msg: '', message err])"
| "rendered number message (LogCode s err) = (LevelError, [s, message err])"
| "rendered number message (LogFatal s err) = (LevelFatal, [s, message err])"

definition sys_fatal :: "'f log_os \<Rightarrow> string \<Rightarrow> string \<Rightarrow> string \<Rightarrow> string \<Rightarrow> (errno \<Rightarrow> string) \<Rightarrow> (errno \<Rightarrow> string) \<Rightarrow> errno \<Rightarrow>
    LogManager option \<times> 'f \<Rightarrow> fault \<times> LogManager option \<times> 'f" where
  "sys_fatal os root tid file line number message err st =
     (SysFatal err, kz_log os root tid LevelFatal file line [''errno: '', number err, '', msg: '', message err] st)"

section \<open>Lemmas\<close>

text \<open>
  A file system: opening for appending changes no content, a line that is written is the last of its file,
  and nothing else changes any file. \<open>files\<close> gives the lines of each.
\<close>

definition log_documented :: "'f log_os \<Rightarrow> ('f \<Rightarrow> string \<Rightarrow> string list) \<Rightarrow> bool" where
  "log_documented os files \<longleftrightarrow> (\<forall>k. files (snd (lg_time os k)) = files k) \<and> (\<forall>path k. files (snd (lg_open os path k)) = files k) \<and>
     (\<forall>path line k. files (snd (lg_append os path line k)) =
        (if fst (lg_append os path line k) then (files k)(path := files k path @ [line]) else files k))"

definition disk_ok :: "'f log_os \<Rightarrow> bool" where
  "disk_ok os \<longleftrightarrow> (\<forall>path k. fst (lg_open os path k)) \<and> (\<forall>path line k. fst (lg_append os path line k))"

definition file_at :: "'f log_os \<Rightarrow> string \<Rightarrow> int \<Rightarrow> string" where
  "file_at os dir t = dir @ ''/kz_log_'' @ lg_file_format os t @ ''.txt''"

text \<open>Writes in order, and the lines each opening of a file took, as appended to the files.\<close>

definition write_all :: "'f log_os \<Rightarrow> (string \<times> Level \<times> string) list \<Rightarrow> LogManager \<times> 'f \<Rightarrow> LogManager \<times> 'f" where
  "write_all os ws st = fold (\<lambda>(tid, level, payload). log_write os tid level payload) ws st"

definition append_all :: "(string \<times> string list) list \<Rightarrow> (string \<Rightarrow> string list) \<Rightarrow> string \<Rightarrow> string list" where
  "append_all segs F = fold (\<lambda>(path, ls) F. F(path := F path @ ls)) segs F"

lemma append_all_snoc: "append_all (segs @ [(path, ls)]) F = (append_all segs F)(path := append_all segs F path @ ls)"
  by (simp add: append_all_def)

lemma append_all_one_file: "\<forall>seg \<in> set segs. fst seg = path \<Longrightarrow> append_all segs F path = F path @ concat (map snd segs)"
proof (induction segs rule: rev_induct)
  case (snoc seg segs)
  then show ?case by (cases seg) (simp add: append_all_snoc)
qed (simp add: append_all_def)

definition line_for :: "'f log_os \<Rightarrow> string \<times> Level \<times> string \<Rightarrow> string \<Rightarrow> bool" where
  "line_for os w ln \<longleftrightarrow> (case w of (tid, level, payload) \<Rightarrow> \<exists>t k. t = fst (lg_time os k) \<and> ln = log_line os t level tid payload)"

text \<open>What \<open>ws\<close> writes from the files \<open>F\<close> have led to: the segments are full but the last, which is the open file.\<close>

definition logged :: "'f log_os \<Rightarrow> ('f \<Rightarrow> string \<Rightarrow> string list) \<Rightarrow> string \<Rightarrow> (string \<Rightarrow> string list) \<Rightarrow> (string \<times> Level \<times> string) list \<Rightarrow>
    (string \<times> string list) list \<Rightarrow> LogManager \<times> 'f \<Rightarrow> bool" where
  "logged os files dir F ws segs st \<longleftrightarrow> (case st of (m, k) \<Rightarrow>
     files k = append_all segs F \<and> list_all2 (line_for os) ws (concat (map snd segs)) \<and> log_dir m = dir \<and>
     (\<forall>seg \<in> set segs. (\<exists>k. fst seg = file_at os dir (fst (lg_time os k))) \<and> length (snd seg) \<le> 5000) \<and>
     (\<forall>seg \<in> set (butlast segs). length (snd seg) = 5000) \<and>
     (if segs = [] then log_file m = None
      else log_good m \<and> log_file m = Some (fst (last segs)) \<and> current_line_count m = int (length (snd (last segs)))))"

lemma log_documentedD:
  assumes "log_documented os files"
  shows "lg_time os k = (t, k1) \<Longrightarrow> files k1 = files k" and "lg_open os path k = (b, k1) \<Longrightarrow> files k1 = files k"
    and "lg_append os path line k = (True, k1) \<Longrightarrow> files k1 = (files k)(path := files k path @ [line])"
    and "lg_append os path line k = (False, k1) \<Longrightarrow> files k1 = files k"
  using assms unfolding log_documented_def by (metis fst_conv snd_conv)+

text \<open>A new file, and a line in an open one.\<close>

lemma new_log_file_effect:
  assumes doc: "log_documented os files" and disk: "disk_ok os"
  shows "\<exists>t k'. new_log_file os (m, k) = (m\<lparr>log_file := Some (file_at os (log_dir m) t), log_good := True, current_line_count := 0\<rparr>, k') \<and>
    (\<exists>k0. t = fst (lg_time os k0)) \<and> files k' = files k"
proof -
  obtain t k1 where t: "lg_time os k = (t, k1)" by fastforce
  let ?path = "file_at os (log_dir m) t"
  have "fst (lg_open os ?path k1)" using disk by (simp add: disk_ok_def)
  then obtain k2 where o: "lg_open os ?path k1 = (True, k2)" by (metis prod.collapse)
  have "files k2 = files k" using log_documentedD [OF doc] t o by metis
  moreover have "\<exists>k0. t = fst (lg_time os k0)" using t by (metis fst_conv)
  ultimately show ?thesis using t o
    by (intro exI [of _ t] exI [of _ k2]) (simp add: new_log_file_def file_at_def)
qed

lemma log_write_open:
  assumes doc: "log_documented os files" and disk: "disk_ok os"
    and m: "log_file m = Some path" "log_good m" "current_line_count m < 5000"
  shows "\<exists>ln k'. log_write os tid level payload (m, k) = (m\<lparr>log_good := True, current_line_count := current_line_count m + 1\<rparr>, k') \<and>
    line_for os (tid, level, payload) ln \<and> files k' = (files k)(path := files k path @ [ln])"
proof -
  obtain t k1 where t: "lg_time os k = (t, k1)" by fastforce
  let ?ln = "log_line os t level tid payload"
  have "fst (lg_append os path ?ln k1)" using disk by (simp add: disk_ok_def)
  then obtain k2 where a: "lg_append os path ?ln k1 = (True, k2)" by (metis prod.collapse)
  have "files k2 = (files k)(path := files k path @ [?ln])" using log_documentedD [OF doc] t a by metis
  moreover have "line_for os (tid, level, payload) ?ln" using t unfolding line_for_def by (metis (mono_tags, lifting) case_prod_conv fst_conv)
  ultimately show ?thesis using t a m
    by (intro exI [of _ ?ln] exI [of _ k2]) (simp add: log_write_def kMaxLines_def)
qed

lemma log_write_rotates:
  assumes "log_file m = None \<or> current_line_count m \<ge> 5000" and "new_log_file os (m, k) = (m1, k1)"
    and "log_file m1 \<noteq> None" and "current_line_count m1 < 5000"
  shows "log_write os tid level payload (m, k) = log_write os tid level payload (m1, k1)"
  using assms by (auto simp: log_write_def kMaxLines_def)

lemma logged_step:
  assumes doc: "log_documented os files" and disk: "disk_ok os" and st: "logged os files dir F ws segs (m, k)"
  shows "\<exists>segs'. logged os files dir F (ws @ [(tid, level, payload)]) segs' (log_write os tid level payload (m, k))"
proof (cases "log_file m = None \<or> current_line_count m \<ge> 5000")
  case True
  obtain t k1 where new: "new_log_file os (m, k) = (m\<lparr>log_file := Some (file_at os (log_dir m) t), log_good := True, current_line_count := 0\<rparr>, k1)"
      (is "_ = (?m1, _)") and t: "\<exists>k0. t = fst (lg_time os k0)" and k1: "files k1 = files k"
    using new_log_file_effect [OF doc disk, of m k] by blast
  have "log_write os tid level payload (m, k) = log_write os tid level payload (?m1, k1)"
    by (rule log_write_rotates [OF True new]) simp_all
  moreover obtain ln k2 where w: "log_write os tid level payload (?m1, k1) = (?m1\<lparr>log_good := True, current_line_count := 1\<rparr>, k2)"
      "line_for os (tid, level, payload) ln" "files k2 = (files k1)(file_at os (log_dir m) t := files k1 (file_at os (log_dir m) t) @ [ln])"
    using log_write_open [OF doc disk, of ?m1 "file_at os (log_dir m) t" tid level payload k1] by auto
  moreover have full: "length (snd seg) = 5000" if "seg \<in> set segs" for seg
  proof -
    have "segs \<noteq> []" using that by auto
    then have "length (snd (last segs)) = 5000" using st True by (force simp: logged_def dest: last_in_set)
    moreover have "set segs = set (butlast segs) \<union> {last segs}" using \<open>segs \<noteq> []\<close> by (metis append_butlast_last_id list.set(1) list.set(2) set_append)
    ultimately show ?thesis using that st by (auto simp: logged_def)
  qed
  ultimately have "logged os files dir F (ws @ [(tid, level, payload)]) (segs @ [(file_at os dir t, [ln])]) (log_write os tid level payload (m, k))"
    using st t k1 by (auto simp: logged_def append_all_snoc list_all2_appendI)
  then show ?thesis by blast
next
  case False
  then obtain path where path: "log_file m = Some path" "current_line_count m < 5000" by force
  with st obtain pre ls where segs: "segs = pre @ [(path, ls)]" and m: "log_good m" "current_line_count m = int (length ls)"
    by (cases segs rule: rev_cases) (auto simp: logged_def)
  obtain ln k2 where w: "log_write os tid level payload (m, k) = (m\<lparr>log_good := True, current_line_count := current_line_count m + 1\<rparr>, k2)"
      "line_for os (tid, level, payload) ln" "files k2 = (files k)(path := files k path @ [ln])"
    using log_write_open [OF doc disk path(1) m(1) path(2), of tid level payload k] by blast
  have "logged os files dir F (ws @ [(tid, level, payload)]) (pre @ [(path, ls @ [ln])]) (log_write os tid level payload (m, k))"
    using st w path m segs by (auto simp: logged_def append_all_snoc list_all2_appendI simp flip: append_assoc)
  then show ?thesis by blast
qed

lemma logged_all:
  assumes "log_documented os files" and "disk_ok os" and "log_file m = None" and "log_dir m = dir"
  shows "\<exists>segs. logged os files dir (files k) ws segs (write_all os ws (m, k))"
proof (induction ws rule: rev_induct)
  case Nil
  show ?case using assms(3,4) by (intro exI [of _ "[]"]) (simp add: logged_def write_all_def append_all_def)
next
  case (snoc w ws)
  obtain tid level payload where w: "w = (tid, level, payload)" by (metis prod.exhaust)
  obtain m' k' where "write_all os ws (m, k) = (m', k')" by fastforce
  then show ?case using snoc logged_step [OF assms(1,2)] by (fastforce simp: write_all_def w)
qed

section \<open>Properties\<close>

text \<open>
  C33. Nothing logged is lost. With a working disk and from a fresh manager, every line that is written, by any
  thread, is in a file, in the order of the writes. The files are opened one after the other, named
  by the time of opening; each opening takes exactly 5000 lines before the next, the last one at most
  that many; a file that was there before keeps its lines.
\<close>

theorem log_lines_in_order:
  assumes "log_documented os files" and "disk_ok os" and "log_file m = None"
  shows "\<exists>segs m' k'. write_all os ws (m, k) = (m', k') \<and> files k' = append_all segs (files k) \<and>
    list_all2 (line_for os) ws (concat (map snd segs)) \<and>
    (\<forall>seg \<in> set segs. (\<exists>k. fst seg = file_at os (log_dir m) (fst (lg_time os k))) \<and> length (snd seg) \<le> 5000) \<and>
    (\<forall>seg \<in> set (butlast segs). length (snd seg) = 5000)"
proof -
  obtain m' k' where "write_all os ws (m, k) = (m', k')" by fastforce
  then show ?thesis using logged_all [OF assms refl, of k ws] by (auto simp: logged_def)
qed

text \<open>
  C40. The limit of a file is not kept. The name of a file is its time of opening in seconds, and a file that is
  there is appended to: however many lines are written within one second, they all go to one file.
\<close>

theorem same_second_one_file:
  assumes "log_documented os files" and "disk_ok os" and "log_file m = None" and "\<And>k. fst (lg_time os k) = t"
  shows "\<exists>lines m' k'. write_all os ws (m, k) = (m', k') \<and> length lines = length ws \<and>
    files k' (file_at os (log_dir m) t) = files k (file_at os (log_dir m) t) @ lines"
proof -
  obtain m' k' where w: "write_all os ws (m, k) = (m', k')" by fastforce
  from logged_all [OF assms(1-3) refl, of k ws] w obtain segs where S: "files k' = append_all segs (files k)"
    "list_all2 (line_for os) ws (concat (map snd segs))" "\<forall>seg \<in> set segs. fst seg = file_at os (log_dir m) t"
    by (auto simp: logged_def assms(4))
  then show ?thesis using w append_all_one_file [OF S(3)] list_all2_lengthD [OF S(2)]
    by (intro exI [of _ "concat (map snd segs)"] exI [of _ m'] exI [of _ k']) simp
qed

text \<open>
  A file that cannot be opened. The line is lost and nothing else is; the failure goes to the standard error
  stream, the line is counted all the same, and the next write tries a new file.
\<close>

theorem log_open_failure:
  assumes "log_documented os files" and "\<And>path k. \<not> fst (lg_open os path k)" and "log_file m = None"
  shows "\<exists>m' k'. log_write os tid level payload (m, k) = (m', k') \<and> files k' = files k \<and> log_file m' = None \<and>
    current_line_count m' = 1 \<and> length (cerr m') = Suc (length (cerr m))"
proof -
  obtain t k1 where t: "lg_time os k = (t, k1)" by fastforce
  let ?path = "log_dir m @ ''/kz_log_'' @ lg_file_format os t @ ''.txt''"
  obtain k2 where o: "lg_open os ?path k1 = (False, k2)" using assms(2) [of ?path k1] by (metis prod.collapse)
  obtain t2 k3 where t2: "lg_time os k2 = (t2, k3)" by fastforce
  have "files k3 = files k" using log_documentedD(1,2) [OF assms(1)] t o t2 by metis
  then show ?thesis using assms(3) t o t2 by (simp add: log_write_def new_log_file_def)
qed

section \<open>Witnesses\<close>

text \<open>A disk that keeps what it is given, on a clock that stands still.\<close>

definition demo_log_os :: "(string \<Rightarrow> string list) log_os" where
  "demo_log_os = \<lparr>lg_exists = (\<lambda>dir k. (Some True, k)), lg_create = (\<lambda>dir k. (True, k)), lg_time = (\<lambda>k. (7, k)),
     lg_open = (\<lambda>path k. (True, k)), lg_append = (\<lambda>path ln k. (True, k(path := k path @ [ln]))),
     lg_file_format = (\<lambda>t. ''now''), lg_line_format = (\<lambda>t. ''now'')\<rparr>"

definition demo_manager :: LogManager where
  "demo_manager = \<lparr>log_file = None, log_good = True, log_dir = ''kz_logs'', current_line_count = 0, cerr = []\<rparr>"

lemma demo_log_ok: "log_documented demo_log_os (\<lambda>k. k)" "disk_ok demo_log_os" "log_file demo_manager = None"
  "\<And>k. fst (lg_time demo_log_os k) = 7"
  by (simp_all add: log_documented_def disk_ok_def demo_log_os_def demo_manager_def)

theorem log_lines_in_order_witness:
  "\<exists>segs m' k'. write_all demo_log_os [(''1'', LevelInfo, ''a''), (''2'', LevelError, ''b'')] (demo_manager, \<lambda>_. []) = (m', k') \<and>
     k' = append_all segs (\<lambda>_. []) \<and> length (concat (map snd segs)) = 2"
proof -
  from log_lines_in_order [OF demo_log_ok(1-3), of "[(''1'', LevelInfo, ''a''), (''2'', LevelError, ''b'')]" "\<lambda>_. []"]
  obtain segs m' k' where R: "write_all demo_log_os [(''1'', LevelInfo, ''a''), (''2'', LevelError, ''b'')] (demo_manager, \<lambda>_. []) = (m', k')"
    "k' = append_all segs (\<lambda>_. [])"
    "list_all2 (line_for demo_log_os) [(''1'', LevelInfo, ''a''), (''2'', LevelError, ''b'')] (concat (map snd segs))" by blast
  from list_all2_lengthD [OF R(3)] have "length (concat (map snd segs)) = 2" by simp
  then show ?thesis using R(1,2) by blast
qed

theorem same_second_one_file_witness:
  "\<exists>m' k'. write_all demo_log_os (replicate 12000 (''1'', LevelInfo, ''a'')) (demo_manager, \<lambda>_. []) = (m', k') \<and>
     length (k' ''kz_logs/kz_log_now.txt'') = 12000"
proof -
  have "file_at demo_log_os (log_dir demo_manager) 7 = ''kz_logs/kz_log_now.txt''"
    by (simp add: file_at_def demo_log_os_def demo_manager_def)
  with same_second_one_file [OF demo_log_ok, of "replicate 12000 (''1'', LevelInfo, ''a'')" "\<lambda>_. []"]
  show ?thesis by auto
qed

theorem log_open_failure_witness:
  "\<exists>m' k'. log_write (demo_log_os\<lparr>lg_open := (\<lambda>path k. (False, k))\<rparr>) ''1'' LevelInfo ''a'' (demo_manager, \<lambda>_. []) = (m', k') \<and>
     k' = (\<lambda>_. []) \<and> current_line_count m' = 1"
proof -
  have doc: "log_documented (demo_log_os\<lparr>lg_open := (\<lambda>path k. (False, k))\<rparr>) (\<lambda>k. k)"
    by (simp add: log_documented_def demo_log_os_def)
  have "\<not> fst (lg_open (demo_log_os\<lparr>lg_open := (\<lambda>path k. (False, k))\<rparr>) path k)" for path and k :: "string \<Rightarrow> string list" by simp
  from log_open_failure [OF doc this demo_log_ok(3), of "''1''" LevelInfo "''a''" "\<lambda>_. []"] show ?thesis by blast
qed

end
