(* ===== verification/Spec2Isabelle.thy ===== *)
theory Spec2Isabelle
  imports Prelude Interfaces Stream_Buffer Event_Types Kernel Loop_Core Loop_Threads Loop_Channel
    Std_Heap Timer Inet_Addr Channel_Factory Stream_IO Stream_Session Stream_Server Stream_Client Stream_Callbacks
    Tcp_Socket Unix_Socket Dgram Udp_Socket Log
begin

text \<open>
  kzevent is a C++17 event library over \<open>epoll\<close>. A \<open>Loop\<close> (\<open>src/core.cpp\<close>) owns an epoll
  instance, a table of descriptors and two threads: the io thread waits for events and runs their
  callbacks and the closures posted to it, the heavy thread runs longer closures. Everything else
  uses a loop through \<open>LoopChannel\<close>s, move-only handles of one descriptor each: timers
  (\<open>src/timer/timer.cpp\<close>), and stream and datagram sockets (\<open>src/net/\<close>). A call from another thread
  posts a closure (only \<open>start\<close>, \<open>stop\<close> and \<open>connect\<close> also change the object where they are called), and a closure or
  callback runs only if a \<open>weak_ptr\<close> of its owner can be locked.

  \<^bold>\<open>Theories, in the order of dependence.\<close>
  \<^item> \<open>Prelude\<close>: machine types, error numbers, vectors. \<open>Interfaces\<close>: the contracts between
    components as locales (\<open>byte_fifo\<close>, \<open>task_queue\<close>, \<open>min_queue\<close>, \<open>hashed_key\<close>), each interpreted
    on the model by the component that provides it; \<open>Stream_Callbacks\<close> has two more.
  \<^item> \<open>Stream_Buffer\<close> (\<open>stream_buffer.hpp\<close>, \<open>stream_buffer.cpp\<close>): the growing and shrinking byte
    buffer; it refines a byte queue, loses and reorders nothing, and its capacity comes back down.
  \<^item> \<open>Event_Types\<close> (\<open>core.hpp\<close>, \<open>core.cpp\<close>): event masks and their translation to epoll bits and back.
  \<^item> \<open>Kernel\<close>: the system calls. They are parameters, a record \<open>os\<close> of functions on a kernel state;
    what the code relies on is stated as predicates from the manual pages (\<open>epoll_documented\<close>,
    \<open>counter_documented\<close>, \<open>clock_documented\<close>, \<open>clock_in_range\<close>, \<open>stream_documented\<close>, \<open>fds_nonneg\<close>,
    \<open>accept_documented\<close>, \<open>dgram_documented\<close>, \<open>keeps_open\<close>, \<open>wake_silent\<close>), which are hypotheses of
    theorems, and \<open>ref_os\<close> is a small kernel that satisfies them. \<open>inet_documented\<close> does the same for
    \<open>inet_pton\<close> and \<open>inet_ntop\<close>, \<open>unlink_documented\<close> for \<open>unlink\<close>, \<open>log_documented\<close> and \<open>disk_ok\<close> for
    the files of the log.
  \<^item> \<open>Loop_Core\<close> (\<open>core.cpp\<close>): constructor, destructor, the closures that register, unregister,
    enable and disable a descriptor with every error branch, posting, and one turn of each
    executor. Invariant: the table is well formed and epoll watches registered descriptors only;
    also what each operation installs and removes, and that indices stay in range.
  \<^item> \<open>Loop_Threads\<close> (\<open>core.cpp\<close>): \<open>start\<close>, \<open>stop\<close>, \<open>io_executor\<close>, \<open>heavy_executor\<close> and posting as a
    step relation at the points where threads interleave; a closure or an event callback may itself
    call \<open>stop\<close>. Closures run once and in order, no
    posted closure is forgotten, no joinable thread is overwritten; where \<open>stop\<close> and \<open>start\<close> hang.
  \<^item> \<open>Loop_Channel\<close> (\<open>core.hpp\<close>, \<open>core.cpp\<close>): every operation of a channel. Programs over channel
    variables keep an ownership discipline, from which it follows that they never misuse the loop.
  \<^item> \<open>Std_Heap\<close>: \<open>std::priority_queue\<close> as a binary heap, a priority queue for any total preorder.
  \<^item> \<open>Timer\<close> (\<open>timer.hpp\<close>, \<open>timer.cpp\<close>): ids, posting, cancelling, arming, the callback. It fires
    exactly what is due and not cancelled, in order of time, and re-arms.
  \<^item> \<open>Inet_Addr\<close> (\<open>inet.hpp\<close>, \<open>inet.cpp\<close>): addresses by family, comparison, hash, factories, text.
  \<^item> \<open>Channel_Factory\<close> (\<open>inet.cpp\<close>): the factories of channels, none of which leaks a descriptor.
  \<^item> \<open>Stream_IO\<close> (\<open>inet.hpp\<close>, \<open>inet.cpp\<close>): one read, one write, the read, write and split loops of
    the stream callbacks and the closure of \<open>post_send_task\<close>. Bytes are received, split and sent
    in order, and waiting bytes always have the write event watched. \<open>reads\<close> specifies what a read loop
    takes from the socket and how it ends, \<open>cut_by\<close> and \<open>cut\<close> the frames of a buffer.
  \<^item> \<open>Stream_Session\<close> (\<open>inet.hpp\<close>, \<open>inet.cpp\<close>): an accepted connection and its whole callback, which
    returns, and delivers the stream in frames.
  \<^item> \<open>Stream_Server\<close> (\<open>inet.hpp\<close>, \<open>inet.cpp\<close>): the accept loop, the table of sessions, the closures
    that erase a session, and the lifetime of session objects. In every order of connections,
    events, closures and calls the table, the objects and the open descriptors agree.
  \<^item> \<open>Stream_Client\<close> (\<open>inet.hpp\<close>, \<open>inet.cpp\<close>): connecting with a timeout, sending, receiving,
    stopping; a started client never stalls, and what was sent before it was connected is not lost.
    Methods and closures run as a whole there, except that \<open>connect_next\<close> and \<open>send_next\<close> give \<open>connect\<close> and the
    closure of a message step by step, for a race between them.
  \<^item> \<open>Stream_Callbacks\<close>: the contract (locales \<open>client_class\<close>, \<open>server_class\<close>) of a class that fills
    in the virtual functions of the stream sockets from registered callbacks, and what follows from
    it; \<open>Tcp_Socket\<close> (\<open>tcp_socket.hpp\<close>, \<open>tcp_socket.cpp\<close>) and \<open>Unix_Socket\<close> (\<open>unix_socket.hpp\<close>,
    \<open>unix_socket.cpp\<close>) interpret both: frames reach the heavy thread, failures reach the error
    callback. Also the clean-up of socket files by the destructors, and a closure that outlives its server.
  \<^item> \<open>Dgram\<close> (\<open>inet.hpp\<close>, \<open>inet.cpp\<close>): datagram sockets, read until empty, and multicast groups.
  \<^item> \<open>Udp_Socket\<close> (\<open>udp_socket.hpp\<close>, \<open>udp_socket.cpp\<close>): node, client and server over them. The table of
    sessions refines a map from peers to sessions; datagrams are routed by peer, sessions end
    by the scan.
  \<^item> \<open>Log\<close> (\<open>log.hpp\<close>, \<open>log.cpp\<close>, \<open>sys_error.hpp\<close>): levels, lines, and the files they go to.

  \<^bold>\<open>How code corresponds to the model.\<close> A class is a record, a method a function from the
  object and the loop to their new values; a closure handed to another thread is a value of a
  datatype with one constructor per lambda. \<open>fault\<close> collects the ways code does not return
  (failed assertion, index out of range, exception, signed overflow, use of a destroyed object); a loop that may not end
  is a partial function into \<open>option\<close>, and its termination is a theorem. No fuel is used.
  An object that a \<open>weak_ptr\<close> observes is a number, and the loop state holds the set of live ones.
  What is logged is kept in the loop state as a \<open>log_entry\<close>, and \<open>Log\<close> turns it into lines of files.
  What a user registers is a number, and what it does a function in a record of the caller. Time is
  counted in nanoseconds as signed 64-bit values; the timer theorems assume delays and clock
  readings below \<open>2^62\<close> nanoseconds (146 years).

  \<^bold>\<open>Not modelled.\<close> The formatting of values by \<open>std::ostream\<close>, the text of error numbers, memory
  exhaustion, the contents of a receive buffer beyond the bytes received, user callbacks beyond what a handler record says, and the examples and tests, which
  use the library and are not part of it.
\<close>

end
